(* ===== verification/Prelude.thy ===== *)
theory Prelude
  imports Main "HOL-Library.Word" "HOL-Library.Sublist"
begin

text \<open>
  What the component theories share: the result type of fallible code with the combinators that
  Rust's \<open>?\<close>, \<open>map_err\<close> and \<open>ok_or_else\<close> stand for, the collections of simplification rules
  that the component proofs use, and generic facts on lists, options and machine words.
\<close>

named_theorems rust_simps "defining equations of the Rust standard library operations"
named_theorems result_simps "evaluation of the result combinators"
named_theorems pool_simps "defining equations of the atomic operations on the shared pool state"
named_theorems job_simps "evaluation of the command programs"

section \<open>Results\<close>

text \<open>\<open>Result<T, E>\<close> is the sum type with the error on the left.\<close>

definition and_then :: "'e + 'a \<Rightarrow> ('a \<Rightarrow> 'e + 'b) \<Rightarrow> 'e + 'b" where
  "and_then r f = (case r of Inl e \<Rightarrow> Inl e | Inr x \<Rightarrow> f x)"

definition map_ok :: "('a \<Rightarrow> 'b) \<Rightarrow> 'e + 'a \<Rightarrow> 'e + 'b" where
  "map_ok f r = (case r of Inl e \<Rightarrow> Inl e | Inr x \<Rightarrow> Inr (f x))"

definition map_err :: "('e \<Rightarrow> 'f) \<Rightarrow> 'e + 'a \<Rightarrow> 'f + 'a" where
  "map_err f r = (case r of Inl e \<Rightarrow> Inl (f e) | Inr x \<Rightarrow> Inr x)"

definition ok_or :: "'e \<Rightarrow> 'a option \<Rightarrow> 'e + 'a" where
  "ok_or e m = (case m of None \<Rightarrow> Inl e | Some x \<Rightarrow> Inr x)"

definition is_ok :: "'e + 'a \<Rightarrow> bool" where
  "is_ok r \<longleftrightarrow> (case r of Inl _ \<Rightarrow> False | Inr _ \<Rightarrow> True)"

lemma and_then_simps [simp, result_simps]:
  "and_then (Inl e) f = Inl e" "and_then (Inr x) f = f x"
  by (simp_all add: and_then_def)

lemma map_ok_simps [simp, result_simps]:
  "map_ok f (Inl e) = Inl e" "map_ok f (Inr x) = Inr (f x)"
  by (simp_all add: map_ok_def)

lemma map_err_simps [simp, result_simps]:
  "map_err f (Inl e) = Inl (f e)" "map_err f (Inr x) = Inr x"
  by (simp_all add: map_err_def)

lemma ok_or_simps [simp, result_simps]:
  "ok_or e None = Inl e" "ok_or e (Some x) = Inr x"
  by (simp_all add: ok_or_def)

lemma is_ok_simps [simp, result_simps]: "\<not> is_ok (Inl e)" "is_ok (Inr x)"
  by (simp_all add: is_ok_def)

lemma is_ok_iff: "is_ok r \<longleftrightarrow> (\<exists>x. r = Inr x)"
  by (cases r) simp_all

lemma and_then_eq_Inr: "and_then r f = Inr y \<longleftrightarrow> (\<exists>x. r = Inr x \<and> f x = Inr y)"
  by (cases r) simp_all

lemma and_then_eq_Inl: "and_then r f = Inl e \<longleftrightarrow> r = Inl e \<or> (\<exists>x. r = Inr x \<and> f x = Inl e)"
  by (cases r) simp_all

lemma is_ok_and_then: "is_ok (and_then r f) \<longleftrightarrow> (\<exists>x. r = Inr x \<and> is_ok (f x))"
  by (cases r) simp_all

lemma is_ok_and_then_const [simp]: "is_ok (and_then r (\<lambda>_. s)) \<longleftrightarrow> is_ok r \<and> is_ok s"
  by (cases r) simp_all

lemma Inr_unit_iff: "r = Inr () \<longleftrightarrow> is_ok r"
  by (cases r) simp_all

lemma map_ok_eq_Inr: "map_ok f r = Inr y \<longleftrightarrow> (\<exists>x. r = Inr x \<and> y = f x)"
  by (cases r) auto

lemma is_ok_map_ok [simp]: "is_ok (map_ok f r) = is_ok r"
  by (cases r) simp_all

lemma map_err_eq_Inr: "map_err f r = Inr y \<longleftrightarrow> r = Inr y"
  by (cases r) simp_all

lemmas result_splits = sum.splits option.splits

text \<open>\<open>for x in xs { f(x)?; }\<close>: the first error ends the loop.\<close>

fun each_ok :: "('a \<Rightarrow> 'e + 'b) \<Rightarrow> 'a list \<Rightarrow> 'e + 'b list" where
  "each_ok f [] = Inr []"
| "each_ok f (x # xs) = and_then (f x) (\<lambda>y. map_ok ((#) y) (each_ok f xs))"

lemma each_ok_Inr_iff: "each_ok f xs = Inr ys \<longleftrightarrow> list_all2 (\<lambda>x y. f x = Inr y) xs ys"
proof (induction xs arbitrary: ys)
  case (Cons x xs)
  then show ?case
    by (cases ys) (auto simp: and_then_eq_Inr map_ok_eq_Inr)
qed auto

lemma is_ok_each_ok: "is_ok (each_ok f xs) \<longleftrightarrow> (\<forall>x \<in> set xs. is_ok (f x))"
proof (induction xs)
  case (Cons x xs)
  then show ?case by (cases "f x") (simp_all)
qed simp

lemma each_ok_length: "each_ok f xs = Inr ys \<Longrightarrow> length ys = length xs"
  by (auto simp: each_ok_Inr_iff dest: list_all2_lengthD)

lemma each_ok_mem:
  assumes "each_ok f xs = Inr ys" and "y \<in> set ys"
  shows "\<exists>x \<in> set xs. f x = Inr y"
  using assms by (fastforce simp: each_ok_Inr_iff list_all2_conv_all_nth in_set_conv_nth)

section \<open>Machine words\<close>

text \<open>Counters of the program are 32 or 64 bits wide and wrap; below a bound they count.\<close>

lemma unat_add_one: "x < (y :: 'a::len word) \<Longrightarrow> unat (x + 1) = Suc (unat x)"
proof -
  assume "x < y"
  then have "unat x < unat y" by (simp add: word_less_nat_alt)
  moreover have "unat y < 2 ^ LENGTH('a)" by simp
  ultimately have "unat x + 1 < 2 ^ LENGTH('a)" by linarith
  then show "unat (x + 1) = Suc (unat x)"
    by (simp add: unat_word_ariths)
qed

lemma word_not_max_less: "unat x + 1 < 2 ^ LENGTH('a) \<Longrightarrow> unat (x + 1) = Suc (unat x)"
  for x :: "'a::len word"
  by (simp add: unat_word_ariths)

lemma unat_sub_one: "0 < unat x \<Longrightarrow> unat (x - 1) = unat x - 1" for x :: "'a::len word"
  by (metis One_nat_def Suc_leI unat_1 unat_sub word_le_nat_alt)

section \<open>Lists\<close>

lemma length_filter_update:
  "i < length xs \<Longrightarrow> length (filter P (xs[i := x])) + (if P (xs ! i) then 1 else 0)
     = length (filter P xs) + (if P x then 1 else 0)"
proof (induction xs arbitrary: i)
  case (Cons a xs)
  then show ?case by (cases i) auto
qed simp

section \<open>Invariants of a transition system\<close>

inductive reach :: "('s \<Rightarrow> bool) \<Rightarrow> ('s \<Rightarrow> 's \<Rightarrow> bool) \<Rightarrow> 's \<Rightarrow> bool"
  for start :: "'s \<Rightarrow> bool" and nxt :: "'s \<Rightarrow> 's \<Rightarrow> bool" where
  base: "start s \<Longrightarrow> reach start nxt s"
| more: "reach start nxt s \<Longrightarrow> nxt s t \<Longrightarrow> reach start nxt t"

locale invariant_system =
  fixes start :: "'s \<Rightarrow> bool" and next_state :: "'s \<Rightarrow> 's \<Rightarrow> bool" and inv :: "'s \<Rightarrow> bool"
  assumes starts: "start s \<Longrightarrow> inv s" and keeps: "inv s \<Longrightarrow> next_state s t \<Longrightarrow> inv t"
begin

lemma invariant: "reach start next_state s \<Longrightarrow> inv s"
  by (induction rule: reach.induct) (auto intro: starts keeps)

lemma stays: "next_state\<^sup>*\<^sup>* s t \<Longrightarrow> inv s \<Longrightarrow> inv t"
  by (induction rule: rtranclp_induct) (auto intro: keeps)

end

end
