(* ===== verification/Rust_Std.thy ===== *)
theory Rust_Std
  imports Prelude
begin

text \<open>
  The operations of the Rust standard library that the sources call: \<open>str\<close> methods on UTF-8
  strings, decimal printing and \<open>FromStr\<close> of integers, and \<open>std::time::Duration\<close>. A Rust string is
  its UTF-8 byte sequence, an Isabelle \<open>string\<close> (one \<open>char\<close> per byte); searching for ASCII text
  is the same on bytes as on code points. A \<open>Duration\<close> is its number of nanoseconds, at most
  \<open>dur_max\<close>.
\<close>

section \<open>White space\<close>

text \<open>
  \<open>str::trim\<close> drops code points with the Unicode property \<open>White_Space\<close>: U+0009 to U+000D, U+0020,
  U+0085, U+00A0, U+1680, U+2000 to U+200A, U+2028, U+2029, U+202F, U+205F and U+3000. Their UTF-8
  forms take one, two or three bytes; the two functions below give the number of bytes of a white
  space code point at the start of a string, and at its end (of the reversed string).
\<close>

definition byte_of :: "char \<Rightarrow> nat" where
  "byte_of c = of_char c"

definition ws1 :: "char \<Rightarrow> bool" where
  "ws1 a \<longleftrightarrow> (9 \<le> byte_of a \<and> byte_of a \<le> 13) \<or> byte_of a = 32"

definition ws2 :: "char \<Rightarrow> char \<Rightarrow> bool" where
  "ws2 a b \<longleftrightarrow> byte_of a = 194 \<and> (byte_of b = 133 \<or> byte_of b = 160)"

definition ws3 :: "char \<Rightarrow> char \<Rightarrow> char \<Rightarrow> bool" where
  "ws3 a b c \<longleftrightarrow>
     (byte_of a = 225 \<and> byte_of b = 154 \<and> byte_of c = 128) \<or>
     (byte_of a = 226 \<and> byte_of b = 128 \<and>
        ((128 \<le> byte_of c \<and> byte_of c \<le> 138) \<or> byte_of c = 168 \<or> byte_of c = 169 \<or> byte_of c = 175)) \<or>
     (byte_of a = 226 \<and> byte_of b = 129 \<and> byte_of c = 159) \<or>
     (byte_of a = 227 \<and> byte_of b = 128 \<and> byte_of c = 128)"

fun ws_head :: "string \<Rightarrow> nat" where
  "ws_head [] = 0"
| "ws_head [a] = (if ws1 a then 1 else 0)"
| "ws_head [a, b] = (if ws1 a then 1 else if ws2 a b then 2 else 0)"
| "ws_head (a # b # c # _) = (if ws1 a then 1 else if ws2 a b then 2 else if ws3 a b c then 3 else 0)"

fun ws_last :: "string \<Rightarrow> nat" where
  "ws_last [] = 0"
| "ws_last [a] = (if ws1 a then 1 else 0)"
| "ws_last [b, a] = (if ws1 b then 1 else if ws2 a b then 2 else 0)"
| "ws_last (c # b # a # _) = (if ws1 c then 1 else if ws2 b c then 2 else if ws3 a b c then 3 else 0)"

lemma ws_head_le: "ws_head s \<le> length s"
  by (induction s rule: ws_head.induct) auto

lemma ws_last_le: "ws_last s \<le> length s"
  by (induction s rule: ws_last.induct) auto

function trim_start :: "string \<Rightarrow> string" where
  "trim_start s = (if ws_head s = 0 then s else trim_start (drop (ws_head s) s))"
  by pat_completeness auto
termination
proof (relation "measure length")
  fix s :: string
  assume "ws_head s \<noteq> 0"
  with ws_head_le [of s] show "(drop (ws_head s) s, s) \<in> measure length" by simp
qed simp

function trim_last :: "string \<Rightarrow> string" where
  "trim_last s = (if ws_last s = 0 then s else trim_last (drop (ws_last s) s))"
  by pat_completeness auto
termination
proof (relation "measure length")
  fix s :: string
  assume "ws_last s \<noteq> 0"
  with ws_last_le [of s] show "(drop (ws_last s) s, s) \<in> measure length" by simp
qed simp

declare trim_start.simps [simp del] trim_last.simps [simp del]

definition trim_end :: "string \<Rightarrow> string" where
  "trim_end s = rev (trim_last (rev s))"

definition trim :: "string \<Rightarrow> string" where
  "trim s = trim_end (trim_start s)"

definition blank :: "string \<Rightarrow> bool" where
  "blank s \<longleftrightarrow> trim s = []"

text \<open>A trimmed string begins and ends with no white space; \<open>trim\<close> makes it so and then rests.\<close>

definition trimmed :: "string \<Rightarrow> bool" where
  "trimmed s \<longleftrightarrow> ws_head s = 0 \<and> ws_last (rev s) = 0"

lemma trim_start_head: "ws_head (trim_start s) = 0"
proof (induction s rule: trim_start.induct)
  case (1 s)
  then show ?case by (cases "ws_head s = 0") (simp_all add: trim_start.simps [of s])
qed

lemma trim_last_head: "ws_last (trim_last s) = 0"
proof (induction s rule: trim_last.induct)
  case (1 s)
  then show ?case by (cases "ws_last s = 0") (simp_all add: trim_last.simps [of s])
qed

lemma trim_start_id [simp]: "ws_head s = 0 \<Longrightarrow> trim_start s = s"
  by (simp add: trim_start.simps)

lemma trim_last_id [simp]: "ws_last s = 0 \<Longrightarrow> trim_last s = s"
  by (simp add: trim_last.simps)

lemma trim_id [simp]: "trimmed s \<Longrightarrow> trim s = s"
  by (simp add: trim_def trim_end_def trimmed_def)

lemma trim_last_suffix: "\<exists>w. s = w @ trim_last s"
proof (induction s rule: trim_last.induct)
  case (1 s)
  show ?case
  proof (cases "ws_last s = 0")
    case False
    with "1.IH" obtain w where "drop (ws_last s) s = w @ trim_last (drop (ws_last s) s)"
      by blast
    then have "s = (take (ws_last s) s @ w) @ trim_last s"
      using False append_take_drop_id [of "ws_last s" s] trim_last.simps [of s] by simp
    then show ?thesis by blast
  qed simp
qed

lemma trim_end_prefix: "\<exists>w. s = trim_end s @ w"
proof -
  obtain w where "rev s = w @ trim_last (rev s)" using trim_last_suffix by blast
  then have "s = trim_end s @ rev w"
    by (metis trim_end_def rev_append rev_rev_ident)
  then show ?thesis by blast
qed

lemma ws_head_prefix: "ws_head p \<noteq> 0 \<Longrightarrow> ws_head (p @ w) \<noteq> 0"
  by (induction p rule: ws_head.induct) (auto split: if_splits intro: ws_head.cases [of w])

lemma trimmed_trim: "trimmed (trim s)"
proof -
  let ?t = "trim_start s"
  obtain w where "?t = trim_end ?t @ w" using trim_end_prefix by blast
  then have "ws_head (trim_end ?t) = 0"
    using ws_head_prefix [of "trim_end ?t" w] trim_start_head [of s] by metis
  moreover have "ws_last (rev (trim_end ?t)) = 0"
    by (simp add: trim_end_def trim_last_head)
  ultimately show ?thesis by (simp add: trimmed_def trim_def)
qed

lemma trim_start_suffix: "\<exists>w. s = w @ trim_start s"
proof (induction s rule: trim_start.induct)
  case (1 s)
  show ?case
  proof (cases "ws_head s = 0")
    case False
    with "1.IH" obtain w where "drop (ws_head s) s = w @ trim_start (drop (ws_head s) s)"
      by blast
    then have "s = (take (ws_head s) s @ w) @ trim_start s"
      using False append_take_drop_id [of "ws_head s" s] trim_start.simps [of s] by simp
    then show ?thesis by blast
  qed simp
qed

lemma set_trim: "set (trim s) \<subseteq> set s"
proof -
  obtain u v where "s = u @ trim_start s" "trim_start s = trim s @ v"
    using trim_start_suffix trim_end_prefix trim_def by metis
  then have "s = u @ trim s @ v" by simp
  then show ?thesis by (metis set_append sup_ge1 sup_ge2 subset_trans)
qed

lemma trim_trim [simp]: "trim (trim s) = trim s"
  by (simp add: trimmed_trim)

text \<open>White space never straddles a byte below 128 that is not white space itself.\<close>

definition solid :: "char \<Rightarrow> bool" where
  "solid c \<longleftrightarrow> byte_of c < 128 \<and> \<not> ws1 c"

lemma ws_last_solid: "solid c \<Longrightarrow> ws_last (c # s) = 0"
  by (cases "c # s" rule: ws_last.cases) (auto simp: solid_def ws2_def ws3_def)

lemma ws_head_solid: "solid c \<Longrightarrow> ws_head (c # s) = 0"
  by (cases "c # s" rule: ws_head.cases) (auto simp: solid_def ws2_def ws3_def)

lemma ws_head_append_solid:
  "solid c \<Longrightarrow> ws_head h = 0 \<Longrightarrow> h \<noteq> [] \<Longrightarrow> ws_head (h @ c # s) = 0"
proof (induction h rule: ws_head.induct)
  case (2 a)
  then show ?case
    by (cases s) (auto simp: solid_def ws2_def ws3_def split: if_splits)
next
  case (3 a b)
  then show ?case by (auto simp: solid_def ws3_def split: if_splits)
qed (auto split: if_splits)

lemma trimmed_append_solid:
  "solid c \<Longrightarrow> ws_head h = 0 \<Longrightarrow> h \<noteq> [] \<Longrightarrow> s \<noteq> [] \<Longrightarrow> solid (last s) \<Longrightarrow> trimmed (h @ c # s)"
  by (cases s rule: rev_cases) (auto simp: trimmed_def ws_head_append_solid ws_last_solid)

lemma trimmed_Nil [simp]: "trimmed []"
  by (simp add: trimmed_def)

lemma blank_Nil [simp]: "blank []"
  by (simp add: blank_def)

section \<open>Searching and splitting\<close>

definition starts_with :: "string \<Rightarrow> string \<Rightarrow> bool" where
  "starts_with p s \<longleftrightarrow> take (length p) s = p"

text \<open>\<open>str::split_once\<close> with a string pattern: around the first occurrence.\<close>

fun split_once :: "string \<Rightarrow> string \<Rightarrow> (string \<times> string) option" where
  "split_once p [] = (if p = [] then Some ([], []) else None)"
| "split_once p (c # cs) =
     (if starts_with p (c # cs) then Some ([], drop (length p) (c # cs))
      else map_option (\<lambda>(a, b). (c # a, b)) (split_once p cs))"

text \<open>\<open>str::rsplit_once\<close> with a character pattern: around the last occurrence.\<close>

fun rsplit_once :: "char \<Rightarrow> string \<Rightarrow> (string \<times> string) option" where
  "rsplit_once c [] = None"
| "rsplit_once c (x # xs) =
     (case rsplit_once c xs of
        Some (a, b) \<Rightarrow> Some (x # a, b)
      | None \<Rightarrow> if x = c then Some ([], xs) else None)"

definition contains :: "string \<Rightarrow> string \<Rightarrow> bool" where
  "contains p s \<longleftrightarrow> split_once p s \<noteq> None"

text \<open>\<open>str::split\<close> with a character: always at least one piece.\<close>

fun split_on :: "char \<Rightarrow> string \<Rightarrow> string list" where
  "split_on c [] = [[]]"
| "split_on c (x # xs) =
     (if x = c then [] # split_on c xs
      else case split_on c xs of [] \<Rightarrow> [[x]] | p # ps \<Rightarrow> (x # p) # ps)"

fun join_with :: "string \<Rightarrow> string list \<Rightarrow> string" where
  "join_with sep [] = []"
| "join_with sep [s] = s"
| "join_with sep (s # t # ss) = s @ sep @ join_with sep (t # ss)"

lemma split_once_Some: "split_once p s = Some (a, b) \<Longrightarrow> s = a @ p @ b"
proof (induction s arbitrary: a b)
  case (Cons c cs)
  show ?case
  proof (cases "starts_with p (c # cs)")
    case True
    then have "c # cs = p @ drop (length p) (c # cs)"
      by (metis append_take_drop_id starts_with_def)
    with True Cons.prems show ?thesis by auto
  next
    case False
    with Cons.prems obtain a' where "split_once p cs = Some (a', b)" "a = c # a'"
      by auto
    with Cons.IH show ?thesis by simp
  qed
qed (auto split: if_splits)

text \<open>With no occurrence of the pattern's first character before it, the first occurrence is found.\<close>

lemma split_once_first:
  "c \<notin> set a \<Longrightarrow> split_once (c # p) (a @ (c # p) @ b) = Some (a, b)"
  by (induction a) (auto simp: starts_with_def)

lemma split_once_None: "c \<notin> set s \<Longrightarrow> split_once (c # p) s = None"
  by (induction s) (auto simp: starts_with_def)

lemma rsplit_once_None: "rsplit_once c s = None \<longleftrightarrow> c \<notin> set s"
  by (induction s) (auto split: option.splits)

lemma rsplit_once_absent [simp]: "c \<notin> set s \<Longrightarrow> rsplit_once c s = None"
  by (rule rsplit_once_None [THEN iffD2])

lemma rsplit_once_last [simp]: "c \<notin> set b \<Longrightarrow> rsplit_once c (a @ c # b) = Some (a, b)"
  by (induction a) auto

lemma rsplit_once_Some: "rsplit_once c s = Some (a, b) \<Longrightarrow> s = a @ c # b \<and> c \<notin> set b"
proof (induction s arbitrary: a b)
  case (Cons x xs)
  then show ?case
    by (cases "rsplit_once c xs") (auto simp: rsplit_once_None split: if_splits)
qed simp

lemma split_on_ne: "split_on c s \<noteq> []"
  by (induction s) (auto split: list.splits)

lemma split_on_sep_free: "p \<in> set (split_on c s) \<Longrightarrow> c \<notin> set p"
proof (induction s arbitrary: p)
  case (Cons x xs)
  then show ?case by (cases "split_on c xs") (auto split: if_splits)
qed simp

lemma join_split_on: "join_with [c] (split_on c s) = s"
proof (induction s)
  case (Cons x xs)
  then show ?case
    using split_on_ne [of c xs] by (cases "split_on c xs"; cases "tl (split_on c xs)") auto
qed simp

lemma starts_with_append [simp]: "starts_with p (p @ s)"
  by (simp add: starts_with_def)

lemma starts_with_iff: "starts_with p s \<longleftrightarrow> (\<exists>t. s = p @ t)"
  by (metis append_eq_conv_conj append_take_drop_id starts_with_def)

section \<open>ASCII case\<close>

definition lower_char :: "char \<Rightarrow> char" where
  "lower_char c = (if 65 \<le> byte_of c \<and> byte_of c \<le> 90 then char_of (byte_of c + 32) else c)"

definition upper_char :: "char \<Rightarrow> char" where
  "upper_char c = (if 97 \<le> byte_of c \<and> byte_of c \<le> 122 then char_of (byte_of c - 32) else c)"

definition to_ascii_lowercase :: "string \<Rightarrow> string" where
  "to_ascii_lowercase s = map lower_char s"

definition to_ascii_uppercase :: "string \<Rightarrow> string" where
  "to_ascii_uppercase s = map upper_char s"

section \<open>Integers as text\<close>

text \<open>
  \<open>FromStr\<close> of the integer types reads an optional sign and decimal digits one at a time: at each
  digit an invalid character is reported first, then the overflow of the accumulated value. A
  minus sign is a digit error for the unsigned types.
\<close>

datatype int_error = IntEmpty | InvalidDigit | PosOverflow | NegOverflow

definition digit_val :: "char \<Rightarrow> nat option" where
  "digit_val c = (if 48 \<le> byte_of c \<and> byte_of c \<le> 57 then Some (byte_of c - 48) else None)"

fun read_digits :: "int_error \<Rightarrow> nat \<Rightarrow> nat \<Rightarrow> string \<Rightarrow> int_error + nat" where
  "read_digits ov m acc [] = Inr acc"
| "read_digits ov m acc (c # cs) =
     (case digit_val c of
        None \<Rightarrow> Inl InvalidDigit
      | Some d \<Rightarrow> if m < acc * 10 + d then Inl ov else read_digits ov m (acc * 10 + d) cs)"

definition parse_uint :: "nat \<Rightarrow> string \<Rightarrow> int_error + nat" where
  "parse_uint m s =
     (case s of
        [] \<Rightarrow> Inl IntEmpty
      | c # cs \<Rightarrow>
          if cs = [] \<and> (c = CHR ''+'' \<or> c = CHR ''-'') then Inl InvalidDigit
          else if c = CHR ''+'' then read_digits PosOverflow m 0 cs
          else read_digits PosOverflow m 0 s)"

abbreviation u16_max :: nat where "u16_max \<equiv> 65535"
abbreviation u32_max :: nat where "u32_max \<equiv> 4294967295"
abbreviation u64_max :: nat where "u64_max \<equiv> 18446744073709551615"
abbreviation i64_max :: nat where "i64_max \<equiv> 9223372036854775807"
abbreviation i64_neg_max :: nat where "i64_neg_max \<equiv> 9223372036854775808"

definition parse_u16 :: "string \<Rightarrow> int_error + nat" where
  "parse_u16 = parse_uint u16_max"

definition parse_u64 :: "string \<Rightarrow> int_error + nat" where
  "parse_u64 = parse_uint u64_max"

definition parse_i64 :: "string \<Rightarrow> int_error + int" where
  "parse_i64 s =
     (case s of
        [] \<Rightarrow> Inl IntEmpty
      | c # cs \<Rightarrow>
          if cs = [] \<and> (c = CHR ''+'' \<or> c = CHR ''-'') then Inl InvalidDigit
          else if c = CHR ''-'' then map_ok (\<lambda>n. - int n) (read_digits NegOverflow i64_neg_max 0 cs)
          else if c = CHR ''+'' then map_ok int (read_digits PosOverflow i64_max 0 cs)
          else map_ok int (read_digits PosOverflow i64_max 0 s))"

text \<open>\<open>Display\<close> of the integer types.\<close>

definition digit_char :: "nat \<Rightarrow> char" where
  "digit_char d = char_of (48 + d)"

fun show_nat :: "nat \<Rightarrow> string" where
  "show_nat n = (if n < 10 then [digit_char n] else show_nat (n div 10) @ [digit_char (n mod 10)])"

definition fits_i64 :: "int \<Rightarrow> bool" where
  "fits_i64 n \<longleftrightarrow> - int i64_neg_max \<le> n \<and> n \<le> int i64_max"

definition show_int :: "int \<Rightarrow> string" where
  "show_int i = (if i < 0 then CHR ''-'' # show_nat (nat (- i)) else show_nat (nat i))"

declare show_nat.simps [simp del]

lemma digit_char_simps [simp]:
  "digit_char 0 = CHR ''0''" "digit_char (Suc 0) = CHR ''1''" "digit_char 1 = CHR ''1''"
  "digit_char 2 = CHR ''2''" "digit_char 3 = CHR ''3''" "digit_char 4 = CHR ''4''"
  "digit_char 5 = CHR ''5''" "digit_char 6 = CHR ''6''" "digit_char 7 = CHR ''7''"
  "digit_char 8 = CHR ''8''" "digit_char 9 = CHR ''9''"
  by (simp_all add: digit_char_def char_of_eq_iff)

lemma byte_of_digit_char: "d < 10 \<Longrightarrow> byte_of (digit_char d) = 48 + d"
  by (simp add: byte_of_def digit_char_def)

lemma digit_val_digit_char [simp]: "d < 10 \<Longrightarrow> digit_val (digit_char d) = Some d"
  by (simp add: digit_val_def byte_of_digit_char)

lemma byte_of_inject: "byte_of c = byte_of d \<Longrightarrow> c = d"
  by (simp add: byte_of_def)

lemma digit_val_range: "digit_val c = Some d \<Longrightarrow> c = digit_char d \<and> d < 10"
  by (auto simp: digit_val_def byte_of_digit_char split: if_splits intro!: byte_of_inject)

lemma read_digits_append:
  "read_digits ov m acc s = Inr n \<Longrightarrow> read_digits ov m acc (s @ t) = read_digits ov m n t"
  by (induction s arbitrary: acc) (auto split: option.splits if_splits)

lemma read_digits_le:
  "read_digits ov m acc s = Inr n \<Longrightarrow> acc \<le> m \<Longrightarrow> n \<le> m"
  by (induction s arbitrary: acc) (auto split: option.splits if_splits)

lemma read_show_nat: "n \<le> m \<Longrightarrow> read_digits ov m 0 (show_nat n) = Inr n"
proof (induction n rule: show_nat.induct)
  case (1 n)
  show ?case
  proof (cases "n < 10")
    case True
    with "1.prems" show ?thesis by (simp add: show_nat.simps [of n])
  next
    case False
    with 1 have "read_digits ov m 0 (show_nat (n div 10)) = Inr (n div 10)" by simp
    then have "read_digits ov m 0 (show_nat n) = read_digits ov m (n div 10) [digit_char (n mod 10)]"
      using False show_nat.simps [of n] by (simp add: read_digits_append)
    with "1.prems" show ?thesis by simp
  qed
qed

lemma show_nat_ne [simp]: "show_nat n \<noteq> []"
  by (simp add: show_nat.simps [of n])

lemma show_nat_digits: "c \<in> set (show_nat n) \<Longrightarrow> \<exists>d < 10. c = digit_char d"
proof (induction n rule: show_nat.induct)
  case (1 n)
  have m: "n mod 10 < 10" by simp
  from "1.prems" consider "n < 10" "c = digit_char n"
    | "\<not> n < 10" "c \<in> set (show_nat (n div 10))" | "c = digit_char (n mod 10)"
    by (auto simp: show_nat.simps [of n] split: if_splits)
  then show ?case using m "1.IH" by cases blast+
qed

lemma digit_char_bytes: "d < 10 \<Longrightarrow> digit_char d = c \<Longrightarrow> 48 \<le> byte_of c \<and> byte_of c \<le> 57"
  using byte_of_digit_char by auto

lemma show_nat_no_char:
  assumes "byte_of c < 48 \<or> 57 < byte_of c" shows "c \<notin> set (show_nat n)"
  using assms show_nat_digits [of c n] digit_char_bytes by fastforce

lemma parse_uint_show_nat: "n \<le> m \<Longrightarrow> parse_uint m (show_nat n) = Inr n"
proof -
  assume "n \<le> m"
  obtain c cs where s: "show_nat n = c # cs" by (cases "show_nat n") auto
  have "CHR ''+'' \<notin> set (show_nat n)" "CHR ''-'' \<notin> set (show_nat n)"
    by (rule show_nat_no_char, simp add: byte_of_def)+
  with s have "c \<noteq> CHR ''+''" "c \<noteq> CHR ''-''" by auto
  with s read_show_nat [OF \<open>n \<le> m\<close>, of PosOverflow] show ?thesis
    by (simp add: parse_uint_def)
qed

lemma parse_uint_le: "parse_uint m s = Inr n \<Longrightarrow> n \<le> m"
  by (auto simp: parse_uint_def dest: read_digits_le split: list.splits if_splits
      simp del: read_digits.simps)

lemma parse_i64_show_int:
  assumes "- int i64_neg_max \<le> i" "i \<le> int i64_max"
  shows "parse_i64 (show_int i) = Inr i"
proof (cases "i < 0")
  case True
  then have "nat (- i) \<le> i64_neg_max" using assms by linarith
  from read_show_nat [OF this, of NegOverflow] True show ?thesis
    by (simp add: parse_i64_def show_int_def)
next
  case False
  then have le: "nat i \<le> i64_max" using assms by linarith
  obtain c cs where s: "show_nat (nat i) = c # cs" by (cases "show_nat (nat i)") auto
  have "CHR ''+'' \<notin> set (show_nat (nat i))" "CHR ''-'' \<notin> set (show_nat (nat i))"
    by (rule show_nat_no_char, simp add: byte_of_def)+
  with s have "c \<noteq> CHR ''+''" "c \<noteq> CHR ''-''" by auto
  with s False read_show_nat [OF le, of PosOverflow] show ?thesis
    by (simp add: parse_i64_def show_int_def)
qed

section \<open>Durations\<close>

type_synonym duration = nat

abbreviation dur_max :: duration where
  "dur_max \<equiv> u64_max * 1000000000 + 999999999"

definition from_secs :: "nat \<Rightarrow> duration" where
  "from_secs s = s * 1000000000"

definition from_millis :: "nat \<Rightarrow> duration" where
  "from_millis ms = ms * 1000000"

definition as_secs :: "duration \<Rightarrow> nat" where
  "as_secs d = d div 1000000000"

definition subsec_nanos :: "duration \<Rightarrow> nat" where
  "subsec_nanos d = d mod 1000000000"

definition as_millis :: "duration \<Rightarrow> nat" where
  "as_millis d = d div 1000000"

text \<open>\<open>Duration + Duration\<close> panics on overflow (\<open>None\<close>); \<open>saturating_sub\<close> stops at zero.\<close>

definition dur_add :: "duration \<Rightarrow> duration \<Rightarrow> duration option" where
  "dur_add a b = (if a + b \<le> dur_max then Some (a + b) else None)"

definition dur_saturating_sub :: "duration \<Rightarrow> duration \<Rightarrow> duration" where
  "dur_saturating_sub a b = a - b"

text \<open>\<open>u64::try_from\<close> and \<open>i64::try_from\<close> of a wider unsigned value.\<close>

definition try_u64 :: "nat \<Rightarrow> nat option" where
  "try_u64 n = (if n \<le> u64_max then Some n else None)"

definition try_i64 :: "nat \<Rightarrow> int option" where
  "try_i64 n = (if n \<le> i64_max then Some (int n) else None)"

lemma as_millis_from_millis [simp]: "as_millis (from_millis ms) = ms"
  by (simp add: as_millis_def from_millis_def)

lemma as_millis_zero_iff: "as_millis d = 0 \<longleftrightarrow> d < 1000000"
  by (simp add: as_millis_def div_eq_0_iff)

lemma secs_nanos: "as_secs d * 1000000000 + subsec_nanos d = d"
  by (simp add: as_secs_def subsec_nanos_def)

end
