(* ===== verification/Errors.thy ===== *)
theory Errors
  imports Rust_Std
begin

text \<open>
  \<open>src/error.rs\<close> and \<open>src/error_map.rs\<close>: the crate's error type with its two classifiers, and the
  mapping of the driver's errors into it. A message is \<open>Msg tag args\<close>: the tag names the fixed text
  of the source's \<open>format!\<close> and the arguments are the interpolated values, in order.
\<close>

section \<open>The error type\<close>

datatype errmsg = Msg string "string list"

datatype redis_error =
    Config errmsg
  | Connection errmsg
  | Backend errmsg
  | Serialization errmsg
  | Io string
  | Timeout errmsg
  | Unsupported errmsg
  | Transient errmsg
  | Conflict errmsg
  | Missing errmsg
  | Internal errmsg

type_synonym 'a res = "redis_error + 'a"

fun is_retryable :: "redis_error \<Rightarrow> bool" where
  "is_retryable (Connection _) = True"
| "is_retryable (Transient _) = True"
| "is_retryable (Timeout _) = True"
| "is_retryable (Io _) = True"
| "is_retryable _ = False"

fun label :: "redis_error \<Rightarrow> string" where
  "label (Config _) = ''config''"
| "label (Connection _) = ''connection''"
| "label (Backend _) = ''backend''"
| "label (Serialization _) = ''serialization''"
| "label (Io _) = ''io''"
| "label (Timeout _) = ''timeout''"
| "label (Unsupported _) = ''unsupported''"
| "label (Transient _) = ''transient''"
| "label (Conflict _) = ''conflict''"
| "label (Missing _) = ''missing''"
| "label (Internal _) = ''internal''"

text \<open>The values interpolated into an error, which are what a log line can reveal.\<close>

fun error_args :: "redis_error \<Rightarrow> string list" where
  "error_args (Config (Msg _ xs)) = xs"
| "error_args (Connection (Msg _ xs)) = xs"
| "error_args (Backend (Msg _ xs)) = xs"
| "error_args (Serialization (Msg _ xs)) = xs"
| "error_args (Io x) = [x]"
| "error_args (Timeout (Msg _ xs)) = xs"
| "error_args (Unsupported (Msg _ xs)) = xs"
| "error_args (Transient (Msg _ xs)) = xs"
| "error_args (Conflict (Msg _ xs)) = xs"
| "error_args (Missing (Msg _ xs)) = xs"
| "error_args (Internal (Msg _ xs)) = xs"

abbreviation is_config :: "redis_error \<Rightarrow> bool" where
  "is_config e \<equiv> label e = ''config''"

text \<open>Automatic retry is decided by the label alone.\<close>

lemma is_retryable_label:
  "is_retryable e \<longleftrightarrow> label e \<in> {''connection'', ''transient'', ''timeout'', ''io''}"
  by (cases e) simp_all

text \<open>A result whose only errors are configuration errors.\<close>

definition config_only :: "'a res \<Rightarrow> bool" where
  "config_only r \<longleftrightarrow> (case r of Inl e \<Rightarrow> is_config e | Inr _ \<Rightarrow> True)"

lemma config_only_simps [simp]:
  "config_only (Inr x)" "config_only (Inl e) \<longleftrightarrow> is_config e" "config_only (map_ok f r) = config_only r"
  by (simp_all add: config_only_def map_ok_def split: sum.splits)

lemma config_only_and_then [intro]:
  "config_only r \<Longrightarrow> (\<And>x. r = Inr x \<Longrightarrow> config_only (f x)) \<Longrightarrow> config_only (and_then r f)"
  by (cases r) simp_all

lemma config_only_and_then_const [simp]:
  "config_only r \<Longrightarrow> config_only s \<Longrightarrow> config_only (and_then r (\<lambda>_. s))"
  by (cases r) simp_all

lemma config_only_each_ok [simp]:
  "(\<And>x. config_only (f x)) \<Longrightarrow> config_only (each_ok f xs)"
  by (induction xs) (auto intro!: config_only_and_then)

lemma config_onlyD: "config_only r \<Longrightarrow> r = Inl e \<Longrightarrow> is_config e"
  by simp

section \<open>The driver's errors\<close>

text \<open>
  The \<open>redis\<close> crate's \<open>ErrorKind\<close> with the variants the source names; the enum is not exhaustive,
  any other variant is \<open>OtherKind\<close>. A driver error is seen through \<open>kind()\<close> and \<open>to_string()\<close>.
\<close>

datatype error_kind =
    ResponseError | AuthenticationFailed | TypeError | ExecAbortError | BusyLoadingError
  | NoScriptError | InvalidClientConfig | Moved | Ask | TryAgain | ClusterDown | CrossSlot
  | MasterDown | IoError | ClientError | ExtensionError | ReadOnly
  | MasterNameNotFoundBySentinel | NoValidReplicasFoundBySentinel | EmptySentinelList
  | NotBusy | ClusterConnectionNotFound | OtherKind string

record driver_error =
  kind :: error_kind
  shown :: string

definition map_textual :: "string \<Rightarrow> redis_error" where
  "map_textual msg =
     (let upper = to_ascii_uppercase msg in
      if contains ''LOADING'' upper \<or> contains ''TRYAGAIN'' upper
      then Transient (Msg ''response recoverable'' [msg])
      else if contains ''NOAUTH'' upper \<or> contains ''WRONGPASS'' upper
      then Backend (Msg ''authentication failed'' [msg])
      else if contains ''READONLY'' upper
      then Connection (Msg ''read-only node'' [msg])
      else Internal (Msg ''response error'' [msg]))"

definition map_redis_error :: "driver_error \<Rightarrow> redis_error" where
  "map_redis_error err =
     (let msg = shown err in
      case kind err of
        InvalidClientConfig \<Rightarrow> Config (Msg ''client parameter invalid'' [msg])
      | ClientError \<Rightarrow> Config (Msg ''client parameter invalid'' [msg])
      | AuthenticationFailed \<Rightarrow> Backend (Msg ''authentication failed'' [msg])
      | BusyLoadingError \<Rightarrow> Transient (Msg ''recoverable fault'' [msg])
      | TryAgain \<Rightarrow> Transient (Msg ''recoverable fault'' [msg])
      | Moved \<Rightarrow> Transient (Msg ''cluster redirect or cross slot'' [msg])
      | Ask \<Rightarrow> Transient (Msg ''cluster redirect or cross slot'' [msg])
      | CrossSlot \<Rightarrow> Transient (Msg ''cluster redirect or cross slot'' [msg])
      | IoError \<Rightarrow> Connection (Msg ''I/O failed'' [msg])
      | ClusterDown \<Rightarrow> Connection (Msg ''node unavailable'' [msg])
      | MasterDown \<Rightarrow> Connection (Msg ''node unavailable'' [msg])
      | ReadOnly \<Rightarrow> Connection (Msg ''node unavailable'' [msg])
      | ClusterConnectionNotFound \<Rightarrow> Connection (Msg ''node unavailable'' [msg])
      | EmptySentinelList \<Rightarrow> Connection (Msg ''node unavailable'' [msg])
      | MasterNameNotFoundBySentinel \<Rightarrow> Connection (Msg ''node unavailable'' [msg])
      | NoValidReplicasFoundBySentinel \<Rightarrow> Connection (Msg ''node unavailable'' [msg])
      | ExecAbortError \<Rightarrow> Conflict (Msg ''execution aborted'' [msg])
      | NoScriptError \<Rightarrow> Missing (Msg ''script missing'' [msg])
      | TypeError \<Rightarrow> Internal (Msg ''type or protocol error'' [msg])
      | ResponseError \<Rightarrow> map_textual msg
      | ExtensionError \<Rightarrow> map_textual msg
      | NotBusy \<Rightarrow> map_textual msg
      | OtherKind _ \<Rightarrow> Internal (Msg ''unclassified error'' [msg]))"

definition map_redis_result :: "driver_error + 'a \<Rightarrow> 'a res" where
  "map_redis_result r = map_err map_redis_error r"

lemma map_redis_result_simps [simp, result_simps]:
  "map_redis_result (Inl e) = Inl (map_redis_error e)"
  "map_redis_result (Inr x) = Inr x"
  by (simp_all add: map_redis_result_def)

text \<open>The documented table: which driver errors an automatic retry may follow.\<close>

definition text_retryable :: "string \<Rightarrow> bool" where
  "text_retryable msg \<longleftrightarrow>
     (let upper = to_ascii_uppercase msg in
      contains ''LOADING'' upper \<or> contains ''TRYAGAIN'' upper \<or>
      (contains ''READONLY'' upper \<and> \<not> contains ''NOAUTH'' upper \<and> \<not> contains ''WRONGPASS'' upper))"

definition kind_retryable :: "driver_error \<Rightarrow> bool" where
  "kind_retryable err \<longleftrightarrow>
     kind err \<in> {BusyLoadingError, TryAgain, Moved, Ask, CrossSlot, IoError, ClusterDown, MasterDown,
       ReadOnly, ClusterConnectionNotFound, EmptySentinelList, MasterNameNotFoundBySentinel,
       NoValidReplicasFoundBySentinel} \<or>
     (kind err \<in> {ResponseError, ExtensionError, NotBusy} \<and> text_retryable (shown err))"

lemma map_textual_retryable: "is_retryable (map_textual msg) \<longleftrightarrow> text_retryable msg"
  by (simp add: map_textual_def text_retryable_def Let_def)

lemma map_textual_args [simp]: "error_args (map_textual msg) = [msg]"
  by (simp add: map_textual_def Let_def)

lemma map_redis_error_args [simp]: "error_args (map_redis_error err) = [shown err]"
  by (cases "kind err") (simp_all add: map_redis_error_def Let_def)

text \<open>
  C32. Classification of driver errors. A driver error becomes a retryable error exactly for the
  kinds of the documented table (not ready, redirect, I/O, unavailable node), or, for the three
  kinds that carry their meaning only in their text, when the text says so case-insensitively:
  LOADING or TRYAGAIN first, then READONLY unless the text also reports a failed authentication.
\<close>

theorem map_redis_error_retryable:
  "is_retryable (map_redis_error err) \<longleftrightarrow> kind_retryable err"
  by (cases "kind err")
    (simp_all add: map_redis_error_def kind_retryable_def map_textual_retryable Let_def)

text \<open>
  A failed authentication is never retried and never reported as a configuration or connection
  problem, whichever way the driver reports it: by its kind, or by a text with NOAUTH or WRONGPASS
  that does not also announce a server that is loading.
\<close>

theorem authentication_failure_is_final:
  assumes "kind err = AuthenticationFailed \<or>
     (kind err \<in> {ResponseError, ExtensionError, NotBusy} \<and>
      (contains ''NOAUTH'' (to_ascii_uppercase (shown err)) \<or>
       contains ''WRONGPASS'' (to_ascii_uppercase (shown err))) \<and>
      \<not> contains ''LOADING'' (to_ascii_uppercase (shown err)) \<and>
      \<not> contains ''TRYAGAIN'' (to_ascii_uppercase (shown err)))"
  shows "map_redis_error err = Backend (Msg ''authentication failed'' [shown err])"
  using assms by (auto simp: map_redis_error_def map_textual_def Let_def)

theorem authentication_failure_is_final_witness:
  "map_redis_error \<lparr>kind = ExtensionError, shown = ''wrongpass invalid''\<rparr>
     = Backend (Msg ''authentication failed'' [''wrongpass invalid''])"
proof -
  have up: "to_ascii_uppercase ''wrongpass invalid'' = ''WRONGPASS INVALID''"
    by code_simp
  have "contains ''WRONGPASS'' ''WRONGPASS INVALID''" "\<not> contains ''LOADING'' ''WRONGPASS INVALID''"
    "\<not> contains ''TRYAGAIN'' ''WRONGPASS INVALID''"
    by (simp_all add: contains_def starts_with_def)
  then show ?thesis
    using authentication_failure_is_final [of "\<lparr>kind = ExtensionError, shown = ''wrongpass invalid''\<rparr>"]
    by (simp add: up)
qed

end
