(* ===== verification/F64.thy ===== *)
theory F64
  imports Rust_Std "HOL-Library.Log_Nat"
begin

text \<open>
  The binary64 arithmetic of \<open>std\<close> that the retry policy uses: a value is a rational or one of the
  special values, every operation computes the exact result and rounds it to the nearest
  representable number, ties to the even mantissa, with gradual underflow and overflow to infinity.
  The sign of a zero is not kept: no operation of the program can tell the two zeros apart. Then
  the conversions between \<open>Duration\<close> and \<open>f64\<close>, and what their rounding errors amount to.
\<close>

section \<open>Powers of two and rounding\<close>

datatype f64 = Fin rat | PosInf | NegInf | NaN

definition pow2 :: "int \<Rightarrow> rat" where
  "pow2 e = (if 0 \<le> e then 2 ^ nat e else 1 / 2 ^ nat (- e))"

text \<open>The exponent of a positive rational: \<open>2 ^ e \<le> x < 2 ^ (e + 1)\<close>.\<close>

definition ilog2 :: "rat \<Rightarrow> int" where
  "ilog2 x =
     (let (p, q) = quotient_of x; k = bitlen p - bitlen q
      in if x < pow2 k then k - 1 else k)"

definition round_half_even :: "rat \<Rightarrow> int" where
  "round_half_even y =
     (let f = \<lfloor>y\<rfloor>; r = y - of_int f
      in if r < 1 / 2 then f else if 1 / 2 < r then f + 1 else if even f then f else f + 1)"

definition unit_exp :: "rat \<Rightarrow> int" where
  "unit_exp x = max (-1074) (ilog2 x - 52)"

definition rne_pos :: "rat \<Rightarrow> f64" where
  "rne_pos x =
     (let e = unit_exp x; v = of_int (round_half_even (x / pow2 e)) * pow2 e
      in if pow2 1024 \<le> v then PosInf else Fin v)"

fun f_neg :: "f64 \<Rightarrow> f64" where
  "f_neg (Fin x) = Fin (- x)"
| "f_neg PosInf = NegInf"
| "f_neg NegInf = PosInf"
| "f_neg NaN = NaN"

definition rne :: "rat \<Rightarrow> f64" where
  "rne x = (if x = 0 then Fin 0 else if 0 < x then rne_pos x else f_neg (rne_pos (- x)))"

fun f_add :: "f64 \<Rightarrow> f64 \<Rightarrow> f64" where
  "f_add (Fin x) (Fin y) = rne (x + y)"
| "f_add NaN _ = NaN"
| "f_add _ NaN = NaN"
| "f_add PosInf NegInf = NaN"
| "f_add NegInf PosInf = NaN"
| "f_add PosInf _ = PosInf"
| "f_add _ PosInf = PosInf"
| "f_add NegInf _ = NegInf"
| "f_add _ NegInf = NegInf"

fun f_mul :: "f64 \<Rightarrow> f64 \<Rightarrow> f64" where
  "f_mul (Fin x) (Fin y) = rne (x * y)"
| "f_mul NaN _ = NaN"
| "f_mul _ NaN = NaN"
| "f_mul PosInf (Fin y) = (if y = 0 then NaN else if 0 < y then PosInf else NegInf)"
| "f_mul NegInf (Fin y) = (if y = 0 then NaN else if 0 < y then NegInf else PosInf)"
| "f_mul (Fin x) PosInf = (if x = 0 then NaN else if 0 < x then PosInf else NegInf)"
| "f_mul (Fin x) NegInf = (if x = 0 then NaN else if 0 < x then NegInf else PosInf)"
| "f_mul PosInf PosInf = PosInf"
| "f_mul PosInf NegInf = NegInf"
| "f_mul NegInf PosInf = NegInf"
| "f_mul NegInf NegInf = PosInf"

text \<open>Division by a positive constant, the only division of the program.\<close>

fun f_div_const :: "f64 \<Rightarrow> rat \<Rightarrow> f64" where
  "f_div_const (Fin x) c = rne (x / c)"
| "f_div_const PosInf c = PosInf"
| "f_div_const NegInf c = NegInf"
| "f_div_const NaN c = NaN"

fun is_finite :: "f64 \<Rightarrow> bool" where
  "is_finite (Fin _) = True"
| "is_finite _ = False"

text \<open>\<open>a < b\<close>; comparisons with \<open>NaN\<close> are false, so \<open>a \<ge> b\<close> is a function of its own.\<close>

fun f_less :: "f64 \<Rightarrow> f64 \<Rightarrow> bool" where
  "f_less (Fin x) (Fin y) = (x < y)"
| "f_less NaN _ = False"
| "f_less _ NaN = False"
| "f_less _ NegInf = False"
| "f_less NegInf _ = True"
| "f_less PosInf _ = False"
| "f_less _ PosInf = True"

definition f_ge :: "f64 \<Rightarrow> f64 \<Rightarrow> bool" where
  "f_ge a b \<longleftrightarrow> a \<noteq> NaN \<and> b \<noteq> NaN \<and> \<not> f_less a b"

definition f_max_zero :: "f64 \<Rightarrow> f64" where
  "f_max_zero a = (if a = NaN \<or> f_less a (Fin 0) then Fin 0 else a)"

definition f64_of_nat :: "nat \<Rightarrow> f64" where
  "f64_of_nat n = rne (of_nat n)"

section \<open>Durations\<close>

definition as_secs_f64 :: "duration \<Rightarrow> f64" where
  "as_secs_f64 d =
     f_add (f64_of_nat (as_secs d)) (f_div_const (f64_of_nat (subsec_nanos d)) 1000000000)"

text \<open>\<open>Duration::from_secs_f64\<close>: nearest nanosecond, ties to even; \<open>None\<close> is its panic.\<close>

fun from_secs_f64 :: "f64 \<Rightarrow> duration option" where
  "from_secs_f64 (Fin x) =
     (if x < 0 then None
      else let n = nat (round_half_even (x * 1000000000)) in if n \<le> dur_max then Some n else None)"
| "from_secs_f64 _ = None"

definition mul_f64 :: "duration \<Rightarrow> f64 \<Rightarrow> duration option" where
  "mul_f64 d f = from_secs_f64 (f_mul f (as_secs_f64 d))"

section \<open>Facts on rounding\<close>

lemma pow2_pos [simp]: "0 < pow2 e"
  by (simp add: pow2_def)

lemma pow2_nonneg [simp]: "0 \<le> pow2 e"
  using pow2_pos [of e] by linarith

lemma pow2_nz [simp]: "pow2 e \<noteq> 0"
  using pow2_pos [of e] by linarith

lemma pow2_powi: "pow2 e = 2 powi e"
  by (simp add: pow2_def power_int_def field_simps)

lemma pow2_add: "pow2 (a + b) = pow2 a * pow2 b"
  by (simp add: pow2_powi power_int_add)

lemma pow2_nat: "pow2 (int n) = 2 ^ n"
  by (simp add: pow2_def)

lemma pow2_mono: "a \<le> b \<Longrightarrow> pow2 a \<le> pow2 b"
  by (simp add: pow2_powi power_int_increasing)

lemma pow2_less_iff: "pow2 a < pow2 b \<longleftrightarrow> a < b"
  by (metis linorder_not_less order_less_le pow2_mono pow2_powi power_int_strict_increasing
      rel_simps(49) one_less_numeral_iff semiring_norm(76))

lemma ilog2_bounds:
  assumes "0 < x"
  shows "pow2 (ilog2 x) \<le> x" and "x < pow2 (ilog2 x + 1)"
proof -
  obtain p q where pq: "quotient_of x = (p, q)" by force
  then have q: "0 < q" by (rule quotient_of_denom_pos)
  have x: "x = of_int p / of_int q" by (rule quotient_of_div [OF pq])
  with assms q have p: "0 < p" by (simp add: zero_less_divide_iff)
  define k where "k = bitlen p - bitlen q"
  have bl: "of_int z < pow2 (bitlen z)" "pow2 (bitlen z - 1) \<le> of_int z" if "0 < z" for z :: int
  proof -
    have b: "2 ^ nat (bitlen z - 1) \<le> z \<and> z < 2 ^ nat (bitlen z)" by (rule bitlen_bounds [OF that])
    have pos: "0 < bitlen z"
    proof (rule ccontr)
      assume "\<not> 0 < bitlen z"
      with b that show False by simp
    qed
    from b have "of_int z < (of_int (2 ^ nat (bitlen z)) :: rat)" by (simp only: of_int_less_iff)
    then show "of_int z < pow2 (bitlen z)" using pos by (simp add: pow2_def)
    from b have "(of_int (2 ^ nat (bitlen z - 1)) :: rat) \<le> of_int z" by (simp only: of_int_le_iff)
    then show "pow2 (bitlen z - 1) \<le> of_int z" using pos by (simp add: pow2_def)
  qed
  have up: "x < pow2 (k + 1)"
  proof -
    have "of_int p < pow2 (k + 1) * pow2 (bitlen q - 1)"
      using bl(1) [OF p] by (simp add: k_def flip: pow2_add)
    also have "\<dots> \<le> pow2 (k + 1) * of_int q"
      using bl(2) [OF q] by simp
    finally show ?thesis using q by (simp add: x divide_less_eq)
  qed
  have low: "pow2 (k - 1) \<le> x"
  proof -
    have "pow2 (k - 1) * of_int q \<le> pow2 (k - 1) * pow2 (bitlen q)"
      using bl(1) [OF q] by simp
    also have "\<dots> = pow2 (bitlen p - 1)" by (simp add: k_def flip: pow2_add)
    also have "\<dots> \<le> of_int p" by (rule bl(2) [OF p])
    finally show ?thesis using q by (simp add: x le_divide_eq)
  qed
  have il: "ilog2 x = (if x < pow2 k then k - 1 else k)"
    by (simp add: ilog2_def pq k_def)
  show "pow2 (ilog2 x) \<le> x" using low by (simp add: il)
  show "x < pow2 (ilog2 x + 1)" using up by (simp add: il)
qed

lemma round_half_even_near: "\<bar>of_int (round_half_even y) - y\<bar> \<le> 1 / 2"
proof -
  have *: "of_int \<lfloor>y\<rfloor> \<le> y" "y < of_int \<lfloor>y\<rfloor> + 1" by linarith+
  consider "y - of_int \<lfloor>y\<rfloor> < 1 / 2" | "y - of_int \<lfloor>y\<rfloor> = 1 / 2" | "1 / 2 < y - of_int \<lfloor>y\<rfloor>"
    by linarith
  then show ?thesis
    using * by cases (simp_all add: round_half_even_def Let_def abs_le_iff)
qed

lemma round_half_even_int [simp]: "round_half_even (of_int i) = i"
  by (simp add: round_half_even_def)

lemma round_half_even_unique:
  assumes "\<bar>of_int i - y\<bar> < 1 / 2" shows "round_half_even y = i"
proof -
  have "\<bar>of_int (round_half_even y) - (of_int i :: rat)\<bar> < 1"
    using assms round_half_even_near [of y] by linarith
  then have "\<bar>round_half_even y - i\<bar> < 1" by linarith
  then show ?thesis by linarith
qed


lemma round_half_even_mono: "x \<le> y \<Longrightarrow> round_half_even x \<le> round_half_even y"
proof (rule ccontr)
  assume xy: "x \<le> y" and "\<not> round_half_even x \<le> round_half_even y"
  then have r: "round_half_even y + 1 \<le> round_half_even x" by simp
  have bx: "\<bar>of_int (round_half_even x) - x\<bar> \<le> 1 / 2" and by': "\<bar>of_int (round_half_even y) - y\<bar> \<le> 1 / 2"
    by (rule round_half_even_near)+
  from r have "of_int (round_half_even y) + 1 \<le> (of_int (round_half_even x) :: rat)"
    by (metis of_int_1 of_int_add of_int_le_iff)
  with xy bx by' have "x = y" by linarith
  with r show False by simp
qed

text \<open>The rounded value: half a unit in the last place away, and in the grid of that unit.\<close>

definition grid :: "rat \<Rightarrow> bool" where
  "grid v \<longleftrightarrow> (\<exists>m e. v = of_int m * pow2 e \<and> -1074 \<le> e \<and> 0 \<le> m \<and> m < 2 ^ 53)"

lemma grid_nonneg: "grid v \<Longrightarrow> 0 \<le> v"
  by (auto simp: grid_def)

lemma rne_pos_bounds:
  assumes "0 < x" and "x < pow2 1000"
  obtains v where "rne_pos x = Fin v" and "\<bar>v - x\<bar> \<le> pow2 (unit_exp x) / 2" and "0 \<le> v"
    and "grid v"
proof -
  let ?e = "unit_exp x"
  define m where "m = round_half_even (x / pow2 ?e)"
  let ?v = "of_int m * pow2 ?e"
  have near: "\<bar>of_int m - x / pow2 ?e\<bar> \<le> 1 / 2" unfolding m_def by (rule round_half_even_near)
  have "\<bar>?v - x\<bar> = \<bar>of_int m - x / pow2 ?e\<bar> * pow2 ?e"
  proof -
    have "?v - x = (of_int m - x / pow2 ?e) * pow2 ?e" by (simp add: left_diff_distrib)
    then show ?thesis by (simp only: abs_mult abs_of_pos [OF pow2_pos])
  qed
  also have "\<dots> \<le> 1 / 2 * pow2 ?e"
    by (rule mult_right_mono [OF near]) (simp add: less_imp_le)
  finally have err: "\<bar>?v - x\<bar> \<le> pow2 ?e / 2" by simp
  have "x < pow2 (?e + 53)"
  proof -
    have "ilog2 x + 1 \<le> ?e + 53" by (simp add: unit_exp_def max_def)
    then have "pow2 (ilog2 x + 1) \<le> pow2 (?e + 53)" by (rule pow2_mono)
    then show ?thesis using ilog2_bounds(2) [OF assms(1)] by linarith
  qed
  then have m53: "x / pow2 ?e < 2 ^ 53"
    using pow2_nat [of 53] by (simp add: pow2_add divide_less_eq mult.commute)
  have "round_half_even (x / pow2 ?e) \<le> round_half_even (of_int (2 ^ 53))"
    by (rule round_half_even_mono) (use m53 in simp)
  then have m_le: "m \<le> 2 ^ 53" by (simp only: m_def round_half_even_int)
  have "round_half_even (of_int 0) \<le> round_half_even (x / pow2 ?e)"
    by (rule round_half_even_mono) (use assms(1) in simp)
  then have m_ge: "0 \<le> m" by (simp only: m_def round_half_even_int)
  have il: "ilog2 x < 1000"
    using ilog2_bounds(1) [OF assms(1)] assms(2) pow2_less_iff [of "ilog2 x" 1000] by linarith
  have "pow2 ?e \<le> pow2 948" by (rule pow2_mono) (use il in \<open>simp add: unit_exp_def\<close>)
  then have "?v \<le> 2 ^ 53 * pow2 948"
    using m_le m_ge by (intro mult_mono) (simp_all add: less_imp_le)
  also have "2 ^ 53 * pow2 948 = pow2 1001"
    using pow2_nat [of 53] pow2_add [of 53 948] by simp
  also have "pow2 1001 < pow2 1024" by (simp only: pow2_less_iff)
  finally have "?v < pow2 1024" .
  then have "rne_pos x = Fin ?v" by (simp add: rne_pos_def m_def Let_def)
  moreover have "grid ?v"
  proof (cases "m = 2 ^ 53")
    case True
    then have "?v = of_int (2 ^ 52) * pow2 (?e + 1)"
      using pow2_nat [of 1] by (simp add: pow2_add)
    then show ?thesis unfolding grid_def
      by (intro exI [of _ "2 ^ 52"] exI [of _ "?e + 1"]) (simp add: unit_exp_def)
  next
    case False
    then show ?thesis unfolding grid_def using m_le m_ge
      by (intro exI [of _ m] exI [of _ ?e]) (simp add: unit_exp_def)
  qed
  ultimately show thesis using that err m_ge by (simp add: less_imp_le)
qed

definition ordinary :: "rat \<Rightarrow> bool" where
  "ordinary x \<longleftrightarrow> x = 0 \<or> (pow2 (-1000) \<le> x \<and> x < pow2 1000)"

lemma ordinary_nonneg: "ordinary x \<Longrightarrow> 0 \<le> x"
  unfolding ordinary_def using pow2_pos [of "-1000"] by linarith

lemma ordinary_between:
  assumes "pow2 (-1000) \<le> x" and "x < pow2 1000" shows "ordinary x"
  using assms by (simp add: ordinary_def)

lemma rne_ordinary:
  assumes "ordinary x"
  obtains v where "rne x = Fin v" and "\<bar>v - x\<bar> \<le> x / 2 ^ 53" and "0 \<le> v" and "grid v"
proof (cases "x = 0")
  case True
  have "grid 0" unfolding grid_def by (intro exI [of _ 0] exI [of _ 0]) simp
  then show ?thesis using True that by (simp add: rne_def)
next
  case False
  with assms have x: "pow2 (-1000) \<le> x" "x < pow2 1000" by (auto simp: ordinary_def)
  then have pos: "0 < x" using pow2_pos [of "-1000"] by linarith
  have "pow2 (-1000) < pow2 (ilog2 x + 1)" using x ilog2_bounds(2) [OF pos] by linarith
  then have ue: "unit_exp x = ilog2 x - 52" by (simp add: pow2_less_iff unit_exp_def)
  have "pow2 (ilog2 x) = pow2 (unit_exp x) * 2 ^ 52"
    using pow2_add [of "ilog2 x - 52" 52] pow2_nat [of 52] by (simp add: ue)
  then have "pow2 (unit_exp x) / 2 \<le> x / 2 ^ 53"
    using ilog2_bounds(1) [OF pos] by (simp add: field_simps)
  moreover obtain v where "rne_pos x = Fin v" "\<bar>v - x\<bar> \<le> pow2 (unit_exp x) / 2" "0 \<le> v" "grid v"
    by (rule rne_pos_bounds [OF pos x(2)])
  ultimately show ?thesis using that pos by (simp add: rne_def)
qed

text \<open>A value of the grid is representable: rounding leaves it alone.\<close>

lemma rne_grid:
  assumes "grid v" and "v < pow2 1000"
  shows "rne v = Fin v"
proof (cases "v = 0")
  case True
  then show ?thesis by (simp add: rne_def)
next
  case False
  from assms(1) obtain m e where v: "v = of_int m * pow2 e" and e: "-1074 \<le> e" and m: "0 \<le> m" "m < 2 ^ 53"
    by (auto simp: grid_def)
  with False have pos: "0 < v" by (simp add: order_less_le)
  have "of_int m < (of_int (2 ^ 53) :: rat)" using m(2) by (simp only: of_int_less_iff)
  then have "v < of_int (2 ^ 53) * pow2 e" by (simp only: v mult_strict_right_mono pow2_pos)
  also have "\<dots> = pow2 (53 + e)" using pow2_nat [of 53] by (simp add: pow2_add)
  finally have "v < pow2 (53 + e)" .
  then have "pow2 (ilog2 v) < pow2 (53 + e)" using ilog2_bounds(1) [OF pos] by linarith
  then have le: "unit_exp v \<le> e" using e by (simp add: pow2_less_iff unit_exp_def)
  have vv: "v = of_int m * pow2 (e - unit_exp v) * pow2 (unit_exp v)"
    using pow2_add [of "e - unit_exp v" "unit_exp v"] v by simp
  have mm: "of_int m * pow2 (e - unit_exp v) = of_int (m * 2 ^ nat (e - unit_exp v))"
    using le by (simp add: pow2_def [of "e - unit_exp v"])
  have "v / pow2 (unit_exp v) = of_int (m * 2 ^ nat (e - unit_exp v))"
    by (metis mm vv nonzero_mult_div_cancel_right pow2_nz)
  then have "round_half_even (v / pow2 (unit_exp v)) = m * 2 ^ nat (e - unit_exp v)"
    by (simp only: round_half_even_int)
  then have same: "of_int (round_half_even (v / pow2 (unit_exp v))) * pow2 (unit_exp v) = v"
    by (metis mm vv)
  have "pow2 1000 < pow2 1024" by (simp only: pow2_less_iff)
  with assms(2) same pos show ?thesis by (simp only: rne_def rne_pos_def Let_def) simp
qed

section \<open>Durations as seconds\<close>

lemma pow2_neg40: "pow2 (-1000) \<le> 1 / 2 ^ 40"
proof -
  have "pow2 (-1000) \<le> pow2 (-40)" by (rule pow2_mono) simp
  then show ?thesis by (simp add: pow2_def [of "-40"])
qed

lemma small_less_pow2: "x < 2 ^ 100 \<Longrightarrow> x < pow2 1000"
proof -
  assume "x < 2 ^ 100"
  moreover have "pow2 100 \<le> pow2 1000" by (rule pow2_mono) simp
  ultimately show ?thesis by (simp add: pow2_def [of 100])
qed

lemma rne_near:
  assumes "x = 0 \<or> 1 / 2 ^ 40 \<le> x" and "x < 2 ^ 100"
  obtains v where "rne x = Fin v" and "v \<le> x + x / 2 ^ 53" and "x - x / 2 ^ 53 \<le> v" and "grid v"
proof -
  have "ordinary x" using assms pow2_neg40 small_less_pow2 [of x] by (auto simp: ordinary_def)
  then obtain v where "rne x = Fin v" "\<bar>v - x\<bar> \<le> x / 2 ^ 53" "0 \<le> v" "grid v"
    by (rule rne_ordinary)
  then show thesis using that [of v] by linarith
qed

text \<open>\<open>as_secs_f64\<close> is off by less than a part in two to the 51.\<close>

definition secs_near :: "duration \<Rightarrow> rat \<Rightarrow> bool" where
  "secs_near d v \<longleftrightarrow> grid v \<and> 0 \<le> v \<and> v < 2 ^ 99 \<and>
     v * 1000000000 \<le> of_nat d + of_nat d / 2 ^ 51 \<and> of_nat d - of_nat d / 2 ^ 51 \<le> v * 1000000000"

lemma as_secs_f64_near:
  assumes "d < 2 ^ 95"
  obtains v where "as_secs_f64 d = Fin v" and "secs_near d v"
proof -
  define s n where "s = (of_nat (as_secs d) :: rat)" and "n = (of_nat (subsec_nanos d) :: rat)"
  have d: "of_nat d = s * 1000000000 + n"
    unfolding s_def n_def using secs_nanos [of d] by (metis of_nat_add of_nat_mult of_nat_numeral)
  have bound: "(of_nat d :: rat) < 2 ^ 95" using assms by (metis of_nat_less_iff of_nat_numeral of_nat_power)
  have n: "n < 1000000000" by (simp add: n_def subsec_nanos_def)
  have pos: "0 \<le> s" "0 \<le> n" by (simp_all add: s_def n_def)
  have s: "s < 2 ^ 95" using d bound pos by linarith
  have "as_secs d = 0 \<or> 1 \<le> as_secs d" "subsec_nanos d = 0 \<or> 1 \<le> subsec_nanos d" by linarith+
  then have one: "s = 0 \<or> 1 \<le> s" "n = 0 \<or> 1 \<le> n" by (auto simp: s_def n_def)
  have "s = 0 \<or> 1 / 2 ^ 40 \<le> s" "s < 2 ^ 100" using one s by auto
  then obtain a where a: "rne s = Fin a" "a \<le> s + s / 2 ^ 53" "s - s / 2 ^ 53 \<le> a"
    by (rule rne_near)
  have "n = 0 \<or> 1 / 2 ^ 40 \<le> n" "n < 2 ^ 100" using one n by auto
  then obtain b where b: "rne n = Fin b" "b \<le> n + n / 2 ^ 53" "n - n / 2 ^ 53 \<le> b"
    by (rule rne_near)
  have b_low: "b = 0 \<or> 1 / 2 \<le> b" using one b by auto
  have "b / 1000000000 = 0 \<or> 1 / 2 ^ 40 \<le> b / 1000000000" "b / 1000000000 < 2 ^ 100"
    using b_low b n by auto
  then obtain q where q: "rne (b / 1000000000) = Fin q"
      "q \<le> b / 1000000000 + b / 1000000000 / 2 ^ 53" "b / 1000000000 - b / 1000000000 / 2 ^ 53 \<le> q"
    by (rule rne_near)
  have a_up: "a < 2 ^ 96" and q_up: "q < 2" and aq: "0 \<le> a" "0 \<le> q"
    using a b q s n pos by simp_all
  have "a + q = 0 \<or> 1 / 2 ^ 40 \<le> a + q" using one a b_low q b pos by auto
  moreover have "a + q < 2 ^ 100" using a_up q_up by simp
  ultimately obtain v where v: "rne (a + q) = Fin v" "v \<le> a + q + (a + q) / 2 ^ 53"
      "a + q - (a + q) / 2 ^ 53 \<le> v" "grid v"
    by (rule rne_near)
  have "as_secs_f64 d = Fin v"
    using a b q v by (simp add: as_secs_f64_def f64_of_nat_def flip: s_def n_def)
  moreover have "v < 2 ^ 99"
  proof -
    have "(a + q) / 2 ^ 53 \<le> a + q" using aq by (simp add: divide_le_eq)
    then have "v \<le> a + q + (a + q)" using order_trans [OF v(2) add_left_mono] by blast
    also have "\<dots> < 2 ^ 96 + 2 + (2 ^ 96 + 2)" using a_up q_up by (intro add_strict_mono)
    finally show ?thesis by simp
  qed
  moreover have "0 \<le> v" by (rule grid_nonneg [OF v(4)])
  moreover have "v * 1000000000 \<le> of_nat d + of_nat d / 2 ^ 51"
    unfolding d using v(2,3) a(2,3) q(2,3) b(2,3) pos
    by (simp add: add_divide_distrib)
  moreover have "of_nat d - of_nat d / 2 ^ 51 \<le> v * 1000000000"
    unfolding d using v(2,3) a(2,3) q(2,3) b(2,3) pos
    by (simp add: add_divide_distrib)
  ultimately show thesis using that v(4) by (simp add: secs_near_def)
qed

lemma from_secs_f64_near:
  assumes "\<bar>x * 1000000000 - of_nat n\<bar> < 1 / 2" and "n < 2 ^ 80" and "0 \<le> x"
  shows "from_secs_f64 (Fin x) = Some n"
proof -
  have "round_half_even (x * 1000000000) = int n"
    by (rule round_half_even_unique) (use assms(1) in \<open>simp add: abs_minus_commute\<close>)
  then show ?thesis using assms(2,3) by (simp add: Let_def)
qed

lemma round_half_even_le: "x < of_int n + 1 / 2 \<Longrightarrow> round_half_even x \<le> n"
proof -
  assume "x < of_int n + 1 / 2"
  then have "of_int (round_half_even x) < (of_int (n + 1) :: rat)"
    using round_half_even_near [of x] by (simp add: abs_if split: if_splits)
  then show ?thesis by (simp only: of_int_less_iff)
qed

lemma round_half_even_ge: "of_int n - 1 / 2 < x \<Longrightarrow> n \<le> round_half_even x"
proof -
  assume "of_int n - 1 / 2 < x"
  then have "of_int (n - 1) < (of_int (round_half_even x) :: rat)"
    using round_half_even_near [of x] by (simp add: abs_if split: if_splits)
  then show ?thesis by (simp only: of_int_less_iff)
qed

lemma grid_double: "grid v \<Longrightarrow> grid (v * 2)"
proof -
  assume "grid v"
  then obtain m e where v: "v = of_int m * pow2 e" "-1074 \<le> e" "0 \<le> m" "m < 2 ^ 53"
    by (auto simp: grid_def)
  then have "v * 2 = of_int m * pow2 (e + 1)" by (simp add: pow2_add pow2_nat [of 1, simplified])
  with v show ?thesis unfolding grid_def by (intro exI [of _ m] exI [of _ "e + 1"]) simp
qed

lemma f_mul_grid_one: "grid v \<Longrightarrow> v < 2 ^ 99 \<Longrightarrow> f_mul (Fin v) (Fin 1) = Fin v"
  using rne_grid [of v] small_less_pow2 [of v] by simp

lemma f_mul_grid_two: "grid v \<Longrightarrow> v < 2 ^ 99 \<Longrightarrow> f_mul (Fin v) (Fin 2) = Fin (v * 2)"
  using rne_grid [OF grid_double, of v] small_less_pow2 [of "v * 2"] by simp

lemma from_secs_f64_total:
  assumes "x < w" and "secs_near m w" and "m < 2 ^ 80"
  shows "from_secs_f64 (f_max_zero (Fin x)) \<noteq> None"
proof -
  let ?x = "if x < 0 then 0 else x"
  have "(of_nat m :: rat) < 2 ^ 80" using assms(3) by (metis of_nat_less_iff of_nat_numeral of_nat_power)
  then have "of_nat m + of_nat m / 2 ^ 51 < (2 ^ 81 :: rat)" by simp
  then have "w * 1000000000 < 2 ^ 81" using assms(2) by (simp add: secs_near_def)
  moreover have "0 \<le> w" using assms(2) by (simp add: secs_near_def)
  ultimately have "?x * 1000000000 < of_int (2 ^ 81) + 1 / 2" using assms(1) by auto
  then have "round_half_even (?x * 1000000000) \<le> 2 ^ 81" by (rule round_half_even_le)
  then have "nat (round_half_even (?x * 1000000000)) \<le> dur_max" by simp
  moreover have "round_half_even 0 = 0" using round_half_even_int [of 0] by simp
  ultimately show ?thesis by (auto simp: f_max_zero_def Let_def split: if_splits)
qed

text \<open>Scaling a short duration by a factor between a half and one stays between the two.\<close>

lemma mul_f64_half_one:
  assumes d: "d \<le> 2 ^ 48" and h: "1 / 2 - 1 / 2 ^ 50 \<le> h" "h \<le> 1 + 1 / 2 ^ 50"
  obtains n where "mul_f64 d (Fin h) = Some n" and "d div 2 \<le> n" and "n \<le> d"
proof -
  obtain v where v: "as_secs_f64 d = Fin v" "secs_near d v"
    by (rule as_secs_f64_near [of d]) (use d in simp)
  define D where "D = (of_nat d :: rat)"
  have "D \<le> of_nat (2 ^ 48)" unfolding D_def using d by (simp only: of_nat_le_iff)
  then have D: "D \<le> 2 ^ 48" "0 \<le> D" by (simp_all add: D_def)
  define V where "V = v * 1000000000"
  have V: "V \<le> D + D / 2 ^ 51" "D - D / 2 ^ 51 \<le> V" "0 \<le> V"
    using v(2) by (simp_all add: secs_near_def V_def D_def)
  have hV: "h * V \<le> (1 + 1 / 2 ^ 50) * V" "(1 / 2 - 1 / 2 ^ 50) * V \<le> h * V"
    using h V(3) by (simp_all only: mult_right_mono)
  have hv: "h * v * 1000000000 = h * V" by (simp add: V_def)
  have "d = 0 \<or> 1 \<le> d" by linarith
  then have "D = 0 \<or> 1 \<le> D" by (auto simp: D_def)
  then have "V = 0 \<or> 1 / 2 \<le> V" using V D by auto
  then have "h * v = 0 \<or> 1 / 2 ^ 40 \<le> h * v"
  proof
    assume "V = 0" then show ?thesis by (simp add: V_def)
  next
    assume "1 / 2 \<le> V"
    then have "1 / 8 \<le> (1 / 2 - 1 / 2 ^ 50) * V" by simp
    then have "1 / 8 \<le> h * V" using hV(2) by (rule order_trans)
    then have "1 / 8 \<le> h * v * 1000000000" by (simp add: V_def)
    then show ?thesis by simp
  qed
  moreover have "h * v < 2 ^ 100"
  proof -
    have "h * V \<le> 2 * V" using hV(1) V(3) by simp
    also have "\<dots> < 2 ^ 60" using V(1) D by simp
    finally have "h * v * 1000000000 < 2 ^ 60" by (simp only: hv)
    then show ?thesis by simp
  qed
  ultimately obtain y where y: "rne (h * v) = Fin y" "y \<le> h * v + h * v / 2 ^ 53"
      "h * v - h * v / 2 ^ 53 \<le> y" "grid y"
    by (rule rne_near)
  define Y where "Y = y * 1000000000"
  define X where "X = h * V"
  have hV: "X \<le> (1 + 1 / 2 ^ 50) * V" "(1 / 2 - 1 / 2 ^ 50) * V \<le> X"
    using hV by (simp_all only: X_def)
  have Y: "Y \<le> X + X / 2 ^ 53" "X - X / 2 ^ 53 \<le> Y"
    using y(2,3) by (simp_all add: V_def X_def Y_def)
  have up: "Y < of_int (int d) + 1 / 2"
  proof -
    have near: "V \<le> D + 1 / 8" using V D by simp
    have "(1 + 1 / 2 ^ 50) * V \<le> V + 17 / 64" using near D by simp
    with hV(1) have hV': "X \<le> V + 17 / 64" by (rule order_trans)
    have "X \<le> 2 ^ 49" using hV' near D by simp
    then have "X + X / 2 ^ 53 \<le> X + 1 / 16" by simp
    with Y(1) have "Y \<le> X + 1 / 16" by (rule order_trans)
    with hV' near show ?thesis by (simp flip: D_def)
  qed
  have down: "of_int (int (d div 2)) - 1 / 2 < Y"
  proof -
    have "2 * (d div 2) \<le> d" by simp
    then have "of_nat (2 * (d div 2)) \<le> D" unfolding D_def by (simp only: of_nat_le_iff)
    then have "2 * of_nat (d div 2) \<le> D" by simp
    moreover have "D - 1 / 8 \<le> V" "V \<le> D + 1 / 8" using V D by simp_all
    moreover have "V / 2 - 9 / 32 \<le> X"
    proof -
      have "V / 2 - 9 / 32 \<le> (1 / 2 - 1 / 2 ^ 50) * V" using V D by simp
      then show ?thesis using hV(2) by (rule order_trans)
    qed
    moreover have "X - 1 / 16 \<le> Y"
    proof -
      have "X \<le> 2 ^ 49" using hV(1) V D by simp
      then have "X - 1 / 16 \<le> X - X / 2 ^ 53" by simp
      then show ?thesis using Y(2) by (rule order_trans)
    qed
    ultimately show ?thesis by simp
  qed
  let ?n = "nat (round_half_even Y)"
  have n: "?n \<le> d" "d div 2 \<le> ?n"
    using round_half_even_le [OF up] round_half_even_ge [OF down] by simp_all
  then have "mul_f64 d (Fin h) = Some ?n"
    using v y grid_nonneg [OF y(4)] d by (simp add: mul_f64_def Y_def Let_def)
  with n that show thesis by blast
qed

end
