(* ===== verification/Retry.thy ===== *)
theory Retry
  imports Errors F64
begin

text \<open>
  \<open>src/resilience.rs\<close>: which commands may be retried, the retry policy with its backoff and jitter,
  and the retry loop. The loop is written over any state with a clock (\<open>now\<close>, \<open>sleep\<close>) and any
  operation \<open>f\<close> on it, as the source is generic in its closure. \<open>None\<close> as a result is a panic.
\<close>

section \<open>Command classes\<close>

datatype retry_safety = ReadOnly | Idempotent | AmbiguousWrite | NeverAutomatic

datatype atomicity = SingleCommand | MultiKeySingleSlot | NoAtomicity

datatype operation =
  OpGet | OpSet | OpDelete | OpExists | OpExpire | OpTtl | OpMget | OpMset | OpIncr | OpPublish

fun op_retry_safety :: "operation \<Rightarrow> retry_safety" where
  "op_retry_safety OpGet = ReadOnly"
| "op_retry_safety OpExists = ReadOnly"
| "op_retry_safety OpTtl = ReadOnly"
| "op_retry_safety OpMget = ReadOnly"
| "op_retry_safety OpSet = AmbiguousWrite"
| "op_retry_safety OpDelete = AmbiguousWrite"
| "op_retry_safety OpExpire = AmbiguousWrite"
| "op_retry_safety OpMset = AmbiguousWrite"
| "op_retry_safety OpIncr = NeverAutomatic"
| "op_retry_safety OpPublish = NeverAutomatic"

fun op_atomicity :: "operation \<Rightarrow> atomicity" where
  "op_atomicity OpMget = MultiKeySingleSlot"
| "op_atomicity OpMset = MultiKeySingleSlot"
| "op_atomicity OpPublish = NoAtomicity"
| "op_atomicity _ = SingleCommand"

definition safe_to_repeat :: "retry_safety \<Rightarrow> bool" where
  "safe_to_repeat s \<longleftrightarrow> s = ReadOnly \<or> s = Idempotent"

definition allows_automatic_retry :: "operation \<Rightarrow> bool" where
  "allows_automatic_retry op = safe_to_repeat (op_retry_safety op)"

text \<open>The commands are finitely many, so that a statement on all of them evaluates.\<close>

instantiation operation :: enum
begin

definition enum_operation :: "operation list" where
  "enum_operation = [OpGet, OpSet, OpDelete, OpExists, OpExpire, OpTtl, OpMget, OpMset, OpIncr, OpPublish]"

definition enum_all_operation :: "(operation \<Rightarrow> bool) \<Rightarrow> bool" where
  "enum_all_operation P = list_all P enum_class.enum"

definition enum_ex_operation :: "(operation \<Rightarrow> bool) \<Rightarrow> bool" where
  "enum_ex_operation P = list_ex P enum_class.enum"

instance
proof
  have all: "x \<in> set enum_class.enum" for x :: operation
    by (cases x) (simp_all add: enum_operation_def)
  then show "(UNIV :: operation set) = set enum_class.enum" by auto
  show "distinct (enum_class.enum :: operation list)" by (simp add: enum_operation_def)
  fix P :: "operation \<Rightarrow> bool"
  show "enum_class.enum_all P \<longleftrightarrow> Ball UNIV P" "enum_class.enum_ex P \<longleftrightarrow> Bex UNIV P"
    using all by (auto simp: enum_all_operation_def enum_ex_operation_def list_all_iff list_ex_iff)
qed

end

text \<open>
  The table of the source: what may be repeated keeps the server's data, and nothing but \<open>MGET\<close> and
  \<open>MSET\<close> spans several keys.
\<close>

lemma repeated_operations: "filter allows_automatic_retry enum_class.enum = [OpGet, OpExists, OpTtl, OpMget]"
  by (simp add: enum_operation_def allows_automatic_retry_def safe_to_repeat_def)

lemma multi_key_operations: "filter (\<lambda>op. op_atomicity op = MultiKeySingleSlot) enum_class.enum = [OpMget, OpMset]"
  by (simp add: enum_operation_def)

section \<open>Policy\<close>

record retry_config =
  rc_max_attempts :: "32 word"
  rc_initial_backoff :: duration
  rc_max_backoff :: duration
  rc_multiplier :: f64
  rc_jitter :: bool
  rc_deadline :: "duration option"

definition fixed :: "32 word \<Rightarrow> duration \<Rightarrow> retry_config" where
  "fixed attempts delay =
     \<lparr>rc_max_attempts = max attempts 1, rc_initial_backoff = delay, rc_max_backoff = delay,
      rc_multiplier = Fin 1, rc_jitter = True, rc_deadline = None\<rparr>"

definition exponential :: "32 word \<Rightarrow> duration \<Rightarrow> duration \<Rightarrow> retry_config" where
  "exponential attempts initial most =
     \<lparr>rc_max_attempts = max attempts 1, rc_initial_backoff = min initial most,
      rc_max_backoff = most, rc_multiplier = Fin 2, rc_jitter = True, rc_deadline = None\<rparr>"

definition default_retry :: retry_config where
  "default_retry = exponential 3 (from_millis 50) (from_secs 2)"

definition with_multiplier :: "f64 \<Rightarrow> retry_config \<Rightarrow> retry_config" where
  "with_multiplier m c =
     c\<lparr>rc_multiplier := (if is_finite m \<and> f_less (Fin 1) m then m else Fin 1)\<rparr>"

definition with_deadline :: "duration \<Rightarrow> retry_config \<Rightarrow> retry_config" where
  "with_deadline d c = c\<lparr>rc_deadline := Some d\<rparr>"

definition without_jitter :: "retry_config \<Rightarrow> retry_config" where
  "without_jitter c = c\<lparr>rc_jitter := False\<rparr>"

definition get_max_attempts :: "retry_config \<Rightarrow> 32 word" where "get_max_attempts c = rc_max_attempts c"
definition get_initial_backoff :: "retry_config \<Rightarrow> duration" where "get_initial_backoff c = rc_initial_backoff c"
definition get_max_backoff :: "retry_config \<Rightarrow> duration" where "get_max_backoff c = rc_max_backoff c"
definition get_multiplier :: "retry_config \<Rightarrow> f64" where "get_multiplier c = rc_multiplier c"
definition get_jitter :: "retry_config \<Rightarrow> bool" where "get_jitter c = rc_jitter c"
definition get_deadline :: "retry_config \<Rightarrow> duration option" where "get_deadline c = rc_deadline c"

text \<open>
  \<open>backoff_for\<close>: the loop runs while \<open>index < attempt\<close>; \<open>n\<close> counts the rounds that are left.
\<close>

fun backoff_rounds :: "retry_config \<Rightarrow> nat \<Rightarrow> duration \<Rightarrow> duration option" where
  "backoff_rounds c 0 delay = Some (min delay (rc_max_backoff c))"
| "backoff_rounds c (Suc n) delay =
     (let scaled = f_mul (as_secs_f64 delay) (rc_multiplier c) in
      if \<not> is_finite scaled \<or> f_ge scaled (as_secs_f64 (rc_max_backoff c))
      then Some (rc_max_backoff c)
      else case from_secs_f64 (f_max_zero scaled) of
             None \<Rightarrow> None
           | Some d \<Rightarrow> backoff_rounds c n d)"

definition backoff_for :: "retry_config \<Rightarrow> 32 word \<Rightarrow> duration option" where
  "backoff_for c attempt =
     (if attempt = 0 then Some 0
      else backoff_rounds c (unat attempt - 1) (rc_initial_backoff c))"

text \<open>The splitmix64 mixing of \<open>jittered\<close>, its factor and the product.\<close>

definition splitmix :: "64 word \<Rightarrow> 64 word" where
  "splitmix seed =
     (let x = seed + 0x9E3779B97F4A7C15;
          x = (xor x (drop_bit 30 x)) * 0xBF58476D1CE4E5B9;
          x = (xor x (drop_bit 27 x)) * 0x94D049BB133111EB
      in xor x (drop_bit 31 x))"

definition permille :: "64 word \<Rightarrow> nat" where
  "permille seed = unat (splitmix seed mod 1001)"

definition jitter_factor :: "64 word \<Rightarrow> f64" where
  "jitter_factor seed = f_add (Fin (1 / 2)) (f_div_const (f64_of_nat (permille seed)) 2000)"

definition jittered :: "duration \<Rightarrow> 64 word \<Rightarrow> duration option" where
  "jittered backoff seed = mul_f64 backoff (jitter_factor seed)"

definition should_continue :: "retry_config \<Rightarrow> 32 word \<Rightarrow> duration \<Rightarrow> bool" where
  "should_continue c attempt elapsed =
     (if rc_max_attempts c \<le> attempt then False
      else case rc_deadline c of Some deadline \<Rightarrow> elapsed < deadline | None \<Rightarrow> True)"

definition jitter_seed :: "32 word \<Rightarrow> string \<Rightarrow> 64 word" where
  "jitter_seed attempt op =
     foldl (\<lambda>seed byte. seed * 31 + of_nat (byte_of byte)) (ucast attempt) op"

section \<open>The loop\<close>

definition backoff_delay :: "retry_config \<Rightarrow> string \<Rightarrow> 32 word \<Rightarrow> duration option" where
  "backoff_delay c op attempt =
     (case backoff_for c attempt of
        None \<Rightarrow> None
      | Some backoff \<Rightarrow>
          if rc_jitter c then jittered backoff (jitter_seed attempt op) else Some backoff)"

definition pause :: "(duration \<Rightarrow> 's \<Rightarrow> 's) \<Rightarrow> duration \<Rightarrow> 's \<Rightarrow> 's" where
  "pause sleep d s = (if d = 0 then s else sleep d s)"

lemma unat_Suc_not_max: "attempt \<noteq> - 1 \<Longrightarrow> unat (attempt + 1) = Suc (unat attempt)" for attempt :: "32 word"
  using unatSuc [of attempt] by (simp add: add.commute eq_neg_iff_add_eq_0)

function retry_loop ::
    "('s \<Rightarrow> nat \<times> 's) \<Rightarrow> (duration \<Rightarrow> 's \<Rightarrow> 's) \<Rightarrow> retry_config \<Rightarrow> string \<Rightarrow> ('s \<Rightarrow> 'a res \<times> 's) \<Rightarrow>
     nat \<Rightarrow> 32 word \<Rightarrow> 's \<Rightarrow> ('a res \<times> 's) option" where
  "retry_loop now sleep c op f start attempt s =
     (if attempt = - 1 then None
      else
        let attempt = attempt + 1 in
        case f s of
          (Inr v, s) \<Rightarrow> Some (Inr v, s)
        | (Inl err, s) \<Rightarrow>
            if \<not> is_retryable err then Some (Inl err, s)
            else
              let (t, s) = now s in
              if \<not> should_continue c attempt (t - start) then Some (Inl err, s)
              else
                case backoff_delay c op attempt of
                  None \<Rightarrow> None
                | Some backoff \<Rightarrow>
                    (case rc_deadline c of
                       None \<Rightarrow> retry_loop now sleep c op f start attempt (pause sleep backoff s)
                     | Some deadline \<Rightarrow>
                         let (t, s) = now s; remaining = dur_saturating_sub deadline (t - start) in
                         if remaining = 0
                         then Some (Inl (Timeout (Msg ''retry total deadline exceeded''
                                [op, show_nat (unat attempt)])), s)
                         else retry_loop now sleep c op f start attempt
                                (pause sleep (min backoff remaining) s)))"
  by pat_completeness auto

termination
proof (relation "measure (\<lambda>(now, sleep, c, op, f, start, attempt, s).
    unat (rc_max_attempts c) - unat attempt)", goal_cases)
  case 1
  then show ?case by simp
qed (auto simp: should_continue_def unat_Suc_not_max word_le_nat_alt split: if_splits)

declare retry_loop.simps [simp del]

text \<open>\<open>with_retry\<close>: the clock is read first, then the loop starts at attempt 0.\<close>

definition with_retry where
  "with_retry now sleep c op f s =
     (let (start, s) = now s in retry_loop now sleep c op f start 0 s)"

section \<open>Backoff and jitter\<close>

lemma fixed_round:
  assumes "d \<le> dur_max"
  shows "backoff_rounds (fixed a d) n d = Some d"
proof (cases n)
  case (Suc k)
  obtain v where v: "as_secs_f64 d = Fin v" "secs_near d v"
    by (rule as_secs_f64_near [of d]) (use assms in simp)
  then have "f_mul (Fin v) (Fin 1) = Fin v"
    by (intro f_mul_grid_one) (simp_all add: secs_near_def)
  with v Suc show ?thesis by (simp add: fixed_def f_ge_def)
qed (simp add: fixed_def)

lemma doubling_rounds:
  assumes m: "rc_max_backoff c = m" "m \<le> 2 ^ 48" and two: "rc_multiplier c = Fin 2"
  shows "delay \<le> m \<Longrightarrow> backoff_rounds c n delay = Some (min (delay * 2 ^ n) m)"
proof (induction n arbitrary: delay)
  case (Suc n)
  obtain v where v: "as_secs_f64 delay = Fin v" "secs_near delay v"
    by (rule as_secs_f64_near [of delay]) (use Suc.prems m in simp)
  obtain w where w: "as_secs_f64 m = Fin w" "secs_near m w"
    by (rule as_secs_f64_near [of m]) (use m in simp)
  have scaled: "f_mul (Fin v) (Fin 2) = Fin (v * 2)"
    using v(2) by (intro f_mul_grid_two) (simp_all add: secs_near_def)
  define D M where "D = (of_nat delay :: rat)" and "M = (of_nat m :: rat)"
  have "D \<le> M" "M \<le> of_nat (2 ^ 48)" unfolding D_def M_def
    using Suc.prems m(2) by (simp_all only: of_nat_le_iff)
  then have DM: "0 \<le> D" "D \<le> M" "M \<le> 2 ^ 48" by (simp_all add: D_def)
  have near: "v * 1000000000 \<le> D + D / 2 ^ 51" "D - D / 2 ^ 51 \<le> v * 1000000000"
    "w * 1000000000 \<le> M + M / 2 ^ 51" "M - M / 2 ^ 51 \<le> w * 1000000000"
    using v(2) w(2) by (simp_all add: secs_near_def D_def M_def)
  show ?case
  proof (cases "w \<le> v * 2")
    case True
    then have "M - 1 < 2 * D" using near(1,4) DM by simp
    then have "(of_nat m :: rat) < of_nat (2 * delay + 1)" by (simp add: D_def M_def)
    then have "m \<le> 2 * delay" by (simp only: of_nat_less_iff)
    moreover have "2 * delay \<le> delay * 2 ^ Suc n" by simp
    ultimately have "min (delay * 2 ^ Suc n) m = m" by linarith
    with True v w scaled two m(1) show ?thesis by (simp add: f_ge_def Let_def)
  next
    case False
    then have "2 * D < M + 1" using near(2,3) DM by simp
    then have "(of_nat (2 * delay) :: rat) < of_nat (m + 1)" by (simp add: D_def M_def)
    then have le: "delay * 2 \<le> m" by (simp only: of_nat_less_iff)
    have "\<bar>v * 2 * 1000000000 - of_nat (delay * 2)\<bar> < 1 / 2"
      unfolding abs_less_iff using near(1,2) DM by (simp flip: D_def)
    then have "from_secs_f64 (Fin (v * 2)) = Some (delay * 2)"
      using le m(2) v(2) by (intro from_secs_f64_near) (simp_all add: secs_near_def)
    moreover have "f_max_zero (Fin (v * 2)) = Fin (v * 2)"
      using v(2) by (simp add: f_max_zero_def secs_near_def)
    ultimately show ?thesis
      using False v w scaled two m(1) Suc.IH [OF le] by (simp add: f_ge_def Let_def mult.assoc)
  qed
qed (simp add: m)

lemma backoff_rounds_le: "backoff_rounds c n delay = Some d \<Longrightarrow> d \<le> rc_max_backoff c"
  by (induction n arbitrary: delay) (auto simp: Let_def split: if_splits option.splits)

lemma backoff_le: "backoff_for c attempt = Some d \<Longrightarrow> d \<le> rc_max_backoff c"
  by (auto simp: backoff_for_def backoff_rounds_le split: if_splits)

lemma backoff_rounds_total:
  assumes "rc_max_backoff c < 2 ^ 80"
  shows "backoff_rounds c n delay \<noteq> None"
proof (induction n arbitrary: delay)
  case (Suc n)
  obtain w where w: "as_secs_f64 (rc_max_backoff c) = Fin w" "secs_near (rc_max_backoff c) w"
    by (rule as_secs_f64_near [of "rc_max_backoff c"]) (use assms in simp)
  show ?case
  proof (cases "f_mul (as_secs_f64 delay) (rc_multiplier c)")
    case (Fin x)
    then show ?thesis
      using Suc.IH w from_secs_f64_total [OF _ w(2) assms, of x]
      by (auto simp: f_ge_def Let_def split: option.splits)
  qed (simp_all add: Let_def)
qed simp

lemma backoff_total: "rc_max_backoff c < 2 ^ 80 \<Longrightarrow> \<exists>d. backoff_for c attempt = Some d"
  using backoff_rounds_total [of c "unat attempt - 1" "rc_initial_backoff c"]
  by (auto simp: backoff_for_def)

lemma permille_le: "permille seed \<le> 1000"
proof -
  have "unat (splitmix seed mod 1001) = unat (splitmix seed) mod 1001" by (simp add: unat_mod)
  then show ?thesis by (simp add: permille_def)
qed

lemma jitter_factor_bounds:
  obtains h where "jitter_factor seed = Fin h" and "1 / 2 - 1 / 2 ^ 50 \<le> h" and "h \<le> 1 + 1 / 2 ^ 50"
proof -
  define k where "k = (of_nat (permille seed) :: rat)"
  have "k \<le> of_nat 1000" unfolding k_def using permille_le [of seed] by (simp only: of_nat_le_iff)
  then have k: "0 \<le> k" "k \<le> 1000" by (simp_all add: k_def)
  have "permille seed = 0 \<or> 1 \<le> permille seed" by linarith
  then have k1: "k = 0 \<or> 1 \<le> k" by (auto simp: k_def)
  then have "k = 0 \<or> 1 / 2 ^ 40 \<le> k" "k < 2 ^ 100" using k by auto
  then obtain a where a: "rne k = Fin a" "a \<le> k + k / 2 ^ 53" "k - k / 2 ^ 53 \<le> a" by (rule rne_near)
  have "a / 2000 = 0 \<or> 1 / 2 ^ 40 \<le> a / 2000" "a / 2000 < 2 ^ 100" using k1 k a by auto
  then obtain g where g: "rne (a / 2000) = Fin g" "g \<le> a / 2000 + a / 2000 / 2 ^ 53"
    "a / 2000 - a / 2000 / 2 ^ 53 \<le> g" by (rule rne_near)
  have g01: "0 \<le> g" "g \<le> 1 / 2 + 1 / 2 ^ 52" using g a k by simp_all
  then have "1 / 2 + g = 0 \<or> 1 / 2 ^ 40 \<le> 1 / 2 + g" "1 / 2 + g < 2 ^ 100" by auto
  then obtain h where h: "rne (1 / 2 + g) = Fin h" "h \<le> 1 / 2 + g + (1 / 2 + g) / 2 ^ 53"
    "1 / 2 + g - (1 / 2 + g) / 2 ^ 53 \<le> h" by (rule rne_near)
  have "jitter_factor seed = Fin h"
    using a g h by (simp add: jitter_factor_def f64_of_nat_def flip: k_def)
  moreover have "1 / 2 - 1 / 2 ^ 50 \<le> h" "h \<le> 1 + 1 / 2 ^ 50"
    using h g01 by (simp_all add: add_divide_distrib)
  ultimately show thesis by (rule that)
qed

lemma jittered_bounds:
  assumes "d \<le> 2 ^ 48"
  obtains n where "jittered d seed = Some n" and "d div 2 \<le> n" and "n \<le> d"
proof -
  obtain h where "jitter_factor seed = Fin h" "1 / 2 - 1 / 2 ^ 50 \<le> h" "h \<le> 1 + 1 / 2 ^ 50"
    by (rule jitter_factor_bounds)
  then show thesis using mul_f64_half_one [OF assms, of h] that by (auto simp: jittered_def)
qed

section \<open>One round of the loop\<close>

fun retry_err :: "'a res \<Rightarrow> bool" where
  "retry_err (Inl e) = is_retryable e"
| "retry_err (Inr _) = False"

lemma retry_loop_cases [consumes 1, case_names Done Exhausted Expired Again]:
  assumes run: "retry_loop now sleep c op f start attempt s = Some (r, s')"
  obtains "f s = (r, s')" and "\<not> retry_err r"
  | s1 t where "f s = (r, s1)" and "retry_err r" and "now s1 = (t, s')"
      and "\<not> should_continue c (attempt + 1) (t - start)"
  | r1 s1 t s2 t2 deadline where "f s = (r1, s1)" and "retry_err r1" and "now s1 = (t, s2)"
      and "should_continue c (attempt + 1) (t - start)" and "rc_deadline c = Some deadline"
      and "now s2 = (t2, s')" and "deadline \<le> t2 - start"
      and "r = Inl (Timeout (Msg ''retry total deadline exceeded'' [op, show_nat (unat (attempt + 1))]))"
  | r1 s1 t s2 s3 d where "f s = (r1, s1)" and "retry_err r1" and "now s1 = (t, s2)"
      and "should_continue c (attempt + 1) (t - start)" and "attempt \<noteq> - 1"
      and "(case rc_deadline c of None \<Rightarrow> s3 = s2
            | Some deadline \<Rightarrow> \<exists>t2. now s2 = (t2, s3) \<and> t2 - start < deadline \<and> d \<le> deadline - (t2 - start))"
      and "retry_loop now sleep c op f start (attempt + 1) (pause sleep d s3) = Some (r, s')"
      and "\<exists>b. backoff_delay c op (attempt + 1) = Some b \<and> d \<le> b"
proof -
  obtain r1 s1 where f: "f s = (r1, s1)" by force
  obtain t s2 where n: "now s1 = (t, s2)" by force
  have ne: "attempt \<noteq> - 1" using run by (auto simp: retry_loop.simps)
  note run = run [unfolded retry_loop.simps [of now sleep c op f start attempt s] Let_def f prod.case]
  show thesis
  proof (cases "retry_err r1")
    case False
    with run ne have "r = r1" "s' = s1" by (auto split: sum.splits)
    with f False show thesis using that(1) by simp
  next
    case True
    then obtain e where r1: "r1 = Inl e" "is_retryable e" by (cases r1) auto
    show thesis
    proof (cases "should_continue c (attempt + 1) (t - start)")
      case False
      with run ne n r1 have "r = r1" "s' = s2" by auto
      with f n True False show thesis using that(2) by simp
    next
      case cont: True
      with run ne n r1 obtain b where b: "backoff_delay c op (attempt + 1) = Some b"
        by (auto split: option.splits)
      show thesis
      proof (cases "rc_deadline c")
        case None
        with run ne n r1 cont b show thesis using that(4) [OF f True n cont ne, of s2 b] by simp
      next
        case (Some deadline)
        obtain t2 s3 where n2: "now s2 = (t2, s3)" by force
        show thesis
        proof (cases "deadline - (t2 - start) = 0")
          case True
          with run ne n r1 cont b Some n2 show thesis
            using that(3) [OF f _ n cont Some, of t2] by (auto simp: dur_saturating_sub_def)
        next
          case False
          with run ne n r1 cont b Some n2 True show thesis
            using that(4) [OF f True n cont ne, of s3 "min b (deadline - (t2 - start))"]
            by (auto simp: dur_saturating_sub_def)
        qed
      qed
    qed
  qed
qed

lemma should_continue_less: "should_continue c attempt t \<Longrightarrow> attempt < rc_max_attempts c"
  by (auto simp: should_continue_def not_le split: if_splits)

lemma retry_induct [case_names Round]:
  assumes "\<And>attempt s. (\<And>s. attempt \<noteq> - 1 \<Longrightarrow> attempt + 1 < rc_max_attempts c \<Longrightarrow> P (attempt + 1) s) \<Longrightarrow> P attempt s"
  shows "P attempt s"
proof (induction "unat (rc_max_attempts c) - unat attempt" arbitrary: attempt s rule: less_induct)
  case less
  show ?case
  proof (rule assms)
    fix s assume "attempt \<noteq> - 1" "attempt + 1 < rc_max_attempts c"
    then show "P (attempt + 1) s"
      by (intro less) (simp add: unat_Suc_not_max word_less_nat_alt)
  qed
qed

text \<open>
  An invariant of the loop that counts attempts: what every attempt, clock reading and sleep keeps
  holds at the end, with at most as many attempts as were left.
\<close>

lemma retry_loop_counts:
  assumes step: "\<And>n s. I n s \<Longrightarrow> I (Suc n) (snd (f s))" and read: "\<And>n s. I n s \<Longrightarrow> I n (snd (now s))"
    and wait: "\<And>n d s. I n s \<Longrightarrow> I n (sleep d s)"
  shows "retry_loop now sleep c op f start attempt s = Some (r, s') \<Longrightarrow> attempt < rc_max_attempts c \<Longrightarrow> I k s \<Longrightarrow>
    \<exists>n \<le> unat (rc_max_attempts c) - unat attempt. I (k + n) s'"
proof (induction attempt s arbitrary: k rule: retry_induct [of c])
  case (Round attempt s)
  have one: "1 \<le> unat (rc_max_attempts c) - unat attempt"
    using Round.prems(2) by (simp add: word_less_nat_alt)
  have next_I: "I (k + 1) (snd (f s))" using step [OF Round.prems(3)] by simp
  from Round.prems(1) show ?case
  proof (cases rule: retry_loop_cases)
    case Done
    with next_I one show ?thesis by (intro exI [of _ 1]) simp
  next
    case (Exhausted s1 t)
    with next_I read [of "k + 1" s1] one show ?thesis by (intro exI [of _ 1]) simp
  next
    case (Expired r1 s1 t s2 t2 deadline)
    with next_I read [of "k + 1" s1] read [of "k + 1" s2] one show ?thesis by (intro exI [of _ 1]) simp
  next
    case (Again r1 s1 t s2 s3 d)
    have "I (k + 1) s2" using next_I read [of "k + 1" s1] Again(1,3) by simp
    then have "I (k + 1) s3"
      using Again(6) read [of "k + 1" s2] by (auto split: option.splits)
    then have "I (k + 1) (pause sleep d s3)" using wait by (simp add: pause_def)
    from Round.IH [OF Again(5) should_continue_less [OF Again(4)] Again(7) should_continue_less [OF Again(4)] this]
    obtain n where n: "n \<le> unat (rc_max_attempts c) - unat (attempt + 1)" "I (k + 1 + n) s'" by blast
    have "unat (attempt + 1) = Suc (unat attempt)" by (rule unat_Suc_not_max [OF Again(5)])
    with n one show ?thesis by (intro exI [of _ "Suc n"]) simp
  qed
qed

section \<open>The time a run takes\<close>

lemma backoff_delay_le:
  assumes "backoff_delay c op attempt = Some d" and "rc_max_backoff c \<le> 2 ^ 48"
  shows "d \<le> rc_max_backoff c"
proof -
  obtain b where b: "backoff_for c attempt = Some b" using assms(1) by (auto simp: backoff_delay_def split: option.splits)
  then have le: "b \<le> rc_max_backoff c" by (rule backoff_le)
  then obtain n where "jittered b (jitter_seed attempt op) = Some n" "n \<le> b"
    using jittered_bounds [of b] assms(2) by (metis le_trans)
  with assms(1) b le show ?thesis by (auto simp: backoff_delay_def split: if_splits)
qed

text \<open>
  An upper clock: a reading is the time then and takes at most \<open>late\<close>, a sleep overshoots by at most
  \<open>late\<close>. With attempts of at most \<open>a\<close> each, a run is bounded by its number of attempts and waits, and
  with a total deadline by that deadline and one more attempt.
\<close>

definition prompt :: "('s \<Rightarrow> nat) \<Rightarrow> ('s \<Rightarrow> nat \<times> 's) \<Rightarrow> (duration \<Rightarrow> 's \<Rightarrow> 's) \<Rightarrow> duration \<Rightarrow> bool" where
  "prompt time now sleep late \<longleftrightarrow>
     (\<forall>s. fst (now s) = time (snd (now s)) \<and> time (snd (now s)) \<le> time s + late) \<and>
     (\<forall>d s. time (sleep d s) \<le> time s + d + late)"

lemma prompt_pause: "prompt time now sleep late \<Longrightarrow> time (pause sleep d s) \<le> time s + d + late"
  by (simp add: prompt_def pause_def)

lemma prompt_now: "prompt time now sleep late \<Longrightarrow> now s = (t, s') \<Longrightarrow> t = time s' \<and> time s' \<le> time s + late"
  by (metis prompt_def fst_conv snd_conv)

lemma retry_loop_rounds_time:
  assumes clock: "prompt time now sleep late" and body: "\<And>s. time (snd (f s)) \<le> time s + a"
    and cap: "rc_max_backoff c \<le> 2 ^ 48"
  shows "retry_loop now sleep c op f start attempt s = Some (r, s') \<Longrightarrow> attempt < rc_max_attempts c \<Longrightarrow>
    time s' \<le> time s + (unat (rc_max_attempts c) - unat attempt) * (a + 2 * late)
      + (unat (rc_max_attempts c) - unat attempt - 1) * (rc_max_backoff c + late)"
proof (induction attempt s rule: retry_induct [of c])
  case (Round attempt s)
  define n where "n = unat (rc_max_attempts c) - unat attempt"
  have one: "1 \<le> n" using Round.prems(2) by (simp add: word_less_nat_alt n_def)
  then have "a + 2 * late \<le> n * (a + 2 * late)" by simp
  then have pay: "x \<le> time s + a + 2 * late \<Longrightarrow>
      x \<le> time s + n * (a + 2 * late) + (n - 1) * (rc_max_backoff c + late)" for x by linarith
  have goal: "time s' \<le> time s + n * (a + 2 * late) + (n - 1) * (rc_max_backoff c + late)"
    using Round.prems(1)
  proof (cases rule: retry_loop_cases)
    case Done
    with body [of s] show ?thesis by (intro pay) simp
  next
    case (Exhausted s1 t)
    with body [of s] prompt_now [OF clock Exhausted(3)] show ?thesis by (intro pay) simp
  next
    case (Expired r1 s1 t s2 t2 deadline)
    with body [of s] prompt_now [OF clock Expired(3)] prompt_now [OF clock Expired(6)] show ?thesis by (intro pay) simp
  next
    case (Again r1 s1 t s2 s3 d)
    have less: "attempt + 1 < rc_max_attempts c" using Again(4) by (rule should_continue_less)
    have s3: "time s3 \<le> time s + a + 2 * late"
      using body [of s] Again(1,6) prompt_now [OF clock Again(3)] prompt_now [OF clock, of s2]
      by (fastforce split: option.splits)
    have "d \<le> rc_max_backoff c" using Again(8) backoff_delay_le [OF _ cap] by (meson le_trans)
    define x y where "x = a + 2 * late" and "y = rc_max_backoff c + late"
    have "time (pause sleep d s3) \<le> time s + x + y"
      using s3 prompt_pause [OF clock, of d s3] \<open>d \<le> rc_max_backoff c\<close> by (simp add: x_def y_def)
    moreover have next_attempt: "unat (attempt + 1) = Suc (unat attempt)" by (rule unat_Suc_not_max [OF Again(5)])
    then obtain m where m: "unat (rc_max_attempts c) - unat (attempt + 1) = Suc m" "n = Suc (Suc m)"
      using less by (cases "unat (rc_max_attempts c) - unat (attempt + 1)") (simp_all add: n_def word_less_nat_alt)
    have "time s' \<le> time (pause sleep d s3) + Suc m * x + m * y"
      using Round.IH [OF Again(5) less Again(7) less] by (simp only: m(1) x_def y_def diff_Suc_1)
    ultimately have "time s' \<le> time s + Suc (Suc m) * x + Suc m * y" by simp
    then show ?thesis by (simp only: m(2) x_def y_def diff_Suc_1)
  qed
  then show ?case by (simp add: n_def)
qed

lemma retry_loop_deadline_time:
  assumes clock: "prompt time now sleep late" and body: "\<And>s. time (snd (f s)) \<le> time s + a"
    and dl: "rc_deadline c = Some deadline"
  shows "retry_loop now sleep c op f start attempt s = Some (r, s') \<Longrightarrow>
    time s' \<le> max (time s) (start + deadline + late) + a + 2 * late"
proof (induction attempt s rule: retry_induct [of c])
  case (Round attempt s)
  have pay: "x \<le> time s + a + 2 * late \<Longrightarrow> x \<le> max (time s) (start + deadline + late) + a + 2 * late" for x
    by linarith
  from Round.prems show ?case
  proof (cases rule: retry_loop_cases)
    case Done
    with body [of s] show ?thesis by (intro pay) simp
  next
    case (Exhausted s1 t)
    with body [of s] prompt_now [OF clock Exhausted(3)] show ?thesis by (intro pay) simp
  next
    case (Expired r1 s1 t s2 t2 deadline)
    with body [of s] prompt_now [OF clock Expired(3)] prompt_now [OF clock Expired(6)] show ?thesis by (intro pay) simp
  next
    case (Again r1 s1 t s2 s3 d)
    obtain t2 where t2: "now s2 = (t2, s3)" "t2 - start < deadline" "d \<le> deadline - (t2 - start)"
      using Again(6) dl by auto
    have "time (pause sleep d s3) \<le> start + deadline + late"
      using t2(2,3) prompt_now [OF clock t2(1)] prompt_pause [OF clock, of d s3] by linarith
    with Round.IH [OF Again(5) should_continue_less [OF Again(4)] Again(7)] show ?thesis by simp
  qed
qed

section \<open>Logging the attempts\<close>

text \<open>The same loop over a state that also records when each attempt began and what it gave.\<close>

definition with_log_now :: "('s \<Rightarrow> nat \<times> 's) \<Rightarrow> 's \<times> 'l \<Rightarrow> nat \<times> ('s \<times> 'l)" where
  "with_log_now now sl = (let (t, s) = now (fst sl) in (t, (s, snd sl)))"

definition with_log_sleep :: "(duration \<Rightarrow> 's \<Rightarrow> 's) \<Rightarrow> duration \<Rightarrow> 's \<times> 'l \<Rightarrow> 's \<times> 'l" where
  "with_log_sleep sleep d sl = (sleep d (fst sl), snd sl)"

definition logged ::
    "('s \<Rightarrow> nat) \<Rightarrow> ('s \<Rightarrow> 'a res \<times> 's) \<Rightarrow> 's \<times> (nat \<times> 'a res) list \<Rightarrow> 'a res \<times> ('s \<times> (nat \<times> 'a res) list)" where
  "logged time f sl = (let (r, s) = f (fst sl) in (r, (s, snd sl @ [(time (fst sl), r)])))"

definition logged_retry where
  "logged_retry time now sleep c op f s =
     with_retry (with_log_now now) (with_log_sleep sleep) c op (logged time f) (s, [])"

lemma with_log_now_simp [simp]: "with_log_now now (s, l) = (fst (now s), (snd (now s), l))"
  by (simp add: with_log_now_def split: prod.split)

lemma logged_simp [simp]: "logged time f (s, l) = (fst (f s), (snd (f s), l @ [(time s, fst (f s))]))"
  by (simp add: logged_def split: prod.split)

lemma pause_log [simp]: "pause (with_log_sleep sleep) d (s, l) = (pause sleep d s, l)"
  by (simp add: pause_def with_log_sleep_def)

text \<open>Logging changes nothing.\<close>

lemma retry_loop_log_free:
  "map_option (\<lambda>(r, s, l). (r, s))
      (retry_loop (with_log_now now) (with_log_sleep sleep) c op (logged time f) start attempt (s, l))
    = retry_loop now sleep c op f start attempt s"
proof (induction attempt s arbitrary: l rule: retry_induct [of c])
  case (Round attempt s)
  obtain r1 s1 where f: "f s = (r1, s1)" by force
  obtain t s2 where n: "now s1 = (t, s2)" by force
  obtain t3 s3 where n2: "now s2 = (t3, s3)" by force
  show ?case
    using Round f n n2 should_continue_less [of c "attempt + 1" "t - start"]
    by (cases r1; cases "rc_deadline c"; cases "backoff_delay c op (attempt + 1)")
      (simp_all add: retry_loop.simps [of _ _ c op _ start attempt] Let_def)
qed

text \<open>What a log of attempts looks like when the loop is done.\<close>

definition retry_log_ok :: "retry_config \<Rightarrow> nat \<Rightarrow> (nat \<times> 'a res) list \<Rightarrow> 'a res \<Rightarrow> bool" where
  "retry_log_ok c most calls r \<longleftrightarrow>
     calls \<noteq> [] \<and> length calls \<le> most \<and> (\<forall>x \<in> set (butlast calls). retry_err (snd x)) \<and>
     (r = snd (last calls) \<or>
      (retry_err (snd (last calls)) \<and> (\<exists>m. r = Inl (Timeout m)) \<and> rc_deadline c \<noteq> None))"

lemma retry_loop_log:
  assumes "retry_loop (with_log_now now) (with_log_sleep sleep) c op (logged time f) start attempt (s, l)
      = Some (r, (s', l'))"
    and "attempt < rc_max_attempts c"
  shows "\<exists>new. l' = l @ new \<and> retry_log_ok c (unat (rc_max_attempts c) - unat attempt) new r \<and>
    fst (hd new) = time s"
  using assms
proof (induction attempt s arbitrary: l rule: retry_induct [of c])
  case (Round attempt s)
  have le: "1 \<le> unat (rc_max_attempts c) - unat attempt"
    using Round.prems(2) by (simp add: word_less_nat_alt)
  from Round.prems(1) show ?case
  proof (cases rule: retry_loop_cases)
    case Done
    with le show ?thesis by (auto simp: retry_log_ok_def)
  next
    case (Exhausted s1 t)
    with le show ?thesis by (auto simp: retry_log_ok_def)
  next
    case (Expired r1 s1 t s2 t2 deadline)
    with le show ?thesis
      by (intro exI [of _ "[(time s, r1)]"]) (auto simp: retry_log_ok_def)
  next
    case (Again r1 s1 t s2 s3 d)
    obtain u l1 where s3: "s3 = (u, l1)" by force
    from Again(1,3,6) s3 have l1: "l1 = l @ [(time s, r1)]" by (auto split: option.splits)
    have less: "attempt + 1 < rc_max_attempts c" using Again(4) by (rule should_continue_less)
    from Again(7) s3 have "retry_loop (with_log_now now) (with_log_sleep sleep) c op (logged time f) start
        (attempt + 1) (pause sleep d u, l1) = Some (r, (s', l'))" by simp
    from Round.IH [OF Again(5) less this less] obtain new where new: "l' = l1 @ new"
      "retry_log_ok c (unat (rc_max_attempts c) - unat (attempt + 1)) new r" by blast
    have "unat (attempt + 1) = Suc (unat attempt)" by (rule unat_Suc_not_max [OF Again(5)])
    with new(2) Again(2) le have "retry_log_ok c (unat (rc_max_attempts c) - unat attempt) ((time s, r1) # new) r"
      by (auto simp: retry_log_ok_def)
    with new(1) l1 show ?thesis by (intro exI [of _ "(time s, r1) # new"]) simp
  qed
qed

text \<open>
  The clock of the program: a reading is the current time and time never runs back; a sleep of \<open>d\<close>
  ends no earlier than \<open>d\<close> later and, with \<open>late\<close> the worst delay of the timer, no later than \<open>d + late\<close>.
\<close>

definition clock_ok :: "('s \<Rightarrow> nat) \<Rightarrow> ('s \<Rightarrow> nat \<times> 's) \<Rightarrow> (duration \<Rightarrow> 's \<Rightarrow> 's) \<Rightarrow> duration \<Rightarrow> bool" where
  "clock_ok time now sleep late \<longleftrightarrow>
     (\<forall>s. time s \<le> time (snd (now s)) \<and> fst (now s) = time (snd (now s))) \<and>
     (\<forall>d s. time s + d \<le> time (sleep d s) \<and> time (sleep d s) \<le> time s + d + late)"

lemma retry_loop_deadline:
  assumes "retry_loop (with_log_now now) (with_log_sleep sleep) c op (logged time f) start attempt (s, l)
      = Some (r, (s', l'))"
    and clock: "clock_ok time now sleep late" and dl: "rc_deadline c = Some deadline" and pos: "start \<le> time s"
    and mono: "\<And>s. time s \<le> time (snd (f s))"
  shows "\<exists>x new. l' = l @ x # new \<and> fst x = time s \<and> (\<forall>y \<in> set new. fst y \<le> start + deadline + late)"
  using assms(1) pos
proof (induction attempt s arbitrary: l rule: retry_induct [of c])
  case (Round attempt s)
  from Round.prems(1) show ?case
  proof (cases rule: retry_loop_cases)
    case (Expired r1 s1 t s2 t2 deadline)
    then show ?thesis by (intro exI [of _ "(time s, r1)"] exI [of _ "[]"]) auto
  next
    case (Again r1 s1 t s2 s3 d)
    obtain u l1 where s3: "s3 = (u, l1)" by force
    from Again(1) have s1: "s1 = (snd (f s), l @ [(time s, r1)])" by auto
    from Again(3) s1 have s2: "s2 = (snd (now (snd (f s))), l @ [(time s, r1)])" by auto
    from Again(6) dl s2 s3 obtain t2 where t2: "now (fst s2) = (t2, u)" "t2 - start < deadline"
      "d \<le> deadline - (t2 - start)" and l1: "l1 = l @ [(time s, r1)]"
      by (auto simp: prod_eq_iff)
    have read: "time v \<le> time (snd (now v))" "fst (now v) = time (snd (now v))" for v
      using clock by (simp_all add: clock_ok_def)
    have "time s \<le> time (fst s2)" using mono [of s] read(1) [of "snd (f s)"] s2 by simp
    moreover have "t2 = time u" "time (fst s2) \<le> time u" using read [of "fst s2"] t2(1) by simp_all
    ultimately have "time s \<le> time u" "t2 = time u" by simp_all
    then have "start + d \<le> time u + d" "time u + d \<le> start + deadline"
      using Round.prems(2) t2(2,3) by auto
    moreover have "time u \<le> time (pause sleep d u)" "time (pause sleep d u) \<le> time u + d + late"
      using clock by (auto simp: clock_ok_def pause_def intro: add_leD1)
    ultimately have late: "time (pause sleep d u) \<le> start + deadline + late" "start \<le> time (pause sleep d u)"
      using Round.prems(2) by linarith+
    have less: "attempt + 1 < rc_max_attempts c" using Again(4) by (rule should_continue_less)
    from Again(7) s3 have run: "retry_loop (with_log_now now) (with_log_sleep sleep) c op (logged time f) start
        (attempt + 1) (pause sleep d u, l1) = Some (r, (s', l'))" by simp
    from Round.IH [OF Again(5) less this late(2)] obtain x new where new: "l' = l1 @ x # new" "fst x = time (pause sleep d u)"
      "\<forall>y \<in> set new. fst y \<le> start + deadline + late" by blast
    then show ?thesis using new l1 late(1)
      by (intro exI [of _ "(time s, r1)"] exI [of _ "x # new"]) auto
  qed auto
qed

lemma one_le_pos: "1 \<le> x \<Longrightarrow> 0 < x" for x :: "32 word"
  by (simp add: word_le_nat_alt word_less_nat_alt)

lemma logged_retry_free:
  "map_option (\<lambda>(r, s, l). (r, s)) (logged_retry time now sleep c op f s) = with_retry now sleep c op f s"
  by (simp add: logged_retry_def with_retry_def retry_loop_log_free split: prod.split)

section \<open>Properties\<close>

text \<open>
  The classes of the commands: exactly the four reads are repeated automatically; no write is,
  whether its repetition would be harmless or not.
\<close>

theorem only_reads_are_repeated:
  "allows_automatic_retry op \<longleftrightarrow> op \<in> {OpGet, OpExists, OpTtl, OpMget}"
proof -
  have "allows_automatic_retry op \<longleftrightarrow> op \<in> set (filter allows_automatic_retry enum_class.enum)"
    by (simp add: enum_UNIV)
  then show ?thesis by (simp add: repeated_operations)
qed

text \<open>
  C16. The backoff schedule. A fixed policy waits its delay after every failure, for every delay a
  \<open>Duration\<close> can hold. An exponential policy waits initial, twice, four times, \<open>\<dots>\<close> up to the cap, to
  the nanosecond, when the cap is at most 2 to the 48 nanoseconds (three days), although the source
  computes it in floating point. No policy whatever waits longer than its cap.
\<close>

theorem backoff_schedule:
  "(d \<le> dur_max \<longrightarrow> backoff_for (fixed a d) k = Some (if k = 0 then 0 else d)) \<and>
   (m \<le> 2 ^ 48 \<longrightarrow> backoff_for (exponential a i m) k
      = Some (if k = 0 then 0 else min (i * 2 ^ (unat k - 1)) m)) \<and>
   (\<forall>c w. backoff_for c k = Some w \<longrightarrow> w \<le> rc_max_backoff c)"
proof (intro conjI impI allI)
  assume "d \<le> dur_max"
  then show "backoff_for (fixed a d) k = Some (if k = 0 then 0 else d)"
    using fixed_round [of d a "unat k - 1"] by (auto simp: backoff_for_def fixed_def)
next
  assume "m \<le> 2 ^ 48"
  then have "backoff_rounds (exponential a i m) (unat k - 1) (min i m)
      = Some (min (min i m * 2 ^ (unat k - 1)) m)"
    by (intro doubling_rounds) (simp_all add: exponential_def)
  moreover have "min (min i m * 2 ^ n) m = min (i * 2 ^ n) m" for n
  proof (cases "i \<le> m")
    case False
    have "m \<le> m * 2 ^ n" "i \<le> i * 2 ^ n" by simp_all
    with False have "m \<le> i * 2 ^ n" by linarith
    then show ?thesis using False \<open>m \<le> m * 2 ^ n\<close> by simp
  qed simp
  ultimately show "backoff_for (exponential a i m) k
      = Some (if k = 0 then 0 else min (i * 2 ^ (unat k - 1)) m)"
    by (simp add: backoff_for_def exponential_def)
next
  fix c w assume "backoff_for c k = Some w"
  then show "w \<le> rc_max_backoff c" by (rule backoff_le)
qed

theorem backoff_schedule_witness:
  "backoff_for (fixed 3 (from_millis 7)) 9 = Some (from_millis 7) \<and>
   backoff_for (exponential 3 (from_millis 10) (from_millis 40)) 2 = Some (from_millis 20)"
  using backoff_schedule [of "from_millis 7" 3 9 "from_millis 40" "from_millis 10"]
    backoff_schedule [of "from_millis 7" 3 2 "from_millis 40" "from_millis 10"]
  by (simp add: from_millis_def)

text \<open>
  Jitter keeps the wait between half the backoff (rounded down to a nanosecond) and the whole of
  it, for every seed and every backoff up to 2 to the 48 nanoseconds, floating-point rounding
  included, and never panics there.
\<close>

theorem jitter_range:
  assumes "d \<le> 2 ^ 48"
  shows "\<exists>n. jittered d seed = Some n \<and> d div 2 \<le> n \<and> n \<le> d"
  using jittered_bounds [OF assms, of seed] by blast

theorem jitter_range_witness:
  "\<exists>n. jittered (from_secs 1) 42 = Some n \<and> 500000000 \<le> n \<and> n \<le> 1000000000"
  using jitter_range [of "from_secs 1" 42] by (simp add: from_secs_def)

lemma backoff_delay_total:
  assumes "rc_max_backoff c \<le> 2 ^ 48" shows "\<exists>d. backoff_delay c op attempt = Some d"
proof -
  obtain b where b: "backoff_for c attempt = Some b" using backoff_total [of c attempt] assms by auto
  then have "b \<le> 2 ^ 48" using backoff_le [OF b] assms by simp
  then obtain n where "jittered b (jitter_seed attempt op) = Some n" by (rule jittered_bounds)
  with b show ?thesis by (simp add: backoff_delay_def)
qed

lemma retry_loop_returns:
  assumes "rc_max_backoff c \<le> 2 ^ 48" and "attempt < rc_max_attempts c"
  shows "retry_loop now sleep c op f start attempt s \<noteq> None"
  using assms(2)
proof (induction attempt s rule: retry_induct [of c])
  case (Round attempt s)
  then have ne: "attempt \<noteq> - 1" using word_n1_ge not_le by blast
  obtain b where "backoff_delay c op (attempt + 1) = Some b"
    using backoff_delay_total [OF assms(1)] by blast
  with Round ne show ?case
    by (auto simp: retry_loop.simps [of now sleep c op f start attempt] Let_def
        split: prod.split sum.split option.split dest: should_continue_less)
qed

text \<open>
  C31. The retry loop always comes back with a result, it neither spins nor panics, for every policy
  whose backoff cap is at most 2 to the 48 nanoseconds, whatever the operation and the clock do.
\<close>

theorem retry_returns:
  assumes "rc_max_backoff c \<le> 2 ^ 48" and "1 \<le> rc_max_attempts c"
  shows "\<exists>r s'. with_retry now sleep c op f s = Some (r, s')"
proof -
  have "0 < rc_max_attempts c" by (rule one_le_pos [OF assms(2)])
  then show ?thesis
    using retry_loop_returns [OF assms(1)] by (fastforce simp: with_retry_def split: prod.split)
qed

theorem retry_returns_witness:
  "\<exists>r s'. with_retry (\<lambda>t. (t, t)) (\<lambda>d t. t + d) default_retry ''redis.get''
     (\<lambda>t. (Inl (Transient (Msg ''loading'' [])) :: nat res, t + 1)) (0 :: nat) = Some (r, s')"
  by (rule retry_returns) (simp_all add: default_retry_def exponential_def from_secs_def max_def)

text \<open>
  C7. What the attempts are. With the attempts logged, a finished run made at least one and at most
  \<open>max_attempts\<close> of them; every attempt but the last failed with a retryable error, so a success or
  an error that is not retryable is never followed by another attempt; the result is that of the
  last attempt, or a timeout when a deadline is set. The logged run is the run.
\<close>

theorem retry_attempts:
  assumes "logged_retry time now sleep c op f s = Some (r, s', calls)" and "1 \<le> rc_max_attempts c"
  shows "calls \<noteq> [] \<and> length calls \<le> unat (rc_max_attempts c) \<and>
    (\<forall>x \<in> set (butlast calls). \<exists>e. snd x = Inl e \<and> is_retryable e) \<and>
    (r = snd (last calls) \<or> (\<exists>m. r = Inl (Timeout m)) \<and> rc_deadline c \<noteq> None) \<and>
    with_retry now sleep c op f s = Some (r, s')"
proof -
  have "0 < rc_max_attempts c" by (rule one_le_pos [OF assms(2)])
  then have "retry_log_ok c (unat (rc_max_attempts c)) calls r"
    using assms(1) by (auto simp: logged_retry_def with_retry_def dest!: retry_loop_log split: prod.splits)
  moreover have "with_retry now sleep c op f s = Some (r, s')"
    using assms(1) logged_retry_free [of time now sleep c op f s] by simp
  moreover have "retry_err x \<longleftrightarrow> (\<exists>e. x = Inl e \<and> is_retryable e)" for x :: "'a res"
    by (cases x) simp_all
  ultimately show ?thesis unfolding retry_log_ok_def by blast
qed

theorem retry_attempts_witness:
  "\<exists>s'. with_retry (\<lambda>t. (t, t)) (\<lambda>d t. t + d) default_retry ''redis.get''
     (\<lambda>t. (Inl (Config (Msg ''bad'' [])) :: nat res, t + 1)) (0 :: nat) = Some (Inl (Config (Msg ''bad'' [])), s')"
proof -
  have "logged_retry id (\<lambda>t. (t, t)) (\<lambda>d t. t + d) default_retry ''redis.get''
      (\<lambda>t. (Inl (Config (Msg ''bad'' [])) :: nat res, t + 1)) (0 :: nat)
    = Some (Inl (Config (Msg ''bad'' [])), 1, [(0, Inl (Config (Msg ''bad'' [])))])"
    by (simp add: logged_retry_def with_retry_def retry_loop.simps)
  then show ?thesis
    using retry_attempts by (fastforce simp: default_retry_def exponential_def max_def)
qed

text \<open>
  The total deadline. With a deadline set and a clock that is late by at most \<open>late\<close>, no attempt
  after the first begins later than the deadline, counted from the start of the call, plus \<open>late\<close>.
\<close>

theorem retry_deadline:
  assumes "logged_retry time now sleep c op f s = Some (r, s', calls)" and "rc_deadline c = Some deadline"
    and "clock_ok time now sleep late" and "\<forall>s. time s \<le> time (snd (f s))"
  shows "\<forall>x \<in> set (tl calls). fst x \<le> fst (now s) + deadline + late"
proof -
  obtain t u where n: "now s = (t, u)" by force
  then have "t = time u" using assms(3) by (metis clock_ok_def fst_conv snd_conv)
  with n assms show ?thesis
    by (auto simp: logged_retry_def with_retry_def dest!: retry_loop_deadline [of _ _ _ _ time])
qed

theorem retry_deadline_witness:
  "\<exists>r s' calls. logged_retry id (\<lambda>t. (t, t)) (\<lambda>d t. t + d) (with_deadline 100 default_retry) ''redis.get''
     (\<lambda>t. (Inl (Transient (Msg ''loading'' [])) :: nat res, t + 70)) (0 :: nat) = Some (r, s', calls) \<and>
     (\<forall>x \<in> set (tl calls). fst x \<le> 100)"
proof -
  have c: "rc_max_backoff (with_deadline 100 default_retry) \<le> 2 ^ 48" "1 \<le> rc_max_attempts (with_deadline 100 default_retry)"
    by (simp_all add: with_deadline_def default_retry_def exponential_def from_secs_def max_def)
  let ?run = "logged_retry id (\<lambda>t. (t, t)) (\<lambda>d t. t + d) (with_deadline 100 default_retry) ''redis.get''
     (\<lambda>t. (Inl (Transient (Msg ''loading'' [])) :: nat res, t + 70)) (0 :: nat)"
  have "0 < rc_max_attempts (with_deadline 100 default_retry)"
    by (rule one_le_pos [OF c(2)])
  then have "?run \<noteq> None"
    unfolding logged_retry_def with_retry_def by (simp add: retry_loop_returns [OF c(1)] del: not_None_eq)
  then obtain r s' calls where run: "?run = Some (r, s', calls)" by auto
  then have "\<forall>x \<in> set (tl calls). fst x \<le> fst (0 :: nat, 0 :: nat) + 100 + 0"
    by (rule retry_deadline) (simp_all add: with_deadline_def clock_ok_def)
  with run show ?thesis by auto
qed

end
