(* ===== verification/Redis_Config.thy ===== *)
theory Redis_Config
  imports Config_Parse
begin

text \<open>
  \<open>src/config.rs\<close> and \<open>src/config/accessors.rs\<close>: the configuration record, its validation, the
  redacted displays, and the driver connection descriptions built from it.
\<close>

section \<open>The configuration\<close>

record redis_config =
  c_addr :: string
  c_nodes :: "string list"
  c_sentinel_master :: "string option"
  c_username :: "string option"
  c_password :: "string option"
  c_db :: int
  c_tls :: bool
  c_mode :: redis_mode
  c_connect_timeout :: duration
  c_command_timeout :: duration
  c_acquire_timeout :: duration
  c_max_in_flight :: nat
  c_client_name :: "string option"
  c_warmup_count :: nat
  c_tcp_keepalive :: "duration option"
  c_reconnect_max_delay :: duration
  c_max_cluster_redirects :: nat
  c_blocking_timeout :: duration

definition default_config :: redis_config where
  "default_config =
     \<lparr>c_addr = ''127.0.0.1:6379'', c_nodes = [], c_sentinel_master = None, c_username = None,
      c_password = None, c_db = 0, c_tls = False, c_mode = Standalone,
      c_connect_timeout = from_secs 5, c_command_timeout = from_secs 3,
      c_acquire_timeout = from_secs 3, c_max_in_flight = 256, c_client_name = None,
      c_warmup_count = 0, c_tcp_keepalive = None, c_reconnect_max_delay = from_secs 5,
      c_max_cluster_redirects = 16, c_blocking_timeout = from_secs 5\<rparr>"

section \<open>Validation\<close>

definition validate_mode :: "url_env \<Rightarrow> redis_config \<Rightarrow> unit res" where
  "validate_mode env c =
     (let has_addr = \<not> blank (c_addr c);
          has_nodes = c_nodes c \<noteq> [];
          check_addr = map_ok (\<lambda>_. ()) (parse_host_port (c_addr c));
          check_nodes = map_ok (\<lambda>_. ()) (each_ok (validate_seed env) (c_nodes c)) in
      case c_mode c of
        Standalone \<Rightarrow>
          if \<not> has_addr then Inl (Config (Msg ''address empty'' [])) else check_addr
      | Cluster \<Rightarrow>
          if \<not> has_addr \<and> \<not> has_nodes then Inl (Config (Msg ''Cluster needs addr or nodes'' []))
          else if c_db c \<noteq> 0 then Inl (Config (Msg ''Cluster has no logical database'' []))
          else and_then (if has_addr then check_addr else Inr ()) (\<lambda>_. check_nodes)
      | Sentinel \<Rightarrow>
          (case map_option trim (c_sentinel_master c) of
             None \<Rightarrow> Inl (Config (Msg ''Sentinel needs sentinel_master'' []))
           | Some m \<Rightarrow>
               if m = [] then Inl (Config (Msg ''Sentinel needs sentinel_master'' []))
               else if \<not> has_addr \<and> \<not> has_nodes
               then Inl (Config (Msg ''Sentinel needs addr or nodes'' []))
               else and_then (if has_addr then check_addr else Inr ()) (\<lambda>_. check_nodes)))"

definition validate_limits :: "redis_config \<Rightarrow> unit res" where
  "validate_limits c =
     (if c_db c < 0 then Inl (Config (Msg ''db negative'' []))
      else if c_max_in_flight c = 0 then Inl (Config (Msg ''max_in_flight must be at least 1'' []))
      else if c_connect_timeout c = 0 \<or> c_command_timeout c = 0 \<or> c_acquire_timeout c = 0 \<or>
        c_reconnect_max_delay c = 0 \<or> c_blocking_timeout c = 0
      then Inl (Config (Msg ''timeouts must be positive'' []))
      else if c_tcp_keepalive c = Some 0 then Inl (Config (Msg ''tcp_keepalive must be positive'' []))
      else if c_max_cluster_redirects c = 0
      then Inl (Config (Msg ''max_cluster_redirects must be at least 1'' []))
      else Inr ())"

definition validate :: "url_env \<Rightarrow> redis_config \<Rightarrow> unit res" where
  "validate env c = and_then (validate_mode env c) (\<lambda>_. validate_limits c)"

section \<open>Accessors and displays\<close>

text \<open>The getters; the theories read the record's selectors where the code calls them.\<close>

definition get_addr :: "redis_config \<Rightarrow> string" where "get_addr c = c_addr c"
definition get_nodes :: "redis_config \<Rightarrow> string list" where "get_nodes c = c_nodes c"
definition get_sentinel_master :: "redis_config \<Rightarrow> string option" where "get_sentinel_master c = c_sentinel_master c"
definition get_db :: "redis_config \<Rightarrow> int" where "get_db c = c_db c"
definition get_tls :: "redis_config \<Rightarrow> bool" where "get_tls c = c_tls c"
definition get_mode :: "redis_config \<Rightarrow> redis_mode" where "get_mode c = c_mode c"
definition get_connect_timeout :: "redis_config \<Rightarrow> duration" where "get_connect_timeout c = c_connect_timeout c"
definition get_command_timeout :: "redis_config \<Rightarrow> duration" where "get_command_timeout c = c_command_timeout c"
definition get_acquire_timeout :: "redis_config \<Rightarrow> duration" where "get_acquire_timeout c = c_acquire_timeout c"
definition get_max_in_flight :: "redis_config \<Rightarrow> nat" where "get_max_in_flight c = c_max_in_flight c"
definition get_client_name :: "redis_config \<Rightarrow> string option" where "get_client_name c = c_client_name c"
definition get_warmup_count :: "redis_config \<Rightarrow> nat" where "get_warmup_count c = c_warmup_count c"
definition get_tcp_keepalive :: "redis_config \<Rightarrow> duration option" where "get_tcp_keepalive c = c_tcp_keepalive c"
definition get_reconnect_max_delay :: "redis_config \<Rightarrow> duration" where "get_reconnect_max_delay c = c_reconnect_max_delay c"
definition get_max_cluster_redirects :: "redis_config \<Rightarrow> nat" where "get_max_cluster_redirects c = c_max_cluster_redirects c"
definition get_blocking_timeout :: "redis_config \<Rightarrow> duration" where "get_blocking_timeout c = c_blocking_timeout c"
definition get_command_lanes :: "redis_config \<Rightarrow> nat" where "get_command_lanes c = c_max_in_flight c"
definition get_username :: "redis_config \<Rightarrow> string option" where "get_username c = c_username c"
definition get_password_opt :: "redis_config \<Rightarrow> string option" where "get_password_opt c = c_password c"

definition has_password :: "redis_config \<Rightarrow> bool" where
  "has_password c = (case c_password c of Some p \<Rightarrow> p \<noteq> [] | None \<Rightarrow> False)"

fun mode_tag :: "redis_mode \<Rightarrow> string" where
  "mode_tag Standalone = ''''"
| "mode_tag Cluster = '' mode=cluster''"
| "mode_tag Sentinel = '' mode=sentinel''"

definition display_endpoint :: "redis_config \<Rightarrow> string" where
  "display_endpoint c =
     (let scheme = if c_tls c then ''rediss'' else ''redis'';
          user = (case c_username c of Some u \<Rightarrow> u | None \<Rightarrow> []);
          seeds = if c_nodes c = [] then redact_seed_url (c_addr c)
                  else join_with '','' (map redact_seed_url (c_nodes c));
          tail = seeds @ ''/'' @ show_int (c_db c) @ mode_tag (c_mode c) in
      if has_password c
      then (if user = [] then scheme @ ''://***@'' @ tail
            else scheme @ ''://'' @ user @ '':***@'' @ tail)
      else if user = [] then scheme @ ''://'' @ tail
      else scheme @ ''://'' @ user @ ''@'' @ tail)"

text \<open>The \<open>Debug\<close> output before rendering: the fields handed to \<open>debug_struct\<close>, in order.\<close>

datatype shown_field =
    FStr string | FStrs "string list" | FOptStr "string option" | FInt int | FBool bool
  | FMode redis_mode | FDur duration | FOptDur "duration option" | FNat nat

definition config_debug :: "redis_config \<Rightarrow> (string \<times> shown_field) list" where
  "config_debug c =
     [(''addr'', FStr (redact_seed_url (c_addr c))),
      (''nodes'', FStrs (map redact_seed_url (c_nodes c))),
      (''sentinel_master'', FOptStr (c_sentinel_master c)),
      (''username'', FOptStr (c_username c)),
      (''password'', FOptStr (map_option (\<lambda>_. ''***'') (c_password c))),
      (''db'', FInt (c_db c)),
      (''tls'', FBool (c_tls c)),
      (''mode'', FMode (c_mode c)),
      (''connect_timeout'', FDur (c_connect_timeout c)),
      (''command_timeout'', FDur (c_command_timeout c)),
      (''acquire_timeout'', FDur (c_acquire_timeout c)),
      (''max_in_flight'', FNat (c_max_in_flight c)),
      (''client_name'', FOptStr (c_client_name c)),
      (''warmup_count'', FNat (c_warmup_count c)),
      (''tcp_keepalive'', FOptDur (c_tcp_keepalive c)),
      (''reconnect_max_delay'', FDur (c_reconnect_max_delay c)),
      (''max_cluster_redirects'', FNat (c_max_cluster_redirects c)),
      (''blocking_timeout'', FDur (c_blocking_timeout c))]"

section \<open>Connection descriptions\<close>

definition connection_addr :: "redis_config \<Rightarrow> string \<Rightarrow> nat \<Rightarrow> connection_addr" where
  "connection_addr c host port = (if c_tls c then TcpTls host port False None else Tcp host port)"

definition own_redis_info :: "redis_config \<Rightarrow> redis_connection_info" where
  "own_redis_info c =
     \<lparr>rci_db = c_db c, rci_username = c_username c, rci_password = c_password c,
      rci_protocol = DefaultProtocol\<rparr>"

definition to_connection_info :: "redis_config \<Rightarrow> connection_info res" where
  "to_connection_info c =
     map_ok (\<lambda>(host, port). \<lparr>ci_addr = connection_addr c host port, ci_redis = own_redis_info c\<rparr>)
       (parse_host_port (c_addr c))"

definition seed_nodes :: "redis_config \<Rightarrow> string list res" where
  "seed_nodes c =
     (if c_nodes c \<noteq> [] then Inr (c_nodes c)
      else if blank (c_addr c) then Inl (Config (Msg ''no seed nodes'' []))
      else Inr [c_addr c])"

text \<open>The \<open>if self.tls\<close> block of a URL seed: plain TCP is upgraded, insecure TLS refused.\<close>

fun upgrade_tls :: "connection_addr \<Rightarrow> connection_addr res" where
  "upgrade_tls (Tcp host port) = Inr (TcpTls host port False None)"
| "upgrade_tls (TcpTls host port ins params) =
     (if ins then Inl (Config (Msg ''insecure TLS node URL refused'' []))
      else Inr (TcpTls host port ins params))"
| "upgrade_tls (Unix path) = Inr (Unix path)"

definition override_info :: "redis_config \<Rightarrow> redis_connection_info \<Rightarrow> redis_connection_info" where
  "override_info c r =
     r\<lparr>rci_username := (case c_username c of Some u \<Rightarrow> Some u | None \<Rightarrow> rci_username r),
       rci_password := (case c_password c of Some p \<Rightarrow> Some p | None \<Rightarrow> rci_password r),
       rci_db := c_db c\<rparr>"

definition connection_info_for_seed ::
    "url_env \<Rightarrow> redis_config \<Rightarrow> string \<Rightarrow> connection_info res" where
  "connection_info_for_seed env c raw =
     (let seed = trim raw in
      if is_redis_url seed then
        (case into_info env seed of
           Inl _ \<Rightarrow> Inl (Config (Msg ''invalid node URL'' [redact_seed_url seed]))
         | Inr info \<Rightarrow>
             map_ok (\<lambda>a. \<lparr>ci_addr = a, ci_redis = override_info c (ci_redis info)\<rparr>)
               (if c_tls c then upgrade_tls (ci_addr info) else Inr (ci_addr info)))
      else
        map_ok (\<lambda>(host, port). \<lparr>ci_addr = connection_addr c host port, ci_redis = own_redis_info c\<rparr>)
          (parse_host_port seed))"

definition seed_connection_infos :: "url_env \<Rightarrow> redis_config \<Rightarrow> connection_info list res" where
  "seed_connection_infos env c =
     and_then (seed_nodes c) (each_ok (connection_info_for_seed env c))"

section \<open>What a valid configuration is\<close>

definition usable_addr :: "redis_config \<Rightarrow> bool" where
  "usable_addr c \<longleftrightarrow> is_ok (parse_host_port (c_addr c))"

definition usable_seeds :: "url_env \<Rightarrow> redis_config \<Rightarrow> bool" where
  "usable_seeds env c \<longleftrightarrow>
     (\<not> blank (c_addr c) \<or> c_nodes c \<noteq> []) \<and> (\<not> blank (c_addr c) \<longrightarrow> usable_addr c) \<and>
     (\<forall>n \<in> set (c_nodes c). is_ok (validate_seed env n))"

definition valid_topology :: "url_env \<Rightarrow> redis_config \<Rightarrow> bool" where
  "valid_topology env c \<longleftrightarrow>
     (case c_mode c of
        Standalone \<Rightarrow> \<not> blank (c_addr c) \<and> usable_addr c
      | Cluster \<Rightarrow> c_db c = 0 \<and> usable_seeds env c
      | Sentinel \<Rightarrow> (\<exists>m. c_sentinel_master c = Some m \<and> \<not> blank m) \<and> usable_seeds env c)"

definition valid_limits :: "redis_config \<Rightarrow> bool" where
  "valid_limits c \<longleftrightarrow>
     0 \<le> c_db c \<and> 0 < c_max_in_flight c \<and> 0 < c_connect_timeout c \<and> 0 < c_command_timeout c \<and>
     0 < c_acquire_timeout c \<and> 0 < c_reconnect_max_delay c \<and> 0 < c_blocking_timeout c \<and>
     c_tcp_keepalive c \<noteq> Some 0 \<and> 0 < c_max_cluster_redirects c"

lemma validate_limits_iff: "is_ok (validate_limits c) \<longleftrightarrow> valid_limits c"
  by (auto simp: validate_limits_def valid_limits_def)

lemma validate_mode_iff: "is_ok (validate_mode env c) \<longleftrightarrow> valid_topology env c"
proof (cases "c_mode c")
  case Standalone
  then show ?thesis
    by (simp add: validate_mode_def valid_topology_def usable_addr_def Let_def)
next
  case Cluster
  then show ?thesis
    by (auto simp: validate_mode_def valid_topology_def usable_addr_def usable_seeds_def Let_def
        is_ok_each_ok)
next
  case Sentinel
  then show ?thesis
    by (cases "c_sentinel_master c")
      (auto simp: validate_mode_def valid_topology_def usable_addr_def usable_seeds_def Let_def
        blank_def is_ok_each_ok)
qed

lemma config_only_validate [simp]: "config_only (validate env c)"
proof -
  have "config_only (validate_mode env c)"
    by (cases "c_mode c") (simp_all add: validate_mode_def Let_def split: option.splits)
  moreover have "config_only (validate_limits c)"
    by (simp add: validate_limits_def)
  ultimately show ?thesis by (simp add: validate_def)
qed

lemma is_ok_validate: "is_ok (validate env c) \<longleftrightarrow> valid_topology env c \<and> valid_limits c"
  by (simp add: validate_def validate_mode_iff validate_limits_iff)


lemma validate_Inr: "validate env c = Inr () \<longleftrightarrow> valid_topology env c \<and> valid_limits c"
  by (simp add: Inr_unit_iff is_ok_validate)

section \<open>Connection descriptions of a valid configuration\<close>

lemma secure_connection_addr [simp]: "secure_addr (connection_addr c h p)"
  by (simp add: connection_addr_def)

lemma valid_standalone_info:
  assumes "validate env c = Inr ()" and "c_mode c = Standalone"
  obtains host port where "port \<le> u16_max" and "parse_host_port (c_addr c) = Inr (host, port)"
    and "to_connection_info c = Inr \<lparr>ci_addr = connection_addr c host port, ci_redis = own_redis_info c\<rparr>"
proof -
  from assms obtain h p where hp: "parse_host_port (c_addr c) = Inr (h, p)"
    by (auto simp: validate_Inr valid_topology_def usable_addr_def is_ok_iff)
  then have "p \<le> u16_max" by (rule parse_host_port_port)
  with hp show thesis
    by (intro that) (auto simp: to_connection_info_def)
qed

text \<open>
  A validated Standalone configuration can always be turned into a connection description, with
  the configured database and credentials, a port that fits 16 bits, and TLS exactly when it is
  switched on; the TLS is never the insecure kind.
\<close>

theorem validated_standalone_connects:
  assumes "validate env c = Inr ()" and "c_mode c = Standalone"
  shows "\<exists>host port. port \<le> u16_max \<and>
    to_connection_info c = Inr \<lparr>ci_addr =
        (if c_tls c then TcpTls host port False None else Tcp host port),
      ci_redis = \<lparr>rci_db = c_db c, rci_username = c_username c, rci_password = c_password c,
        rci_protocol = DefaultProtocol\<rparr>\<rparr>"
  using assms by (rule valid_standalone_info) (auto simp: connection_addr_def own_redis_info_def)

lemma default_config_parses: "parse_host_port ''127.0.0.1:6379'' = Inr (''127.0.0.1'', 6379)"
proof -
  have "show_nat 6379 = ''6379''" by (simp add: show_nat.simps)
  then show ?thesis
    using parse_plain_host_port [of 6379 "''127.0.0.1''"]
    by (simp add: ws1_def ws2_def ws3_def byte_of_def)
qed

lemma default_addr_trimmed: "trimmed ''127.0.0.1:6379''"
  by (simp add: trimmed_def ws1_def ws2_def ws3_def byte_of_def)

lemma default_config_valid: "validate env default_config = Inr ()"
  by (simp add: validate_Inr valid_topology_def valid_limits_def default_config_def usable_addr_def
      default_config_parses blank_def default_addr_trimmed from_secs_def)

theorem validated_standalone_connects_witness:
  "\<exists>host port. port \<le> u16_max \<and>
    to_connection_info default_config = Inr \<lparr>ci_addr = Tcp host port,
      ci_redis = \<lparr>rci_db = 0, rci_username = None, rci_password = None,
        rci_protocol = DefaultProtocol\<rparr>\<rparr>"
  using validated_standalone_connects [OF default_config_valid [of "undefined"]]
  by (simp add: default_config_def)

lemma validate_seed_url_secure:
  assumes "is_ok (validate_seed env n)" and "is_redis_url (trim n)"
  shows "\<exists>info. into_info env (trim n) = Inr info \<and> secure_addr (ci_addr info)"
  using assms
  by (auto simp: validate_seed_def Let_def split: if_splits sum.splits option.splits
      connection_addr.splits bool.splits)

lemma validate_seed_plain:
  assumes "is_ok (validate_seed env n)" and "\<not> is_redis_url (trim n)"
  shows "is_ok (parse_host_port (trim n))"
  using assms by (auto simp: validate_seed_def Let_def split: if_splits)

lemma upgrade_tls_secure:
  "secure_addr a \<Longrightarrow> \<exists>b. upgrade_tls a = Inr b \<and> secure_addr b \<and> (\<forall>h p. b \<noteq> Tcp h p)"
  by (cases a) auto

text \<open>What a seed's connection description must satisfy.\<close>

definition good_seed_info :: "redis_config \<Rightarrow> connection_info \<Rightarrow> bool" where
  "good_seed_info c info \<longleftrightarrow>
     secure_addr (ci_addr info) \<and> (c_tls c \<longrightarrow> (\<forall>h p. ci_addr info \<noteq> Tcp h p)) \<and>
     rci_db (ci_redis info) = c_db c \<and>
     (\<forall>u. c_username c = Some u \<longrightarrow> rci_username (ci_redis info) = Some u) \<and>
     (\<forall>p. c_password c = Some p \<longrightarrow> rci_password (ci_redis info) = Some p)"

lemma validated_seed_info:
  assumes "is_ok (validate_seed env n)"
  shows "\<exists>info. connection_info_for_seed env c n = Inr info \<and> good_seed_info c info"
proof (cases "is_redis_url (trim n)")
  case True
  from validate_seed_url_secure [OF assms True] obtain info
    where info: "into_info env (trim n) = Inr info" "secure_addr (ci_addr info)" by blast
  from upgrade_tls_secure [OF info(2)] obtain b
    where b: "upgrade_tls (ci_addr info) = Inr b" "secure_addr b" "\<forall>h p. b \<noteq> Tcp h p" by blast
  show ?thesis
    using True info b
    by (cases "c_tls c")
      (simp_all add: connection_info_for_seed_def good_seed_info_def override_info_def)
next
  case False
  from validate_seed_plain [OF assms False] obtain h p
    where "parse_host_port (trim n) = Inr (h, p)" by (auto simp: is_ok_iff)
  with False show ?thesis
    by (simp add: connection_info_for_seed_def good_seed_info_def own_redis_info_def
        connection_addr_def)
qed

lemma each_ok_all:
  "(\<And>x. x \<in> set xs \<Longrightarrow> \<exists>y. f x = Inr y \<and> P y) \<Longrightarrow>
    \<exists>ys. each_ok f xs = Inr ys \<and> length ys = length xs \<and> (\<forall>y \<in> set ys. P y)"
proof (induction xs)
  case (Cons x xs)
  obtain y where "f x = Inr y" "P y" using Cons.prems [of x] by auto
  moreover obtain ys where "each_ok f xs = Inr ys" "length ys = length xs" "\<forall>y \<in> set ys. P y"
    using Cons.IH Cons.prems by auto
  ultimately show ?case by auto
qed simp

text \<open>
  The seeds of a validated Cluster or Sentinel configuration always give connection
  descriptions, one per node and in order: none uses TLS without certificate checks, none is plain
  TCP when TLS is switched on, each selects the configured database, and configured credentials
  replace those of the URL.
\<close>

theorem validated_seeds_connect:
  assumes "validate env c = Inr ()" and "c_mode c \<noteq> Standalone" and "c_nodes c \<noteq> []"
  shows "\<exists>infos. seed_connection_infos env c = Inr infos \<and> length infos = length (c_nodes c) \<and>
    (\<forall>info \<in> set infos. secure_addr (ci_addr info) \<and>
       (c_tls c \<longrightarrow> (\<forall>h p. ci_addr info \<noteq> Tcp h p)) \<and> rci_db (ci_redis info) = c_db c \<and>
       (\<forall>u. c_username c = Some u \<longrightarrow> rci_username (ci_redis info) = Some u) \<and>
       (\<forall>p. c_password c = Some p \<longrightarrow> rci_password (ci_redis info) = Some p))"
proof -
  from assms have "\<forall>n \<in> set (c_nodes c). is_ok (validate_seed env n)"
    by (cases "c_mode c") (auto simp: validate_Inr valid_topology_def usable_seeds_def)
  then show ?thesis
    using each_ok_all [of "c_nodes c" "connection_info_for_seed env c" "good_seed_info c"]
      validated_seed_info assms(3)
    by (auto simp: seed_connection_infos_def seed_nodes_def good_seed_info_def)
qed

definition sample_url_env :: url_env where
  "sample_url_env = \<lparr>url_host = (\<lambda>_. Inr (Some ''h'')),
     into_info = (\<lambda>_. Inr \<lparr>ci_addr = Tcp ''h'' 1, ci_redis = own_redis_info default_config\<rparr>)\<rparr>"

definition sample_cluster :: redis_config where
  "sample_cluster = default_config\<lparr>c_mode := Cluster, c_tls := True, c_nodes := [''redis://h:1'']\<rparr>"

lemma sample_cluster_valid: "validate sample_url_env sample_cluster = Inr ()"
proof -
  have "trimmed ''redis://h:1''" by (simp add: trimmed_def ws1_def ws2_def ws3_def byte_of_def)
  then have "is_ok (validate_seed sample_url_env ''redis://h:1'')"
    by (simp add: validate_seed_def sample_url_env_def is_redis_url_def starts_with_def)
  then show ?thesis
    by (simp add: validate_Inr valid_topology_def valid_limits_def usable_seeds_def usable_addr_def
        sample_cluster_def default_config_def default_config_parses blank_def default_addr_trimmed
        from_secs_def)
qed

theorem validated_seeds_connect_witness:
  "\<exists>infos. seed_connection_infos sample_url_env sample_cluster = Inr infos \<and> length infos = 1 \<and>
    (\<forall>info \<in> set infos. \<forall>h p. ci_addr info \<noteq> Tcp h p)"
  using validated_seeds_connect [OF sample_cluster_valid]
  by (auto simp: sample_cluster_def)

section \<open>Displays do not depend on credentials\<close>

text \<open>
  Two configurations that differ only in secrets: the password, set and non-empty in both, and the
  passwords inside the node URLs.
\<close>

definition same_url :: "string \<Rightarrow> string \<Rightarrow> bool" where
  "same_url n n' \<longleftrightarrow>
     (\<exists>scheme user pw pw' host.
        trim n = scheme @ ''://'' @ user @ '':'' @ pw @ ''@'' @ host \<and>
        trim n' = scheme @ ''://'' @ user @ '':'' @ pw' @ ''@'' @ host \<and>
        CHR '':'' \<notin> set scheme \<and> CHR '':'' \<notin> set user \<and> CHR ''@'' \<notin> set host)"

definition same_but_secrets :: "redis_config \<Rightarrow> redis_config \<Rightarrow> bool" where
  "same_but_secrets c c' \<longleftrightarrow>
     (\<exists>p p'. c_password c = Some p \<and> p \<noteq> [] \<and> p' \<noteq> [] \<and>
        c' = c\<lparr>c_password := Some p', c_nodes := c_nodes c'\<rparr> \<and> list_all2 same_url (c_nodes c) (c_nodes c'))"

lemma secrets_not_displayed:
  assumes "same_but_secrets c c'"
  shows "config_debug c' = config_debug c" and "display_endpoint c' = display_endpoint c"
proof -
  obtain p p' where c: "c_password c = Some p" "p \<noteq> []" "p' \<noteq> []"
    "c' = c\<lparr>c_password := Some p', c_nodes := c_nodes c'\<rparr>" "list_all2 same_url (c_nodes c) (c_nodes c')"
    using assms unfolding same_but_secrets_def by blast
  have "list_all2 (\<lambda>n n'. redact_seed_url n = redact_seed_url n') (c_nodes c) (c_nodes c')"
    by (rule list_all2_mono [OF c(5)]) (auto simp: same_url_def redact_url_password)
  then have nodes: "map redact_seed_url (c_nodes c') = map redact_seed_url (c_nodes c)"
    by (induction rule: list_all2_induct) auto
  have nil: "c_nodes c' = [] \<longleftrightarrow> c_nodes c = []" using c(5) by (auto dest: list_all2_lengthD)
  define ns where "ns = c_nodes c'"
  note nodes [folded ns_def] and nil [folded ns_def] and c(4) [folded ns_def]
  then show "config_debug c' = config_debug c" and "display_endpoint c' = display_endpoint c"
    using c(1-3) by (simp_all add: config_debug_def display_endpoint_def has_password_def)
qed

text \<open>A pair to evaluate it on.\<close>

definition secret_a :: redis_config where
  "secret_a = sample_cluster\<lparr>c_password := Some ''x'', c_nodes := [''redis://u:a@h:1'']\<rparr>"

definition secret_b :: redis_config where
  "secret_b = sample_cluster\<lparr>c_password := Some ''longer'', c_nodes := [''redis://u:b:@c@h:1'']\<rparr>"

lemma sample_secrets: "same_but_secrets secret_a secret_b"
proof -
  have "trimmed ''redis://u:a@h:1''" "trimmed ''redis://u:b:@c@h:1''"
    by (simp_all add: trimmed_def ws1_def ws2_def ws3_def byte_of_def)
  then have "same_url ''redis://u:a@h:1'' ''redis://u:b:@c@h:1''"
    unfolding same_url_def
    by (intro exI [of _ "''redis''"] exI [of _ "''u''"] exI [of _ "''a''"] exI [of _ "''b:@c''"]
        exI [of _ "''h:1''"]) simp
  then show ?thesis
    by (auto simp: same_but_secrets_def secret_a_def secret_b_def sample_cluster_def intro!: exI [of _ "''longer''"])
qed

lemma secrets_same_limit: "same_but_secrets c c' \<Longrightarrow> c_max_in_flight c' = c_max_in_flight c"
  unfolding same_but_secrets_def by (elim exE conjE) (erule subst [OF sym], simp)

lemma sample_secrets_valid:
  "validate sample_url_env secret_a = Inr ()" "validate sample_url_env secret_b = Inr ()"
proof -
  have "trimmed ''redis://u:a@h:1''" "trimmed ''redis://u:b:@c@h:1''"
    by (simp_all add: trimmed_def ws1_def ws2_def ws3_def byte_of_def)
  then have "is_ok (validate_seed sample_url_env ''redis://u:a@h:1'')" "is_ok (validate_seed sample_url_env ''redis://u:b:@c@h:1'')"
    by (simp_all add: validate_seed_def sample_url_env_def is_redis_url_def starts_with_def)
  then show "validate sample_url_env secret_a = Inr ()" "validate sample_url_env secret_b = Inr ()"
    by (simp_all add: validate_Inr valid_topology_def valid_limits_def usable_seeds_def usable_addr_def secret_a_def
        secret_b_def sample_cluster_def default_config_def default_config_parses blank_def default_addr_trimmed
        from_secs_def)
qed

end
