(* ===== verification/Runtime.thy ===== *)
theory Runtime
  imports Errors F64
begin

text \<open>
  What the command layer stands on. The redis driver, tokio's timers and semaphore and the other
  tasks of the process are not part of the program: they are the fields of a \<open>runtime\<close> record over
  an arbitrary world state. Commands are data (\<open>request\<close>), replies are the driver's \<open>Value\<close>, and
  a command body is a program (\<open>job\<close>) that sends requests and ends in a result, so that what is sent,
  under which budget, and what becomes of the reply are all visible.
\<close>

section \<open>Requests and replies\<close>

type_synonym bytes = string

text \<open>Arguments keep the grouping of the call, as the driver's \<open>ToRedisArgs\<close> sees it.\<close>

datatype arg =
    Text string
  | Bytes bytes
  | Number int
  | Float f64
  | Many "arg list"

text \<open>
  \<open>Method\<close>: a typed method of \<open>redis::AsyncCommands\<close>; \<open>Command\<close>: \<open>redis::cmd(name)\<close> with its
  \<open>arg\<close> calls; \<open>Pipe\<close>: \<open>redis::pipe()\<close>, atomic or not, each command with its ignore flag; \<open>Invoke\<close>:
  a \<open>redis::Script\<close> with keys and arguments.
\<close>

datatype request =
    Method string "arg list"
  | Command string "arg list"
  | Pipe bool "(string \<times> arg list \<times> bool) list"
  | Invoke string "string list" "bytes list"

datatype reply_value =
    NilValue
  | IntValue int
  | BulkString bytes
  | SimpleString string
  | OkayValue
  | OtherValue string

text \<open>The conversions of \<open>redis::FromRedisValue\<close> at the types the program asks for.\<close>

type_synonym 'a from_value = "reply_value \<Rightarrow> driver_error + 'a"

type_synonym stream_item = "string \<times> (string \<times> bytes) list"

record conversions =
  as_unit :: "unit from_value"
  as_int :: "int from_value"
  as_string :: "string from_value"
  as_opt_string :: "string option from_value"
  as_opt_bytes :: "bytes option from_value"
  as_bytes_list :: "bytes list from_value"
  as_opt_bytes_list :: "bytes option list from_value"
  as_pairs :: "(string \<times> bytes) list from_value"
  as_opt_pair :: "(string \<times> bytes) option from_value"
  as_opt_float :: "f64 option from_value"
  as_bool :: "bool from_value"
  as_values :: "reply_value list from_value"
  as_items :: "stream_item list from_value"
  as_streams :: "(string \<times> stream_item list) list option from_value"

section \<open>Command bodies\<close>

datatype 'a job =
    Done "'a res"
  | Query request "driver_error + reply_value \<Rightarrow> 'a job"

text \<open>\<open>map_redis_result(conn.m(\<dots>).await)?\<close> followed by the rest of the body.\<close>

definition ask :: "'x from_value \<Rightarrow> request \<Rightarrow> ('x \<Rightarrow> 'a res) \<Rightarrow> 'a job" where
  "ask conv req k = Query req (\<lambda>reply. Done (and_then (map_redis_result (and_then reply conv)) k))"

text \<open>The requests of a body when the driver answers with the given replies, in order.\<close>

fun sent :: "'a job \<Rightarrow> (driver_error + reply_value) list \<Rightarrow> request list" where
  "sent (Done r) _ = []"
| "sent (Query req k) [] = [req]"
| "sent (Query req k) (reply # replies) = req # sent (k reply) replies"

fun outcome :: "'a job \<Rightarrow> (driver_error + reply_value) list \<Rightarrow> 'a res option" where
  "outcome (Done r) _ = Some r"
| "outcome (Query req k) [] = None"
| "outcome (Query req k) (reply # replies) = outcome (k reply) replies"

lemma sent_ask [simp, job_simps]:
  "sent (ask conv req k) replies = [req]"
  by (cases replies) (simp_all add: ask_def)

lemma outcome_ask [simp, job_simps]:
  "outcome (ask conv req k) [] = None"
  "outcome (ask conv req k) (reply # rest) = Some (and_then (map_redis_result (and_then reply conv)) k)"
  by (simp_all add: ask_def)

section \<open>Backends and the runtime\<close>

text \<open>\<open>RedisBackend\<close>: the driver's connections are opaque handles, cloned freely.\<close>

datatype redis_backend = StandaloneConn nat | ClusterConn nat

text \<open>How \<open>timeout(budget, semaphore.acquire_owned())\<close> ends.\<close>

datatype acquired = Permit | SemaphoreClosed | Elapsed

type_synonym 'w exchange =
  "request \<Rightarrow> duration \<Rightarrow> 'w \<Rightarrow> ((driver_error + reply_value) \<times> duration) option \<times> 'w"

text \<open>
  A query under a time limit: the reply with the time that is left, or nothing when the limit is
  reached first and the query is dropped.
\<close>

record 'w runtime =
  rt_now :: "'w \<Rightarrow> nat \<times> 'w"
  rt_sleep :: "duration \<Rightarrow> 'w \<Rightarrow> 'w"
  rt_acquire :: "duration \<Rightarrow> 'w \<Rightarrow> acquired \<times> 'w"
  rt_release :: "'w \<Rightarrow> 'w"
  rt_manager :: "nat \<Rightarrow> 'w exchange"
  rt_cluster :: "nat \<Rightarrow> 'w exchange"

text \<open>\<open>impl ConnectionLike for RedisBackend\<close>: both kinds of request go to the wrapped connection.\<close>

fun backend_send :: "'w runtime \<Rightarrow> redis_backend \<Rightarrow> 'w exchange" where
  "backend_send rt (StandaloneConn h) = rt_manager rt h"
| "backend_send rt (ClusterConn h) = rt_cluster rt h"

text \<open>The database number is the driver's own, of a manager or of a cluster connection.\<close>

fun backend_get_db :: "(nat \<Rightarrow> int) \<Rightarrow> (nat \<Rightarrow> int) \<Rightarrow> redis_backend \<Rightarrow> int" where
  "backend_get_db manager_db cluster_db (StandaloneConn h) = manager_db h"
| "backend_get_db manager_db cluster_db (ClusterConn h) = cluster_db h"

text \<open>\<open>timeout(budget, f(conn))\<close>: the body runs until it ends or the budget is used up (\<open>None\<close>).\<close>

primrec run_job :: "'w runtime \<Rightarrow> redis_backend \<Rightarrow> 'a job \<Rightarrow> duration \<Rightarrow> 'w \<Rightarrow> 'a res option \<times> 'w" where
  "run_job rt conn (Done r) budget w = (Some r, w)"
| "run_job rt conn (Query req k) budget w =
     (case backend_send rt conn req budget w of
        (None, w) \<Rightarrow> (None, w)
      | (Some (reply, left), w) \<Rightarrow> run_job rt conn (k reply) left w)"

section \<open>Documented behaviour of the runtime\<close>

text \<open>
  With \<open>time\<close> the clock behind a world: a reading is the current time and time never runs back; a
  sleep lasts at least as asked; a wait or an exchange under a limit is over within the limit, and
  every one of them is late by at most \<open>late\<close>. An exchange reports no more time left than there is.
\<close>

definition timely :: "('w \<Rightarrow> nat) \<Rightarrow> duration \<Rightarrow> 'w exchange \<Rightarrow> bool" where
  "timely time late x \<longleftrightarrow>
     (\<forall>req budget w. case x req budget w of
        (None, w') \<Rightarrow> time w \<le> time w' \<and> time w' \<le> time w + budget + late
      | (Some (reply, left), w') \<Rightarrow> time w \<le> time w' \<and> time w' + left \<le> time w + budget + late)"

definition runtime_ok :: "('w \<Rightarrow> nat) \<Rightarrow> duration \<Rightarrow> 'w runtime \<Rightarrow> bool" where
  "runtime_ok time late rt \<longleftrightarrow>
     (\<forall>w. time w \<le> time (snd (rt_now rt w)) \<and> fst (rt_now rt w) = time (snd (rt_now rt w)) \<and>
        time (snd (rt_now rt w)) \<le> time w + late) \<and>
     (\<forall>d w. time w + d \<le> time (rt_sleep rt d w) \<and> time (rt_sleep rt d w) \<le> time w + d + late) \<and>
     (\<forall>b w. time w \<le> time (snd (rt_acquire rt b w)) \<and> time (snd (rt_acquire rt b w)) \<le> time w + b + late) \<and>
     (\<forall>w. time w \<le> time (rt_release rt w) \<and> time (rt_release rt w) \<le> time w + late) \<and>
     (\<forall>h. timely time late (rt_manager rt h)) \<and> (\<forall>h. timely time late (rt_cluster rt h))"

lemma backend_timely: "runtime_ok time late rt \<Longrightarrow> timely time late (backend_send rt conn)"
  by (cases conn) (simp_all add: runtime_ok_def)

text \<open>A body of at most one query, as all bodies of the program are, keeps to its budget.\<close>

fun single_query :: "'a job \<Rightarrow> bool" where
  "single_query (Done r) = True"
| "single_query (Query req k) = (\<forall>reply. \<exists>r. k reply = Done r)"

lemma single_query_ask [simp, job_simps]: "single_query (ask conv req k)"
  by (simp add: ask_def)

lemma timelyD:
  assumes "timely time late x" and "x req budget w = (m, w')"
  shows "time w \<le> time w' \<and> time w' \<le> time w + budget + late"
proof -
  have "case x req budget w of (None, w') \<Rightarrow> time w \<le> time w' \<and> time w' \<le> time w + budget + late
      | (Some (reply, left), w') \<Rightarrow> time w \<le> time w' \<and> time w' + left \<le> time w + budget + late"
    using assms(1) by (simp only: timely_def)
  then show ?thesis
    unfolding assms(2) by (cases m) (auto split: prod.splits)
qed

lemma run_job_time:
  assumes "runtime_ok time late rt" and "single_query job" and "run_job rt conn job budget w = (r, w')"
  shows "time w \<le> time w' \<and> time w' \<le> time w + budget + late"
proof (cases job)
  case (Done x)
  with assms show ?thesis by simp
next
  case (Query req k)
  obtain m w1 where x: "backend_send rt conn req budget w = (m, w1)" by force
  have b: "time w \<le> time w1 \<and> time w1 \<le> time w + budget + late"
    using timelyD [OF backend_timely [OF assms(1)] x] .
  have "w' = w1"
  proof (cases m)
    case (Some rl)
    obtain reply left where rl: "rl = (reply, left)" by force
    obtain d where "k reply = Done d" using assms(2) Query by auto
    with x Query assms(3) Some rl show ?thesis by simp
  qed (use x Query assms(3) in simp)
  with b show ?thesis by simp
qed

text \<open>Conversions and clockwork to evaluate the model on: every reply converts to its obvious reading.\<close>

definition bad_reply :: driver_error where
  "bad_reply = \<lparr>kind = TypeError, shown = ''bad reply''\<rparr>"

definition sample_conversions :: conversions where
  "sample_conversions =
     \<lparr>as_unit = (\<lambda>_. Inr ()), as_int = (\<lambda>v. case v of IntValue n \<Rightarrow> Inr n | _ \<Rightarrow> Inl bad_reply),
      as_string = (\<lambda>v. case v of BulkString b \<Rightarrow> Inr b | SimpleString b \<Rightarrow> Inr b | _ \<Rightarrow> Inl bad_reply),
      as_opt_string = (\<lambda>v. case v of NilValue \<Rightarrow> Inr None | OkayValue \<Rightarrow> Inr (Some ''OK'') | _ \<Rightarrow> Inl bad_reply),
      as_opt_bytes = (\<lambda>v. case v of NilValue \<Rightarrow> Inr None | BulkString b \<Rightarrow> Inr (Some b) | _ \<Rightarrow> Inl bad_reply),
      as_bytes_list = (\<lambda>_. Inr []), as_opt_bytes_list = (\<lambda>_. Inr []), as_pairs = (\<lambda>_. Inr []),
      as_opt_pair = (\<lambda>_. Inr None), as_opt_float = (\<lambda>_. Inr None),
      as_bool = (\<lambda>v. case v of IntValue n \<Rightarrow> Inr (n = 1) | _ \<Rightarrow> Inl bad_reply),
      as_values = (\<lambda>_. Inr []), as_items = (\<lambda>_. Inr []), as_streams = (\<lambda>_. Inr None)\<rparr>"

end
