(* ===== verification/Kv.thy ===== *)
theory Kv
  imports Runtime
begin

text \<open>
  \<open>src/pool/kv.rs\<close>: the single-command bodies shared by pool, permit and client, with their checks
  on time-to-live values and their reading of integer replies.
\<close>

section \<open>Time to live\<close>

definition validate_ttl :: "duration option \<Rightarrow> unit res" where
  "validate_ttl ttl =
     (case ttl of
        None \<Rightarrow> Inr ()
      | Some d \<Rightarrow>
          if d = 0 then Inl (Config (Msg ''TTL must not be 0'' []))
          else if as_millis d = 0 then Inl (Config (Msg ''TTL below 1ms'' []))
          else Inr ())"

definition ttl_to_millis :: "duration \<Rightarrow> nat res" where
  "ttl_to_millis ttl =
     and_then (validate_ttl (Some ttl))
       (\<lambda>_. ok_or (Config (Msg ''TTL too large'' [])) (try_u64 (as_millis ttl)))"

section \<open>Command bodies\<close>

definition kv_get :: "conversions \<Rightarrow> string \<Rightarrow> bytes option job" where
  "kv_get cv key = ask (as_opt_bytes cv) (Method ''get'' [Text key]) Inr"

definition kv_set :: "conversions \<Rightarrow> string \<Rightarrow> bytes \<Rightarrow> unit job" where
  "kv_set cv key v = ask (as_unit cv) (Method ''set'' [Text key, Bytes v]) (\<lambda>_. Inr ())"

definition kv_set_ex :: "conversions \<Rightarrow> string \<Rightarrow> bytes \<Rightarrow> duration \<Rightarrow> unit job" where
  "kv_set_ex cv key v ttl =
     (case ttl_to_millis ttl of
        Inl e \<Rightarrow> Done (Inl e)
      | Inr millis \<Rightarrow>
          ask (as_unit cv) (Method ''pset_ex'' [Text key, Bytes v, Number (int millis)]) (\<lambda>_. Inr ()))"

definition kv_del :: "conversions \<Rightarrow> string \<Rightarrow> bool job" where
  "kv_del cv key = ask (as_int cv) (Method ''del'' [Text key]) (\<lambda>removed. Inr (0 < removed))"

definition kv_exists :: "conversions \<Rightarrow> string \<Rightarrow> bool job" where
  "kv_exists cv key = ask (as_int cv) (Method ''exists'' [Text key]) (\<lambda>found. Inr (0 < found))"

definition kv_incr :: "conversions \<Rightarrow> string \<Rightarrow> int \<Rightarrow> int job" where
  "kv_incr cv key delta = ask (as_int cv) (Method ''incr'' [Text key, Number delta]) Inr"

definition kv_expire :: "conversions \<Rightarrow> string \<Rightarrow> duration \<Rightarrow> bool job" where
  "kv_expire cv key ttl =
     (case and_then (ttl_to_millis ttl)
             (\<lambda>ms. ok_or (Config (Msg ''TTL too large'' [])) (try_i64 ms)) of
        Inl e \<Rightarrow> Done (Inl e)
      | Inr millis \<Rightarrow>
          ask (as_int cv) (Command ''PEXPIRE'' [Text key, Number millis])
            (\<lambda>changed. Inr (0 < changed)))"

definition read_pttl :: "string \<Rightarrow> int \<Rightarrow> duration option res" where
  "read_pttl key millis =
     (if millis = - 2 then Inl (Missing (Msg ''redis key missing'' [key]))
      else if millis = - 1 then Inr None
      else if millis < 0 then Inl (Internal (Msg ''bad PTTL'' [show_int millis]))
      else Inr (Some (from_millis (nat millis))))"

definition kv_ttl :: "conversions \<Rightarrow> string \<Rightarrow> duration option job" where
  "kv_ttl cv key = ask (as_int cv) (Command ''PTTL'' [Text key]) (read_pttl key)"

definition kv_ping :: "conversions \<Rightarrow> unit job" where
  "kv_ping cv =
     ask (as_string cv) (Command ''PING'' [])
       (\<lambda>pong. if pong = [] then Inl (Internal (Msg ''PING gave an empty reply'' [])) else Inr ())"

lemmas kv_defs = kv_get_def kv_set_def kv_set_ex_def kv_del_def kv_exists_def kv_incr_def
  kv_expire_def kv_ttl_def kv_ping_def

lemma kv_single_query [simp, job_simps]:
  "single_query (kv_get cv key)" "single_query (kv_set cv key v)" "single_query (kv_set_ex cv key v ttl)"
  "single_query (kv_del cv key)" "single_query (kv_exists cv key)" "single_query (kv_incr cv key n)"
  "single_query (kv_expire cv key ttl)" "single_query (kv_ttl cv key)" "single_query (kv_ping cv)"
  by (simp_all add: kv_defs split: sum.split)

lemma ttl_to_millis_eq:
  "ttl_to_millis ttl =
    (if ttl = 0 then Inl (Config (Msg ''TTL must not be 0'' []))
     else if ttl < 1000000 then Inl (Config (Msg ''TTL below 1ms'' []))
     else if u64_max < as_millis ttl then Inl (Config (Msg ''TTL too large'' []))
     else Inr (as_millis ttl))"
  by (simp add: ttl_to_millis_def validate_ttl_def as_millis_zero_iff try_u64_def)

section \<open>Properties\<close>



text \<open>
  \<open>PTTL\<close> replies are read as documented: -2 is a missing key, -1 no expiry, any other negative
  number an internal error, and a lifetime of n milliseconds comes back as exactly n milliseconds; a
  lifetime that was sent comes back as sent.
\<close>

theorem pttl_reply_reading:
  "(as_int cv v = Inr n \<longrightarrow>
     outcome (kv_ttl cv key) [Inr v] = Some
       (if n = - 2 then Inl (Missing (Msg ''redis key missing'' [key]))
        else if n = - 1 then Inr None
        else if n < 0 then Inl (Internal (Msg ''bad PTTL'' [show_int n]))
        else Inr (Some (from_millis (nat n))))) \<and>
   (as_int cv v = Inr (int (as_millis ttl)) \<and> ttl mod 1000000 = 0 \<longrightarrow>
     outcome (kv_ttl cv key) [Inr v] = Some (Inr (Some ttl)))"
  by (auto simp: kv_ttl_def read_pttl_def from_millis_def as_millis_def)

theorem pttl_reply_reading_witness:
  "outcome (kv_ttl (sample_conversions\<lparr>as_int := (\<lambda>_. Inr 1500)\<rparr>) ''k'') [Inr (IntValue 1500)]
     = Some (Inr (Some (from_millis 1500)))"
  using pttl_reply_reading [of "sample_conversions\<lparr>as_int := (\<lambda>_. Inr 1500)\<rparr>" "IntValue 1500" 1500 "''k''"] by simp

end
