(* ===== verification/Pool.thy ===== *)
theory Pool
  imports Redis_Config Kv
begin

text \<open>
  \<open>src/pool.rs\<close>, \<open>src/pool/lifecycle.rs\<close>, \<open>src/pool/permit.rs\<close>: the shared pool record with its
  counters, lane acquisition with back pressure, the timed execution of a command on a lane, the
  total-deadline variant, and closing. A function here is one call as its caller sees it; at each
  await the other tasks may change the shared record (\<open>others\<close>).
\<close>

section \<open>State\<close>

record pool_inner =
  p_backend :: "redis_backend option"
  p_config :: redis_config
  p_max_in_flight :: nat
  p_in_flight :: "64 word"
  p_waiters :: "64 word"
  p_closed :: bool
  p_command_timeout :: duration
  p_acquire_timeout :: duration
  p_display_endpoint :: string
  p_reconnect_max_delay :: duration
  p_tcp_keepalive :: "duration option"
  p_commands_ok :: "64 word"
  p_commands_err :: "64 word"
  p_commands_timeout :: "64 word"
  p_acquire_timeout_count :: "64 word"
  p_rejected_closed :: "64 word"

record permit = pm_conn :: redis_backend

record pool_stats =
  st_open :: nat
  st_in_flight :: "64 word"
  st_waiters :: "64 word"

record metrics =
  m_commands_ok :: "64 word"
  m_commands_err :: "64 word"
  m_commands_timeout :: "64 word"
  m_acquire_timeout :: "64 word"
  m_rejected_closed :: "64 word"

record health =
  h_endpoint :: string
  h_latency :: duration
  h_mode :: redis_mode

record 'w env =
  rt :: "'w runtime"
  others :: "'w \<Rightarrow> pool_inner \<Rightarrow> pool_inner"

record 'w sys =
  world :: 'w
  pool :: pool_inner

text \<open>The atomic updates: \<open>fetch_add\<close> and \<open>fetch_sub\<close> wrap.\<close>

definition enter_wait :: "pool_inner \<Rightarrow> pool_inner" where [pool_simps]: "enter_wait p = p\<lparr>p_waiters := p_waiters p + 1\<rparr>"
definition leave_wait :: "pool_inner \<Rightarrow> pool_inner" where [pool_simps]: "leave_wait p = p\<lparr>p_waiters := p_waiters p - 1\<rparr>"
definition enter_flight :: "pool_inner \<Rightarrow> pool_inner" where [pool_simps]: "enter_flight p = p\<lparr>p_in_flight := p_in_flight p + 1\<rparr>"
definition leave_flight :: "pool_inner \<Rightarrow> pool_inner" where [pool_simps]: "leave_flight p = p\<lparr>p_in_flight := p_in_flight p - 1\<rparr>"
definition count_ok :: "pool_inner \<Rightarrow> pool_inner" where [pool_simps]: "count_ok p = p\<lparr>p_commands_ok := p_commands_ok p + 1\<rparr>"
definition count_err :: "pool_inner \<Rightarrow> pool_inner" where [pool_simps]: "count_err p = p\<lparr>p_commands_err := p_commands_err p + 1\<rparr>"
definition count_timeout :: "pool_inner \<Rightarrow> pool_inner" where [pool_simps]:
  "count_timeout p = p\<lparr>p_commands_timeout := p_commands_timeout p + 1\<rparr>"
definition count_acquire_timeout :: "pool_inner \<Rightarrow> pool_inner" where [pool_simps]:
  "count_acquire_timeout p = p\<lparr>p_acquire_timeout_count := p_acquire_timeout_count p + 1\<rparr>"
definition count_rejected :: "pool_inner \<Rightarrow> pool_inner" where [pool_simps]:
  "count_rejected p = p\<lparr>p_rejected_closed := p_rejected_closed p + 1\<rparr>"

definition upd :: "(pool_inner \<Rightarrow> pool_inner) \<Rightarrow> 'w sys \<Rightarrow> 'w sys" where [pool_simps]:
  "upd f s = s\<lparr>pool := f (pool s)\<rparr>"

definition read_clock :: "'w env \<Rightarrow> 'w sys \<Rightarrow> nat \<times> 'w sys" where
  "read_clock env s = (let (t, w) = rt_now (rt env) (world s) in (t, s\<lparr>world := w\<rparr>))"

text \<open>An await: the world moves on, and the other tasks with it.\<close>

definition await :: "'w env \<Rightarrow> ('w \<Rightarrow> 'x \<times> 'w) \<Rightarrow> 'w sys \<Rightarrow> 'x \<times> 'w sys" where
  "await env f s =
     (let (x, w) = f (world s) in (x, \<lparr>world = w, pool = others env w (pool s)\<rparr>))"

definition sleep_await :: "'w env \<Rightarrow> duration \<Rightarrow> 'w sys \<Rightarrow> 'w sys" where
  "sleep_await env d s = snd (await env (\<lambda>w. ((), rt_sleep (rt env) d w)) s)"

definition release :: "'w env \<Rightarrow> 'w sys \<Rightarrow> 'w sys" where
  "release env s = s\<lparr>world := rt_release (rt env) (world s)\<rparr>"

section \<open>Construction\<close>

text \<open>\<open>Semaphore::new\<close> panics (\<open>None\<close>) above \<open>MAX_PERMITS = usize::MAX >> 3\<close>.\<close>

definition semaphore_max :: nat where
  "semaphore_max = 2 ^ 61 - 1"

definition from_parts :: "redis_config \<Rightarrow> redis_backend option \<Rightarrow> pool_inner option" where
  "from_parts c b =
     (if semaphore_max < c_max_in_flight c then None
      else Some
        \<lparr>p_backend = b, p_config = c, p_max_in_flight = c_max_in_flight c, p_in_flight = 0,
         p_waiters = 0, p_closed = False, p_command_timeout = c_command_timeout c,
         p_acquire_timeout = c_acquire_timeout c, p_display_endpoint = display_endpoint c,
         p_reconnect_max_delay = c_reconnect_max_delay c, p_tcp_keepalive = c_tcp_keepalive c,
         p_commands_ok = 0, p_commands_err = 0, p_commands_timeout = 0,
         p_acquire_timeout_count = 0, p_rejected_closed = 0\<rparr>)"

definition pool_new :: "url_env \<Rightarrow> redis_config \<Rightarrow> pool_inner res option" where
  "pool_new uenv c =
     (case validate uenv c of
        Inl e \<Rightarrow> Some (Inl e)
      | Inr _ \<Rightarrow> map_option Inr (from_parts c None))"

section \<open>Lanes\<close>

definition pool_closed_error :: redis_error where
  "pool_closed_error = Connection (Msg ''pool closed'' [])"

definition acquire_with_timeout :: "'w env \<Rightarrow> duration \<Rightarrow> 'w sys \<Rightarrow> permit res \<times> 'w sys" where
  "acquire_with_timeout env budget s =
     (if p_closed (pool s) then (Inl pool_closed_error, upd count_rejected s)
      else
        case p_backend (pool s) of
          None \<Rightarrow> (Inl (Connection (Msg ''pool not connected'' [])), s)
        | Some conn \<Rightarrow>
            if budget = 0
            then (Inl (Timeout (Msg ''acquire budget is 0'' [])), upd count_acquire_timeout s)
            else
              let s = upd enter_wait s;
                  (acquired, s) = await env (rt_acquire (rt env) budget) s;
                  s = upd leave_wait s
              in case acquired of
                   Permit \<Rightarrow>
                     if p_closed (pool s)
                     then (Inl pool_closed_error, upd count_rejected (release env s))
                     else (Inr \<lparr>pm_conn = conn\<rparr>, upd enter_flight s)
                 | SemaphoreClosed \<Rightarrow> (Inl (Connection (Msg ''semaphore closed'' [])), s)
                 | Elapsed \<Rightarrow>
                     (Inl (Timeout (Msg ''acquire timed out'' [show_nat (p_max_in_flight (pool s))])),
                      upd count_acquire_timeout s))"

definition acquire :: "'w env \<Rightarrow> 'w sys \<Rightarrow> permit res \<times> 'w sys" where
  "acquire env s = acquire_with_timeout env (p_acquire_timeout (pool s)) s"

text \<open>Dropping a permit: \<open>Drop::drop\<close> first, then its field, the semaphore permit.\<close>

definition drop_permit :: "'w env \<Rightarrow> 'w sys \<Rightarrow> 'w sys" where
  "drop_permit env s = release env (upd leave_flight s)"

definition run_timed ::
    "'w env \<Rightarrow> permit \<Rightarrow> nat \<Rightarrow> duration \<Rightarrow> 'a job \<Rightarrow> 'w sys \<Rightarrow> 'a res \<times> 'w sys" where
  "run_timed env pm started_at budget job s =
     (if budget = 0 then
        let s = upd count_timeout s; (t, s) = read_clock env s
        in (Inl (Timeout (Msg ''command budget is 0'' [show_nat (as_millis (t - started_at))])), s)
      else
        case await env (run_job (rt env) (pm_conn pm) job budget) s of
          (Some (Inr v), s) \<Rightarrow> (Inr v, upd count_ok s)
        | (Some (Inl e), s) \<Rightarrow> (Inl e, upd count_err s)
        | (None, s) \<Rightarrow>
            let s = upd count_timeout s; (t, s) = read_clock env s
            in (Inl (Timeout (Msg ''command timed out''
                  [show_nat (as_millis budget), show_nat (as_millis (t - started_at))])), s))"

definition execute_with_budget ::
    "'w env \<Rightarrow> permit \<Rightarrow> nat \<Rightarrow> duration option \<Rightarrow> 'a job \<Rightarrow> 'w sys \<Rightarrow> 'a res \<times> 'w sys" where
  "execute_with_budget env pm started_at command_budget job s =
     (let budget = (case command_budget of Some b \<Rightarrow> b | None \<Rightarrow> p_command_timeout (pool s))
      in run_timed env pm started_at budget job s)"

definition execute_with_total_deadline ::
    "'w env \<Rightarrow> permit \<Rightarrow> nat \<Rightarrow> duration option \<Rightarrow> 'a job \<Rightarrow> 'w sys \<Rightarrow> 'a res \<times> 'w sys" where
  "execute_with_total_deadline env pm started_at limit job s =
     (case limit of
        Some limit \<Rightarrow>
          let (t, s) = read_clock env s; remaining = dur_saturating_sub limit (t - started_at) in
          if remaining = 0
          then (Inl (Timeout (Msg ''queueing used up the total deadline'' [])), upd count_timeout s)
          else run_timed env pm started_at (min remaining (p_command_timeout (pool s))) job s
      | None \<Rightarrow> run_timed env pm started_at (p_command_timeout (pool s)) job s)"

text \<open>The body of a call that holds a lane, and the return of the lane when the permit goes.\<close>

definition on_lane ::
    "'w env \<Rightarrow> permit res \<times> 'w sys \<Rightarrow> (permit \<Rightarrow> 'w sys \<Rightarrow> 'a res \<times> 'w sys) \<Rightarrow> 'a res \<times> 'w sys" where
  "on_lane env acquired body =
     (case acquired of
        (Inl e, s) \<Rightarrow> (Inl e, s)
      | (Inr pm, s) \<Rightarrow> let (r, s) = body pm s in (r, drop_permit env s))"

definition run :: "'w env \<Rightarrow> duration option \<Rightarrow> 'a job \<Rightarrow> 'w sys \<Rightarrow> 'a res \<times> 'w sys" where
  "run env command_budget job s =
     (if command_budget = Some 0 then (Inl (Timeout (Msg ''command budget is 0'' [])), s)
      else on_lane env (acquire env s)
        (\<lambda>pm s. let (t, s) = read_clock env s
                in execute_with_budget env pm t command_budget job s))"

definition run_total :: "'w env \<Rightarrow> duration option \<Rightarrow> 'a job \<Rightarrow> 'w sys \<Rightarrow> 'a res \<times> 'w sys" where
  "run_total env limit job s =
     (let (started_at, s) = read_clock env s;
          acquire_budget = (case limit of
             Some limit \<Rightarrow> min limit (p_acquire_timeout (pool s))
           | None \<Rightarrow> p_acquire_timeout (pool s))
      in on_lane env (acquire_with_timeout env acquire_budget s)
           (\<lambda>pm s. execute_with_total_deadline env pm started_at limit job s))"

definition with_conn :: "'w env \<Rightarrow> 'a job \<Rightarrow> 'w sys \<Rightarrow> 'a res \<times> 'w sys" where
  "with_conn env job s = run env None job s"

definition with_conn_budget :: "'w env \<Rightarrow> duration \<Rightarrow> 'a job \<Rightarrow> 'w sys \<Rightarrow> 'a res \<times> 'w sys" where
  "with_conn_budget env budget job s = run env (Some budget) job s"

definition with_conn_total_deadline ::
    "'w env \<Rightarrow> duration \<Rightarrow> 'a job \<Rightarrow> 'w sys \<Rightarrow> 'a res \<times> 'w sys" where
  "with_conn_total_deadline env limit job s =
     (if limit = 0 then (Inl (Timeout (Msg ''call deadline is 0'' [])), s)
      else run_total env (Some limit) job s)"

section \<open>Commands on a permit and on the pool\<close>

definition permit_run :: "'w env \<Rightarrow> permit \<Rightarrow> 'a job \<Rightarrow> 'w sys \<Rightarrow> 'a res \<times> 'w sys" where
  "permit_run env pm job s =
     (let (t, s) = read_clock env s in run_timed env pm t (p_command_timeout (pool s)) job s)"

definition permit_get where "permit_get env cv pm key = permit_run env pm (kv_get cv key)"
definition permit_set where "permit_set env cv pm key v = permit_run env pm (kv_set cv key v)"
definition permit_set_ex where
  "permit_set_ex env cv pm key v ttl = permit_run env pm (kv_set_ex cv key v ttl)"
definition permit_del where "permit_del env cv pm key = permit_run env pm (kv_del cv key)"
definition permit_exists where "permit_exists env cv pm key = permit_run env pm (kv_exists cv key)"
definition permit_incr where "permit_incr env cv pm key d = permit_run env pm (kv_incr cv key d)"
definition permit_expire where
  "permit_expire env cv pm key ttl = permit_run env pm (kv_expire cv key ttl)"
definition permit_ttl where "permit_ttl env cv pm key = permit_run env pm (kv_ttl cv key)"
definition permit_ping where "permit_ping env cv pm = permit_run env pm (kv_ping cv)"

definition pool_get where
  "pool_get env cv key s = on_lane env (acquire env s) (\<lambda>pm. permit_get env cv pm key)"
definition pool_set where
  "pool_set env cv key v s = on_lane env (acquire env s) (\<lambda>pm. permit_set env cv pm key v)"
definition pool_set_ex where
  "pool_set_ex env cv key v ttl s = on_lane env (acquire env s) (\<lambda>pm. permit_set_ex env cv pm key v ttl)"
definition pool_del where
  "pool_del env cv key s = on_lane env (acquire env s) (\<lambda>pm. permit_del env cv pm key)"
definition pool_exists where
  "pool_exists env cv key s = on_lane env (acquire env s) (\<lambda>pm. permit_exists env cv pm key)"
definition pool_incr where
  "pool_incr env cv key d s = on_lane env (acquire env s) (\<lambda>pm. permit_incr env cv pm key d)"
definition pool_expire where
  "pool_expire env cv key ttl s = on_lane env (acquire env s) (\<lambda>pm. permit_expire env cv pm key ttl)"
definition pool_ttl where
  "pool_ttl env cv key s = on_lane env (acquire env s) (\<lambda>pm. permit_ttl env cv pm key)"

definition pool_ping :: "'w env \<Rightarrow> conversions \<Rightarrow> 'w sys \<Rightarrow> duration res \<times> 'w sys" where
  "pool_ping env cv s =
     (let (start, s) = read_clock env s in
      case with_conn env (kv_ping cv) s of
        (Inl e, s) \<Rightarrow> (Inl e, s)
      | (Inr _, s) \<Rightarrow> let (t, s) = read_clock env s in (Inr (t - start), s))"

definition health_check :: "'w env \<Rightarrow> conversions \<Rightarrow> 'w sys \<Rightarrow> health res \<times> 'w sys" where
  "health_check env cv s =
     (let (r, s') = pool_ping env cv s in
      (map_ok (\<lambda>latency. \<lparr>h_endpoint = p_display_endpoint (pool s'), h_latency = latency,
         h_mode = c_mode (p_config (pool s'))\<rparr>) r, s'))"

definition readiness :: "'w env \<Rightarrow> conversions \<Rightarrow> 'w sys \<Rightarrow> duration res \<times> 'w sys" where
  "readiness env cv s =
     (if p_closed (pool s) then (Inl pool_closed_error, s) else pool_ping env cv s)"

definition liveness :: "pool_inner \<Rightarrow> bool" where
  "liveness p \<longleftrightarrow> p_backend p \<noteq> None \<and> \<not> p_closed p"

definition stats :: "pool_inner \<Rightarrow> pool_stats" where
  "stats p =
     \<lparr>st_open = (if p_backend p \<noteq> None \<and> \<not> p_closed p then p_max_in_flight p else 0),
      st_in_flight = p_in_flight p, st_waiters = p_waiters p\<rparr>"

definition metrics_snapshot :: "pool_inner \<Rightarrow> metrics" where
  "metrics_snapshot p =
     \<lparr>m_commands_ok = p_commands_ok p, m_commands_err = p_commands_err p,
      m_commands_timeout = p_commands_timeout p, m_acquire_timeout = p_acquire_timeout_count p,
      m_rejected_closed = p_rejected_closed p\<rparr>"

text \<open>Getters of the pool and of a permit, and their \<open>Debug\<close> output before rendering.\<close>

definition pool_config :: "pool_inner \<Rightarrow> redis_config" where "pool_config p = p_config p"
definition pool_endpoint :: "pool_inner \<Rightarrow> string" where "pool_endpoint p = p_display_endpoint p"
definition pool_command_timeout :: "pool_inner \<Rightarrow> duration" where "pool_command_timeout p = p_command_timeout p"
definition pool_command_lanes :: "pool_inner \<Rightarrow> nat" where "pool_command_lanes p = p_max_in_flight p"
definition pool_reconnect_max_delay :: "pool_inner \<Rightarrow> duration" where
  "pool_reconnect_max_delay p = p_reconnect_max_delay p"
definition pool_tcp_keepalive :: "pool_inner \<Rightarrow> duration option" where "pool_tcp_keepalive p = p_tcp_keepalive p"
definition is_closed :: "pool_inner \<Rightarrow> bool" where "is_closed p = p_closed p"
definition permit_endpoint :: "pool_inner \<Rightarrow> string" where "permit_endpoint p = p_display_endpoint p"
definition permit_command_timeout :: "pool_inner \<Rightarrow> duration" where "permit_command_timeout p = p_command_timeout p"

datatype debug_field = DStr string | DStats pool_stats | DBool bool

definition pool_debug :: "pool_inner \<Rightarrow> (string \<times> debug_field) list" where
  "pool_debug p =
     [(''endpoint'', DStr (p_display_endpoint p)), (''stats'', DStats (stats p)), (''closed'', DBool (is_closed p))]"

definition permit_debug :: "pool_inner \<Rightarrow> (string \<times> debug_field) list" where
  "permit_debug p = [(''endpoint'', DStr (p_display_endpoint p))]"

section \<open>Closing\<close>

partial_function (option) close_loop ::
    "'w env \<Rightarrow> duration \<Rightarrow> nat \<Rightarrow> 'w sys \<Rightarrow> (unit res \<times> 'w sys) option" where
  "close_loop env deadline start s =
     (let n = p_in_flight (pool s) in
      if n = 0 then Some (Inr (), s)
      else
        let (t, s) = read_clock env s in
        if deadline \<le> t - start
        then Some (Inl (Timeout (Msg ''close drain timed out'' [show_nat (unat n)])), s)
        else close_loop env deadline start (sleep_await env (from_millis 5) s))"

definition close :: "'w env \<Rightarrow> duration \<Rightarrow> 'w sys \<Rightarrow> (unit res \<times> 'w sys) option" where
  "close env deadline s =
     (let (start, s) = read_clock env (upd (p_closed_update (\<lambda>_. True)) s)
      in close_loop env deadline start s)"

section \<open>What the other tasks may do\<close>

text \<open>
  For the accounting of one call the other tasks at most close the pool while the call waits;
  \<open>later p q\<close>: the record \<open>q\<close> is \<open>p\<close>, closed in the meantime or not. The interleaving of the
  counters with other calls is the subject of the theory \<open>Pool_Conc\<close>.
\<close>

definition later :: "pool_inner \<Rightarrow> pool_inner \<Rightarrow> bool" where
  "later p q \<longleftrightarrow> q = p\<lparr>p_closed := p_closed q\<rparr> \<and> (p_closed p \<longrightarrow> p_closed q)"

definition others_ok :: "'w env \<Rightarrow> bool" where
  "others_ok env \<longleftrightarrow> (\<forall>w p. later p (others env w p))"

definition never_reopened :: "'w env \<Rightarrow> bool" where
  "never_reopened env \<longleftrightarrow> (\<forall>w p. p_closed p \<longrightarrow> p_closed (others env w p))"

lemma later_refl [simp, intro]: "later p p"
  by (simp add: later_def)

lemma later_trans: "later p q \<Longrightarrow> later q r \<Longrightarrow> later p r"
  unfolding later_def by (cases p; cases q; cases r) simp

lemma later_upd:
  "later p q \<Longrightarrow> later (enter_wait p) (enter_wait q)" "later p q \<Longrightarrow> later (leave_wait p) (leave_wait q)"
  "later p q \<Longrightarrow> later (enter_flight p) (enter_flight q)" "later p q \<Longrightarrow> later (leave_flight p) (leave_flight q)"
  "later p q \<Longrightarrow> later (count_ok p) (count_ok q)" "later p q \<Longrightarrow> later (count_err p) (count_err q)"
  "later p q \<Longrightarrow> later (count_timeout p) (count_timeout q)"
  "later p q \<Longrightarrow> later (count_acquire_timeout p) (count_acquire_timeout q)"
  "later p q \<Longrightarrow> later (count_rejected p) (count_rejected q)"
  unfolding later_def by (cases p; cases q; simp add: pool_simps)+

lemma wait_cancel [simp]: "leave_wait (enter_wait p) = p"
  by (cases p) (simp add: pool_simps)

lemma flight_cancel [simp]:
  "leave_flight (enter_flight p) = p" "leave_flight (count_ok (enter_flight p)) = count_ok p"
  "leave_flight (count_err (enter_flight p)) = count_err p"
  "leave_flight (count_timeout (enter_flight p)) = count_timeout p"
  by (cases p; simp add: pool_simps)+

lemma pool_upd [simp]: "pool (upd f s) = f (pool s)" "world (upd f s) = world s"
  by (simp_all add: upd_def)

lemma pool_release [simp]: "pool (release env s) = pool s"
  by (simp add: release_def)

lemma pool_read_clock: "read_clock env s = (t, s') \<Longrightarrow> pool s' = pool s"
  by (auto simp: read_clock_def split: prod.splits)

lemma pool_drop [simp]: "pool (drop_permit env s) = leave_flight (pool s)"
  by (simp add: drop_permit_def)

lemma pool_await: "others_ok env \<Longrightarrow> await env f s = (x, s') \<Longrightarrow> later (pool s) (pool s')"
  by (auto simp: await_def others_ok_def split: prod.splits)

lemma later_keeps:
  assumes "later p q"
  shows "p_backend q = p_backend p" "p_in_flight q = p_in_flight p" "p_waiters q = p_waiters p"
    "p_max_in_flight q = p_max_in_flight p" "p_acquire_timeout q = p_acquire_timeout p"
    "p_command_timeout q = p_command_timeout p"
    "p_commands_ok q = p_commands_ok p" "p_commands_err q = p_commands_err p"
    "p_commands_timeout q = p_commands_timeout p" "p_rejected_closed q = p_rejected_closed p"
    "p_acquire_timeout_count q = p_acquire_timeout_count p"
  using assms unfolding later_def by (cases p; cases q; simp)+

section \<open>One call\<close>

text \<open>What a failed acquire leaves behind.\<close>

definition refused :: "pool_inner \<Rightarrow> redis_error \<Rightarrow> pool_inner \<Rightarrow> bool" where
  "refused p e q \<longleftrightarrow>
     (e = pool_closed_error \<and> p_closed q \<and> later (count_rejected p) q) \<or>
     ((\<exists>m. e = Timeout m) \<and> later (count_acquire_timeout p) q) \<or>
     ((\<exists>m. e = Connection m) \<and> e \<noteq> pool_closed_error \<and> later p q)"

lemma acquire_spec:
  assumes "others_ok env" and "acquire_with_timeout env budget s = (r, s')"
  shows "case r of
      Inr pm \<Rightarrow> later (enter_flight (pool s)) (pool s') \<and> p_backend (pool s) = Some (pm_conn pm) \<and>
        \<not> p_closed (pool s') \<and> budget \<noteq> 0
    | Inl e \<Rightarrow> refused (pool s) e (pool s')"
proof (cases "p_closed (pool s)")
  case True
  with assms(2) show ?thesis
    by (auto simp: acquire_with_timeout_def refused_def pool_simps)
next
  case opened: False
  show ?thesis
  proof (cases "p_backend (pool s)")
    case None
    with assms(2) opened show ?thesis
      by (auto simp: acquire_with_timeout_def refused_def pool_closed_error_def)
  next
    case (Some conn)
    show ?thesis
    proof (cases "budget = 0")
      case True
      with assms(2) opened Some show ?thesis
        by (auto simp: acquire_with_timeout_def refused_def)
    next
      case False
      obtain a s1 where aw: "await env (rt_acquire (rt env) budget) (upd enter_wait s) = (a, s1)" by force
      then have "later (enter_wait (pool s)) (pool s1)" using pool_await [OF assms(1) aw] by simp
      then have left: "later (pool s) (leave_wait (pool s1))" using later_upd(2) wait_cancel by metis
      have cl: "p_closed (leave_wait (pool s1)) = p_closed (pool s1)" by (simp add: pool_simps)
      have kept: "p_closed (count_rejected p) = p_closed p" "p_closed (enter_flight p) = p_closed p" for p
        by (simp_all add: pool_simps)
      have eq: "acquire_with_timeout env budget s =
          (let s = upd leave_wait s1 in case a of
             Permit \<Rightarrow> if p_closed (pool s) then (Inl pool_closed_error, upd count_rejected (release env s))
               else (Inr \<lparr>pm_conn = conn\<rparr>, upd enter_flight s)
           | SemaphoreClosed \<Rightarrow> (Inl (Connection (Msg ''semaphore closed'' [])), s)
           | Elapsed \<Rightarrow> (Inl (Timeout (Msg ''acquire timed out'' [show_nat (p_max_in_flight (pool s))])),
               upd count_acquire_timeout s))"
        using opened Some False aw by (simp add: acquire_with_timeout_def)
      show ?thesis
      proof (cases a)
        case Permit
        show ?thesis
        proof (cases "p_closed (pool s1)")
          case True
          with assms(2) eq cl Permit have r: "r = Inl pool_closed_error"
            and p: "pool s' = count_rejected (leave_wait (pool s1))" by auto
          show ?thesis unfolding r p using True cl kept(1) later_upd(9) [OF left]
            by (simp add: refused_def)
        next
          case notc: False
          with assms(2) eq cl Permit have r: "r = Inr \<lparr>pm_conn = conn\<rparr>"
            and p: "pool s' = enter_flight (leave_wait (pool s1))" by auto
          show ?thesis unfolding r p using notc cl kept(2) later_upd(3) [OF left] Some False by simp
        qed
      next
        case SemaphoreClosed
        with assms(2) eq left show ?thesis by (auto simp: refused_def pool_closed_error_def)
      next
        case Elapsed
        with assms(2) eq later_upd(8) [OF left] show ?thesis by (auto simp: refused_def)
      qed
    qed
  qed
qed

text \<open>What a command on a lane leaves behind: one count, of its own kind.\<close>

definition finished :: "pool_inner \<Rightarrow> 'a res \<Rightarrow> pool_inner \<Rightarrow> bool" where
  "finished p r q \<longleftrightarrow>
     (case r of
        Inr _ \<Rightarrow> later (count_ok p) q
      | Inl e \<Rightarrow> later (count_err p) q \<or> (\<exists>m. e = Timeout m) \<and> later (count_timeout p) q)"

lemma run_timed_spec:
  assumes "others_ok env" and "run_timed env pm t budget job s = (r, s')"
  shows "finished (pool s) r (pool s')"
proof (cases "budget = 0")
  case True
  with assms(2) show ?thesis
    by (auto simp: run_timed_def finished_def Let_def dest: pool_read_clock split: prod.splits)
next
  case False
  obtain m s1 where aw: "await env (run_job (rt env) (pm_conn pm) job budget) s = (m, s1)" by force
  from pool_await [OF assms(1) aw] have l: "later (pool s) (pool s1)" .
  show ?thesis
  proof (cases m)
    case None
    with assms(2) False aw l show ?thesis
      by (auto simp: run_timed_def finished_def Let_def later_upd dest: pool_read_clock split: prod.splits)
  next
    case (Some x)
    with assms(2) False aw l show ?thesis
      by (cases x) (auto simp: run_timed_def finished_def Let_def later_upd)
  qed
qed

text \<open>What a call as a whole leaves behind: its lane and its place in the queue are given back.\<close>

definition accounted :: "pool_inner \<Rightarrow> 'a res \<Rightarrow> pool_inner \<Rightarrow> bool" where
  "accounted p r q \<longleftrightarrow> finished p r q \<or> (\<exists>e. r = Inl e \<and> refused p e q)"

text \<open>
  The contract between a lane and what runs on it: the body counts its outcome once and touches
  nothing else. Whoever keeps it is accounted for as a whole, with the lane returned.
\<close>

locale lane_body =
  fixes body :: "'w env \<Rightarrow> permit \<Rightarrow> 'w sys \<Rightarrow> 'a res \<times> 'w sys"
  assumes counts_once: "others_ok env \<Longrightarrow> body env pm s = (r, s') \<Longrightarrow> finished (pool s) r (pool s')"
begin

lemma lane_accounted:
  assumes "others_ok env" and "on_lane env (acquire_with_timeout env budget s) (body env) = (r, s')"
  shows "accounted (pool s) r (pool s')"
proof -
  obtain a s1 where acq: "acquire_with_timeout env budget s = (a, s1)" by force
  show ?thesis
  proof (cases a)
    case (Inl e)
    with acq assms acquire_spec [OF assms(1) acq] show ?thesis
      by (auto simp: on_lane_def accounted_def)
  next
    case (Inr pm)
    obtain x s2 where b: "body env pm s1 = (x, s2)" by force
    have fin: "finished (pool s1) x (pool s2)" by (rule counts_once [OF assms(1) b])
    have l: "later (enter_flight (pool s)) (pool s1)" using acquire_spec [OF assms(1) acq] Inr by simp
    have res: "r = x" "pool s' = leave_flight (pool s2)"
      using assms(2) acq Inr b by (auto simp: on_lane_def)
    have "later (g (enter_flight (pool s))) (pool s2) \<Longrightarrow>
        leave_flight (g (enter_flight (pool s))) = g (pool s) \<Longrightarrow> later (g (pool s)) (leave_flight (pool s2))" for g
      using later_upd(4) by metis
    moreover have "later (g (pool s1)) (pool s2) \<Longrightarrow> later (g (enter_flight (pool s))) (g (pool s1)) \<Longrightarrow>
        later (g (enter_flight (pool s))) (pool s2)" for g
      using later_trans by blast
    ultimately have "finished (pool s) x (leave_flight (pool s2))"
      using fin later_upd(5-7) [OF l] by (cases x) (auto simp: finished_def)
    with res show ?thesis by (simp add: accounted_def)
  qed
qed

end

lemma execute_with_budget_spec:
  "others_ok env \<Longrightarrow> execute_with_budget env pm t b job s = (r, s') \<Longrightarrow> finished (pool s) r (pool s')"
  unfolding execute_with_budget_def Let_def by (rule run_timed_spec)

lemma execute_with_total_deadline_spec:
  assumes "others_ok env" and "execute_with_total_deadline env pm t limit job s = (r, s')"
  shows "finished (pool s) r (pool s')"
proof (cases limit)
  case None
  with assms run_timed_spec [OF assms(1)] show ?thesis by (simp add: execute_with_total_deadline_def)
next
  case (Some d)
  obtain u s1 where c: "read_clock env s = (u, s1)" by force
  with Some assms run_timed_spec [OF assms(1), of pm t _ job s1 r s'] pool_read_clock [OF c] show ?thesis
    by (auto simp: execute_with_total_deadline_def Let_def finished_def split: if_splits)
qed

lemma clocked_body:
  assumes "\<And>t s. f t s = (r, s') \<Longrightarrow> finished (pool s) r (pool s')"
    and "(let (t, s) = read_clock env s in f t s) = (r, s')"
  shows "finished (pool s) r (pool s')"
proof -
  obtain t u where c: "read_clock env s = (t, u)" by force
  with assms(2) have "finished (pool u) r (pool s')" by (intro assms(1) [of t u]) simp
  then show ?thesis by (simp add: pool_read_clock [OF c])
qed

interpretation budgeted: lane_body
    "\<lambda>env pm s. let (t, s) = read_clock env s in execute_with_budget env pm t b job s" for b job
  by unfold_locales (rule clocked_body [OF execute_with_budget_spec])

interpretation limited: lane_body
    "\<lambda>env pm s. execute_with_total_deadline env pm t limit job s" for t limit job
  by unfold_locales (rule execute_with_total_deadline_spec)

interpretation single: lane_body "\<lambda>env pm s. permit_run env pm job s" for job
  by unfold_locales (unfold permit_run_def, rule clocked_body [OF run_timed_spec])

lemma run_accounted:
  "others_ok env \<Longrightarrow> b \<noteq> Some 0 \<Longrightarrow> run env b job s = (r, s') \<Longrightarrow> accounted (pool s) r (pool s')"
  unfolding run_def acquire_def by (rule budgeted.lane_accounted) simp_all

lemma run_total_accounted:
  assumes "others_ok env" and "run_total env limit job s = (r, s')"
  shows "accounted (pool s) r (pool s')"
proof -
  obtain t s1 where c: "read_clock env s = (t, s1)" by force
  with assms(2) have "on_lane env (acquire_with_timeout env
        (case limit of Some limit \<Rightarrow> min limit (p_acquire_timeout (pool s1)) | None \<Rightarrow> p_acquire_timeout (pool s1)) s1)
      (\<lambda>pm s. execute_with_total_deadline env pm t limit job s) = (r, s')"
    by (simp add: run_total_def Let_def)
  from limited.lane_accounted [OF assms(1) this] show ?thesis by (simp add: pool_read_clock [OF c])
qed

lemma metrics_of_counts [simp]:
  "metrics_snapshot (count_ok p) = (metrics_snapshot p)\<lparr>m_commands_ok := p_commands_ok p + 1\<rparr>"
  "metrics_snapshot (count_err p) = (metrics_snapshot p)\<lparr>m_commands_err := p_commands_err p + 1\<rparr>"
  "metrics_snapshot (count_timeout p) = (metrics_snapshot p)\<lparr>m_commands_timeout := p_commands_timeout p + 1\<rparr>"
  "metrics_snapshot (count_acquire_timeout p) =
     (metrics_snapshot p)\<lparr>m_acquire_timeout := p_acquire_timeout_count p + 1\<rparr>"
  "metrics_snapshot (count_rejected p) = (metrics_snapshot p)\<lparr>m_rejected_closed := p_rejected_closed p + 1\<rparr>"
  by (simp_all add: metrics_snapshot_def pool_simps)

lemma flights_of_counts [simp]:
  "p_in_flight (count_ok p) = p_in_flight p" "p_in_flight (count_err p) = p_in_flight p"
  "p_in_flight (count_timeout p) = p_in_flight p" "p_in_flight (count_acquire_timeout p) = p_in_flight p"
  "p_in_flight (count_rejected p) = p_in_flight p"
  "p_waiters (count_ok p) = p_waiters p" "p_waiters (count_err p) = p_waiters p"
  "p_waiters (count_timeout p) = p_waiters p" "p_waiters (count_acquire_timeout p) = p_waiters p"
  "p_waiters (count_rejected p) = p_waiters p"
  by (simp_all add: pool_simps)

lemma accounted_metrics:
  assumes "accounted p r q"
  shows "p_in_flight q = p_in_flight p \<and> p_waiters q = p_waiters p \<and>
    (case r of
       Inr _ \<Rightarrow> metrics_snapshot q = (metrics_snapshot p)\<lparr>m_commands_ok := p_commands_ok p + 1\<rparr>
     | Inl e \<Rightarrow>
         metrics_snapshot q = (metrics_snapshot p)\<lparr>m_commands_err := p_commands_err p + 1\<rparr> \<or>
         (\<exists>m. e = Timeout m) \<and>
           (metrics_snapshot q = (metrics_snapshot p)\<lparr>m_commands_timeout := p_commands_timeout p + 1\<rparr> \<or>
            metrics_snapshot q = (metrics_snapshot p)\<lparr>m_acquire_timeout := p_acquire_timeout_count p + 1\<rparr>) \<or>
         e = pool_closed_error \<and>
           metrics_snapshot q = (metrics_snapshot p)\<lparr>m_rejected_closed := p_rejected_closed p + 1\<rparr> \<or>
         (\<exists>m. e = Connection m) \<and> metrics_snapshot q = metrics_snapshot p)"
proof -
  have snap: "later p' q \<Longrightarrow> metrics_snapshot q = metrics_snapshot p' \<and> p_in_flight q = p_in_flight p' \<and>
      p_waiters q = p_waiters p'" for p'
    by (simp add: metrics_snapshot_def later_keeps)
  show ?thesis
  proof (cases r)
    case (Inr v)
    with assms have "later (count_ok p) q" by (simp add: accounted_def finished_def)
    from snap [OF this] Inr show ?thesis by simp
  next
    case (Inl e)
    with assms consider "later (count_err p) q"
      | m where "e = Timeout m" "later (count_timeout p) q"
      | m where "e = Timeout m" "later (count_acquire_timeout p) q"
      | "e = pool_closed_error" "later (count_rejected p) q"
      | m where "e = Connection m" "later p q"
      by (auto simp: accounted_def finished_def refused_def)
    then show ?thesis
    proof cases
      case 1 from snap [OF 1] Inl show ?thesis by simp
    next
      case 2 from snap [OF 2(2)] 2(1) Inl show ?thesis by simp
    next
      case 3 from snap [OF 3(2)] 3(1) Inl show ?thesis by simp
    next
      case 4 from snap [OF 4(2)] 4(1) Inl show ?thesis by simp
    next
      case 5 from snap [OF 5(2)] 5(1) Inl show ?thesis by simp
    qed
  qed
qed

section \<open>Time\<close>

lemma read_clock_time:
  assumes "runtime_ok time late (rt env)" and "read_clock env s = (t, s')"
  shows "t = time (world s')" "time (world s) \<le> t" "t \<le> time (world s) + late"
  using assms by (auto simp: read_clock_def runtime_ok_def prod_eq_iff split: prod.splits)

lemma await_time:
  assumes "await env f s = (x, s')"
  shows "world s' = snd (f (world s))"
  using assms by (auto simp: await_def split: prod.splits)

lemma release_time:
  assumes "runtime_ok time late (rt env)"
  shows "time (world (release env s)) \<le> time (world s) + late"
  using assms by (simp add: release_def runtime_ok_def)

lemma acquire_time:
  assumes "runtime_ok time late (rt env)" and "acquire_with_timeout env budget s = (r, s')"
  shows "time (world s') \<le> time (world s) + budget + (if is_ok r then late else 2 * late)"
proof (cases "p_closed (pool s) \<or> p_backend (pool s) = None \<or> budget = 0")
  case True
  with assms(2) have "world s' = world s"
    by (auto simp: acquire_with_timeout_def split: option.splits if_splits)
  then show ?thesis by simp
next
  case False
  then obtain conn where b: "p_backend (pool s) = Some conn" by auto
  obtain a s1 where aw: "await env (rt_acquire (rt env) budget) (upd enter_wait s) = (a, s1)" by force
  have "time (world s1) \<le> time (world s) + budget + late"
    using assms(1) await_time [OF aw] by (simp add: runtime_ok_def)
  moreover have "time (world (release env (upd leave_wait s1))) \<le> time (world s1) + late"
    using release_time [OF assms(1), of "upd leave_wait s1"] by simp
  ultimately show ?thesis
    using assms(2) False b aw
    by (cases a) (auto simp: acquire_with_timeout_def Let_def split: if_splits)
qed

lemma run_timed_time:
  assumes "runtime_ok time late (rt env)" and "single_query job" and "run_timed env pm t budget job s = (r, s')"
  shows "time (world s') \<le> time (world s) + budget + 2 * late"
proof (cases "budget = 0")
  case True
  with assms(3) show ?thesis
    using read_clock_time [OF assms(1)] by (fastforce simp: run_timed_def Let_def split: prod.splits)
next
  case False
  obtain m s1 where aw: "await env (run_job (rt env) (pm_conn pm) job budget) s = (m, s1)" by force
  obtain m' w where j: "run_job (rt env) (pm_conn pm) job budget (world s) = (m', w)" by force
  have one: "time (world s1) \<le> time (world s) + budget + late"
    using run_job_time [OF assms(1,2) j] await_time [OF aw] j by simp
  show ?thesis
  proof (cases m)
    case None
    obtain u s2 where c: "read_clock env (upd count_timeout s1) = (u, s2)" by force
    with None False aw assms(3) have "s' = s2" by (auto simp: run_timed_def)
    with read_clock_time [OF assms(1) c] one show ?thesis by simp
  next
    case (Some x)
    with False aw assms(3) have "world s' = world s1" by (cases x) (auto simp: run_timed_def)
    with one show ?thesis by simp
  qed
qed

lemma drop_time:
  "runtime_ok time late (rt env) \<Longrightarrow> time (world (drop_permit env s)) \<le> time (world s) + late"
  using release_time [of time late env "upd leave_flight s"] by (simp add: drop_permit_def)

lemma total_body_time:
  assumes "runtime_ok time late (rt env)" and "single_query job"
    and "execute_with_total_deadline env pm t0 (Some limit) job s = (r, s')"
    and "time (world s) \<le> t0 + limit + late"
  shows "time (world s') \<le> t0 + limit + 3 * late"
proof -
  obtain t s1 where c: "read_clock env s = (t, s1)" by force
  note clock = read_clock_time [OF assms(1) c]
  show ?thesis
  proof (cases "limit - (t - t0) = 0")
    case True
    with assms(3) c have "world s' = world s1"
      by (auto simp: execute_with_total_deadline_def dur_saturating_sub_def Let_def)
    with clock assms(4) show ?thesis by simp
  next
    case False
    with assms(3) c have "run_timed env pm t0 (min (limit - (t - t0)) (p_command_timeout (pool s1))) job s1 = (r, s')"
      by (auto simp: execute_with_total_deadline_def dur_saturating_sub_def Let_def)
    from run_timed_time [OF assms(1,2) this] clock(1) False show ?thesis by linarith
  qed
qed

lemma run_total_time:
  assumes "runtime_ok time late (rt env)" and "single_query job" and "run_total env (Some limit) job s = (r, s')"
  shows "time (world s') \<le> time (world s) + limit + 5 * late"
proof -
  obtain t0 s1 where c: "read_clock env s = (t0, s1)" by force
  note clock = read_clock_time [OF assms(1) c]
  obtain a s2 where acq: "acquire_with_timeout env (min limit (p_acquire_timeout (pool s1))) s1 = (a, s2)" by force
  note acq_time = acquire_time [OF assms(1) acq]
  show ?thesis
  proof (cases a)
    case (Inl e)
    with assms(3) c acq have "s' = s2" by (simp add: run_total_def on_lane_def)
    with acq_time Inl clock show ?thesis by simp
  next
    case (Inr pm)
    obtain x s3 where b: "execute_with_total_deadline env pm t0 (Some limit) job s2 = (x, s3)" by force
    with assms(3) c acq Inr have s': "s' = drop_permit env s3" by (simp add: run_total_def on_lane_def)
    have "time (world s2) \<le> t0 + limit + late" using acq_time Inr clock(1) by simp
    from total_body_time [OF assms(1,2) b this] drop_time [OF assms(1), of s3] clock(3)
    show ?thesis unfolding s' by linarith
  qed
qed

lemma total_deadline_time:
  assumes "runtime_ok time late (rt env)" and "single_query job"
    and "with_conn_total_deadline env limit job s = (r, s')"
  shows "time (world s') \<le> time (world s) + limit + 5 * late"
  using assms(3) run_total_time [OF assms(1,2), of limit s r s']
  by (cases "limit = 0") (auto simp: with_conn_total_deadline_def)

section \<open>Closing ends\<close>

lemma close_loop_returns:
  assumes clock: "runtime_ok time late (rt env)" and shut: "never_reopened env"
  shows "p_closed (pool s) \<Longrightarrow> start \<le> time (world s) \<Longrightarrow> \<exists>r s'. close_loop env deadline start s = Some (r, s') \<and>
    p_closed (pool s') \<and> is_ok r = (p_in_flight (pool s') = 0) \<and>
    (time (world s') \<le> time (world s) + late \<or> time (world s') \<le> start + deadline + 5000000 + 3 * late)"
proof (induction "start + deadline - time (world s)" arbitrary: s rule: less_induct)
  case less
  obtain t s1 where c: "read_clock env s = (t, s1)" by force
  note rc = read_clock_time [OF clock c] pool_read_clock [OF c]
  show ?case
  proof (cases "p_in_flight (pool s) = 0 \<or> deadline \<le> t - start")
    case True
    with less.prems c rc show ?thesis
      by (subst close_loop.simps) (auto simp: Let_def)
  next
    case False
    define s2 where "s2 = sleep_await env (from_millis 5) s1"
    have w2: "world s2 = rt_sleep (rt env) 5000000 (world s1)"
      by (simp add: s2_def sleep_await_def await_def from_millis_def)
    have p2: "pool s2 = others env (world s2) (pool s1)"
      by (simp add: s2_def sleep_await_def await_def)
    have t2: "t + 5000000 \<le> time (world s2)" "time (world s2) \<le> t + 5000000 + late"
      using clock rc(1) w2 by (simp_all add: runtime_ok_def)
    have cl: "p_closed (pool s2)" using shut less.prems(1) rc(4) p2 by (simp add: never_reopened_def)
    have "start + deadline - time (world s2) < start + deadline - time (world s)"
      using False rc t2 by linarith
    moreover have "start \<le> time (world s2)" using less.prems(2) rc t2 by linarith
    ultimately obtain r s' where "close_loop env deadline start s2 = Some (r, s')" "p_closed (pool s')"
      "is_ok r = (p_in_flight (pool s') = 0)"
      "time (world s') \<le> time (world s2) + late \<or> time (world s') \<le> start + deadline + 5000000 + 3 * late"
      using less.hyps [OF _ cl] by blast
    moreover have "close_loop env deadline start s = close_loop env deadline start s2"
      using False c by (subst close_loop.simps) (simp add: Let_def s2_def)
    moreover have "time (world s2) + late \<le> start + deadline + 5000000 + 2 * late"
      using False t2 rc by linarith
    ultimately show ?thesis by fastforce
  qed
qed

section \<open>Properties\<close>


definition sample_runtime :: "nat runtime" where
  "sample_runtime =
     \<lparr>rt_now = (\<lambda>t. (t, t)), rt_sleep = (\<lambda>d t. t + d), rt_acquire = (\<lambda>_ t. (Permit, t)),
      rt_release = (\<lambda>t. t), rt_manager = (\<lambda>_ req budget t. (Some (Inr (BulkString ''v''), budget), t)),
      rt_cluster = (\<lambda>_ req budget t. (None, t + budget))\<rparr>"

definition sample_env :: "nat env" where
  "sample_env = \<lparr>rt = sample_runtime, others = (\<lambda>_ p. p)\<rparr>"

definition sample_pool :: pool_inner where
  "sample_pool =
     \<lparr>p_backend = Some (StandaloneConn 0), p_config = default_config, p_max_in_flight = 256,
      p_in_flight = 0, p_waiters = 0, p_closed = False, p_command_timeout = from_secs 3,
      p_acquire_timeout = from_secs 3, p_display_endpoint = [], p_reconnect_max_delay = from_secs 5,
      p_tcp_keepalive = None, p_commands_ok = 0, p_commands_err = 0, p_commands_timeout = 0,
      p_acquire_timeout_count = 0, p_rejected_closed = 0\<rparr>"

lemma sample_runtime_ok: "runtime_ok id 0 sample_runtime"
  by (simp add: runtime_ok_def sample_runtime_def timely_def)

lemma sample_env_ok: "others_ok sample_env" "never_reopened sample_env" "runtime_ok id 0 (rt sample_env)"
  using sample_runtime_ok by (simp_all add: others_ok_def never_reopened_def sample_env_def)


text \<open>
  C12. The total deadline covers queueing and execution: a call with a total deadline is over by that
  deadline, up to five times the lateness of the runtime, whatever the acquire and command timeouts
  of the pool are. A deadline of zero is refused without touching the pool.
\<close>

theorem total_deadline_bounds_call:
  assumes "runtime_ok time late (rt env)" and "single_query job"
    and "with_conn_total_deadline env limit job s = (r, s')"
  shows "time (world s') \<le> time (world s) + limit + 5 * late \<and>
    (limit = 0 \<longrightarrow> s' = s \<and> (\<exists>m. r = Inl (Timeout m)))"
  using total_deadline_time [OF assms] assms(3) by (auto simp: with_conn_total_deadline_def)

theorem total_deadline_bounds_call_witness:
  "world (snd (with_conn_total_deadline sample_env 100 (kv_ping sample_conversions)
     \<lparr>world = 0, pool = sample_pool\<lparr>p_backend := Some (ClusterConn 0)\<rparr>\<rparr>)) \<le> 100"
proof -
  let ?s = "\<lparr>world = 0, pool = sample_pool\<lparr>p_backend := Some (ClusterConn 0)\<rparr>\<rparr>"
  obtain r s' where run: "with_conn_total_deadline sample_env 100 (kv_ping sample_conversions) ?s = (r, s')" by force
  show ?thesis
    using total_deadline_bounds_call [OF sample_env_ok(3) _ run] run by simp
qed

text \<open>
  A pool that is closed, or was never connected, sends nothing: every attempt to get a lane,
  and so every call, returns at once with a connection error and the outside world untouched, a closed pool counts the rejection, readiness
  and liveness are negative and no lane is reported open.
\<close>

theorem unusable_pool_sends_nothing:
  assumes "p_closed (pool s) \<or> p_backend (pool s) = None"
  shows "(\<exists>m s'. with_conn env job s = (Inl (Connection m), s') \<and> world s' = world s \<and>
      pool s' = (if p_closed (pool s) then count_rejected (pool s) else pool s)) \<and>
    (p_closed (pool s) \<longrightarrow> readiness env cv s = (Inl pool_closed_error, s)) \<and>
    (\<forall>budget. \<exists>m s'. acquire_with_timeout env budget s = (Inl (Connection m), s') \<and> world s' = world s) \<and>
    \<not> liveness (pool s) \<and> st_open (stats (pool s)) = 0"
  using assms
  by (auto simp: with_conn_def run_def on_lane_def acquire_def acquire_with_timeout_def readiness_def
      liveness_def stats_def pool_closed_error_def)

theorem unusable_pool_sends_nothing_witness:
  "\<exists>m s'. with_conn sample_env (kv_ping sample_conversions) \<lparr>world = 0, pool = sample_pool\<lparr>p_closed := True\<rparr>\<rparr>
     = (Inl (Connection m), s') \<and> world s' = 0"
  using unusable_pool_sends_nothing [of "\<lparr>world = 0, pool = sample_pool\<lparr>p_closed := True\<rparr>\<rparr>" sample_env "kv_ping sample_conversions" sample_conversions]
  by (simp, blast)

text \<open>
  C33. Closing always returns: under a clock that keeps time and with tasks that never reopen the
  pool, the drain loop ends, at the latest one poll of 5 ms after the deadline (up to the lateness
  of the runtime); the pool is closed then, success means that no command was in flight when it was
  last looked at, a timeout that some were; and every later acquire is rejected.
\<close>

theorem close_returns:
  assumes "runtime_ok time late (rt env)" and "never_reopened env"
  shows "\<exists>r s'. close env deadline s = Some (r, s') \<and> p_closed (pool s') \<and>
    is_ok r = (p_in_flight (pool s') = 0) \<and>
    time (world s') \<le> time (world s) + deadline + 5000000 + 4 * late \<and>
    fst (acquire env s') = Inl pool_closed_error"
proof -
  let ?s = "upd (p_closed_update (\<lambda>_. True)) s"
  obtain start s1 where c: "read_clock env ?s = (start, s1)" by force
  note rc = read_clock_time [OF assms(1) c] pool_read_clock [OF c]
  have "p_closed (pool s1)" using rc(4) by simp
  from close_loop_returns [OF assms this, of start deadline] rc(1)
  obtain r s' where res: "close_loop env deadline start s1 = Some (r, s')" "p_closed (pool s')"
    "is_ok r = (p_in_flight (pool s') = 0)"
    "time (world s') \<le> time (world s1) + late \<or> time (world s') \<le> start + deadline + 5000000 + 3 * late"
    by auto
  moreover have "time (world s') \<le> time (world s) + deadline + 5000000 + 4 * late"
    using res(4) rc(1-3) by auto
  moreover have "fst (acquire env s') = Inl pool_closed_error"
    using res(2) by (simp add: acquire_def acquire_with_timeout_def)
  ultimately show ?thesis using c by (auto simp: close_def)
qed

theorem close_returns_witness:
  "\<exists>r s'. close sample_env 100 \<lparr>world = 0, pool = sample_pool\<lparr>p_in_flight := 1\<rparr>\<rparr> = Some (r, s') \<and>
     p_closed (pool s')"
  using close_returns [OF sample_env_ok(3,2)] by blast

end
