(* ===== verification/Connect.thy ===== *)
theory Connect
  imports Config_Sources Pool
begin

text \<open>
  \<open>src/pool/connect.rs\<close>, \<open>connection_manager_config\<close> of \<open>src/pool/backend.rs\<close> and
  \<open>RedisPool::connect\<close>, \<open>connect_from_env\<close> of \<open>src/pool/lifecycle.rs\<close>: how a configuration becomes a
  connected pool in each of the three topologies. The driver's constructors are the fields of the
  \<open>driver\<close> record; the time-limited ones give nothing when the limit is reached first.
\<close>

section \<open>Driver\<close>

record manager_config =
  mc_connection_timeout :: duration
  mc_response_timeout :: duration
  mc_max_delay :: "nat option"

record cluster_params =
  cp_seeds :: "connection_info list"
  cp_connection_timeout :: duration
  cp_response_timeout :: duration
  cp_retries :: nat
  cp_max_retry_wait :: nat
  cp_tls_secure :: bool
  cp_password :: "string option"
  cp_username :: "string option"

record node_info =
  ni_tls_secure :: bool
  ni_redis :: redis_connection_info

type_synonym 'w timed = "duration \<Rightarrow> 'w \<Rightarrow> (string + nat) option \<times> 'w"

record 'w driver =
  open_client :: "connection_info \<Rightarrow> string + nat"
  new_manager :: "nat \<Rightarrow> manager_config \<Rightarrow> 'w timed"
  cluster_build :: "cluster_params \<Rightarrow> string + nat"
  cluster_connect :: "nat \<Rightarrow> 'w timed"
  sentinel_build :: "connection_info list \<Rightarrow> string + nat"
  master_for :: "nat \<Rightarrow> string \<Rightarrow> node_info \<Rightarrow> 'w timed"
  plain_query :: "redis_backend \<Rightarrow> request \<Rightarrow> 'w \<Rightarrow> (driver_error + reply_value) \<times> 'w"

section \<open>Topologies\<close>

definition delay_millis :: "duration \<Rightarrow> nat" where
  "delay_millis d = (case try_u64 (as_millis d) of Some ms \<Rightarrow> ms | None \<Rightarrow> u64_max)"

definition connection_manager_config :: "redis_config \<Rightarrow> manager_config" where
  "connection_manager_config c =
     \<lparr>mc_connection_timeout = c_connect_timeout c, mc_response_timeout = c_command_timeout c,
      mc_max_delay = Some (delay_millis (c_reconnect_max_delay c))\<rparr>"

text \<open>\<open>timeout(d, fut).await.map_err(timed out)?.map_err(failed)?\<close>\<close>

definition in_time :: "string \<Rightarrow> string \<Rightarrow> (string + nat) option \<times> 'w \<Rightarrow> nat res \<times> 'w" where
  "in_time late_tag failed_tag mw =
     (case mw of
        (None, w) \<Rightarrow> (Inl (Timeout (Msg late_tag [])), w)
      | (Some r, w) \<Rightarrow> (map_err (\<lambda>e. Connection (Msg failed_tag [e])) r, w))"

text \<open>The rest of an effectful \<open>?\<close> chain.\<close>

definition bind_io :: "'a res \<times> 'w \<Rightarrow> ('a \<Rightarrow> 'w \<Rightarrow> 'b res \<times> 'w) \<Rightarrow> 'b res \<times> 'w" where
  "bind_io rw k = (case rw of (Inl e, w) \<Rightarrow> (Inl e, w) | (Inr x, w) \<Rightarrow> k x w)"

definition connect_standalone :: "'w driver \<Rightarrow> redis_config \<Rightarrow> 'w \<Rightarrow> redis_backend res \<times> 'w" where
  "connect_standalone drv c w =
     bind_io (and_then (to_connection_info c)
         (\<lambda>info. map_err (\<lambda>e. Connection (Msg ''client build failed'' [e])) (open_client drv info)), w)
       (\<lambda>client w. bind_io
          (in_time ''connect timed out'' ''connect failed''
             (new_manager drv client (connection_manager_config c) (c_connect_timeout c) w))
          (\<lambda>conn w. (Inr (StandaloneConn conn), w)))"

definition cluster_settings :: "url_env \<Rightarrow> redis_config \<Rightarrow> cluster_params res" where
  "cluster_settings uenv c =
     map_ok (\<lambda>infos.
       \<lparr>cp_seeds = infos, cp_connection_timeout = c_connect_timeout c,
        cp_response_timeout = c_command_timeout c, cp_retries = c_max_cluster_redirects c,
        cp_max_retry_wait = delay_millis (c_reconnect_max_delay c), cp_tls_secure = c_tls c,
        cp_password = c_password c, cp_username = c_username c\<rparr>)
       (seed_connection_infos uenv c)"

definition connect_cluster :: "url_env \<Rightarrow> 'w driver \<Rightarrow> redis_config \<Rightarrow> 'w \<Rightarrow> redis_backend res \<times> 'w" where
  "connect_cluster uenv drv c w =
     bind_io (and_then (cluster_settings uenv c)
         (\<lambda>p. map_err (\<lambda>e. Connection (Msg ''cluster client build failed'' [e])) (cluster_build drv p)), w)
       (\<lambda>client w. bind_io
          (in_time ''cluster connect timed out'' ''cluster connect failed''
             (cluster_connect drv client (c_connect_timeout c) w))
          (\<lambda>conn w. (Inr (ClusterConn conn), w)))"

definition sentinel_node :: "redis_config \<Rightarrow> node_info" where
  "sentinel_node c =
     \<lparr>ni_tls_secure = c_tls c,
      ni_redis = \<lparr>rci_db = c_db c, rci_username = c_username c, rci_password = c_password c,
        rci_protocol = DefaultProtocol\<rparr>\<rparr>"

definition connect_sentinel :: "url_env \<Rightarrow> 'w driver \<Rightarrow> redis_config \<Rightarrow> 'w \<Rightarrow> redis_backend res \<times> 'w" where
  "connect_sentinel uenv drv c w =
     bind_io (ok_or (Config (Msg ''Sentinel needs sentinel_master'' [])) (c_sentinel_master c), w)
       (\<lambda>master w. bind_io
          (and_then (seed_connection_infos uenv c)
            (\<lambda>infos. map_err (\<lambda>e. Connection (Msg ''sentinel client build failed'' [e]))
                (sentinel_build drv infos)), w)
          (\<lambda>sentinel w. bind_io
             (in_time ''sentinel discovery timed out'' ''sentinel discovery failed''
                (master_for drv sentinel master (sentinel_node c) (c_connect_timeout c) w))
             (\<lambda>client w. bind_io
                (in_time ''sentinel master connect timed out'' ''sentinel master connect failed''
                   (new_manager drv client (connection_manager_config c) (c_connect_timeout c) w))
                (\<lambda>conn w. (Inr (StandaloneConn conn), w)))))"

definition connect_backend :: "url_env \<Rightarrow> 'w driver \<Rightarrow> redis_config \<Rightarrow> 'w \<Rightarrow> redis_backend res \<times> 'w" where
  "connect_backend uenv drv c w =
     (case c_mode c of
        Standalone \<Rightarrow> connect_standalone drv c w
      | Cluster \<Rightarrow> connect_cluster uenv drv c w
      | Sentinel \<Rightarrow> connect_sentinel uenv drv c w)"

text \<open>\<open>CLIENT SETNAME\<close> and the warm-up pings; their replies are dropped.\<close>

definition introduce :: "'w driver \<Rightarrow> redis_config \<Rightarrow> redis_backend \<Rightarrow> 'w \<Rightarrow> 'w" where
  "introduce drv c conn w =
     (case c_client_name c of
        Some name \<Rightarrow> snd (plain_query drv conn (Command ''CLIENT'' [Text ''SETNAME'', Text name]) w)
      | None \<Rightarrow> w)"

fun warm_up :: "'w driver \<Rightarrow> redis_backend \<Rightarrow> nat \<Rightarrow> 'w \<Rightarrow> 'w" where
  "warm_up drv conn 0 w = w"
| "warm_up drv conn (Suc n) w = warm_up drv conn n (snd (plain_query drv conn (Command ''PING'' []) w))"

text \<open>\<open>RedisPool::connect\<close>; \<open>None\<close> is the panic of \<open>Semaphore::new\<close>.\<close>

definition pool_connect ::
    "url_env \<Rightarrow> 'w driver \<Rightarrow> redis_config \<Rightarrow> 'w \<Rightarrow> (pool_inner res \<times> 'w) option" where
  "pool_connect uenv drv c w =
     (case validate uenv c of
        Inl e \<Rightarrow> Some (Inl e, w)
      | Inr _ \<Rightarrow>
          (case connect_backend uenv drv c w of
             (Inl e, w) \<Rightarrow> Some (Inl e, w)
           | (Inr conn, w) \<Rightarrow>
               let w = warm_up drv conn (c_warmup_count c) (introduce drv c conn w)
               in map_option (\<lambda>p. (Inr p, w)) (from_parts c (Some conn))))"

definition connect_from_env where
  "connect_from_env uenv drv vars w =
     (case from_env uenv vars of
        Inl e \<Rightarrow> Some (Inl e, w)
      | Inr c \<Rightarrow> pool_connect uenv drv c w)"

section \<open>Pools come up idle\<close>

definition idle_pool :: "redis_config \<Rightarrow> redis_backend option \<Rightarrow> pool_inner \<Rightarrow> bool" where
  "idle_pool c b p \<longleftrightarrow>
     p_backend p = b \<and> p_config p = c \<and> \<not> p_closed p \<and> p_in_flight p = 0 \<and> p_waiters p = 0 \<and>
     metrics_snapshot p = \<lparr>m_commands_ok = 0, m_commands_err = 0, m_commands_timeout = 0,
       m_acquire_timeout = 0, m_rejected_closed = 0\<rparr> \<and>
     p_max_in_flight p = c_max_in_flight c \<and> p_command_timeout p = c_command_timeout c \<and>
     p_acquire_timeout p = c_acquire_timeout c"

lemma from_parts_idle: "from_parts c b = Some p \<Longrightarrow> idle_pool c b p"
  by (auto simp: from_parts_def idle_pool_def metrics_snapshot_def split: if_splits)

lemma from_parts_eq_None: "from_parts c b = None \<longleftrightarrow> semaphore_max < c_max_in_flight c"
  by (simp add: from_parts_def)

text \<open>A pool that one of the constructors made from a configuration.\<close>

definition made_from :: "url_env \<Rightarrow> 'w driver \<Rightarrow> redis_config \<Rightarrow> pool_inner \<Rightarrow> bool" where
  "made_from uenv drv c p \<longleftrightarrow>
     pool_new uenv c = Some (Inr p) \<or> (\<exists>w w'. pool_connect uenv drv c w = Some (Inr p, w'))"

lemma made_from_parts:
  assumes "made_from uenv drv c p"
  shows "\<exists>b. from_parts c b = Some p"
  using assms unfolding made_from_def
proof
  assume "\<exists>w w'. pool_connect uenv drv c w = Some (Inr p, w')"
  then obtain w w' where run: "pool_connect uenv drv c w = Some (Inr p, w')" by blast
  obtain b w1 where "connect_backend uenv drv c w = (b, w1)" by force
  with run show ?thesis by (cases b) (auto simp: pool_connect_def Let_def split: sum.splits)
qed (auto simp: pool_new_def split: sum.splits)

section \<open>Properties\<close>

text \<open>
  C26. Connecting a pool. With at most 2 to the 61 minus 1 lanes it always returns: an invalid
  configuration is refused without any contact with the outside, a failure of the backend is passed
  on, and a success gives an idle, live pool with all its counters at zero and the limits of the
  configuration, whatever the driver answers to the client name and the warm-up pings. With more
  lanes a valid configuration makes the constructor panic.
\<close>

theorem connect_gives_idle_pool:
  "(c_max_in_flight c \<le> semaphore_max \<longrightarrow>
     (case validate uenv c of
        Inl e \<Rightarrow> pool_connect uenv drv c w = Some (Inl e, w)
      | Inr _ \<Rightarrow>
          (case connect_backend uenv drv c w of
             (Inl e, w1) \<Rightarrow> pool_connect uenv drv c w = Some (Inl e, w1)
           | (Inr conn, w1) \<Rightarrow> \<exists>p w2. pool_connect uenv drv c w = Some (Inr p, w2) \<and>
               idle_pool c (Some conn) p \<and> liveness p))) \<and>
   (semaphore_max < c_max_in_flight c \<and> validate uenv c = Inr () \<longrightarrow> pool_new uenv c = None)"
proof (intro conjI impI)
  assume "c_max_in_flight c \<le> semaphore_max"
  then have some: "\<exists>p. from_parts c (Some conn) = Some p \<and> idle_pool c (Some conn) p \<and> liveness p" for conn
    using from_parts_idle [of c "Some conn"] from_parts_eq_None [of c "Some conn"]
    by (cases "from_parts c (Some conn)") (auto simp: idle_pool_def liveness_def)
  show "case validate uenv c of
        Inl e \<Rightarrow> pool_connect uenv drv c w = Some (Inl e, w)
      | Inr _ \<Rightarrow>
          (case connect_backend uenv drv c w of
             (Inl e, w1) \<Rightarrow> pool_connect uenv drv c w = Some (Inl e, w1)
           | (Inr conn, w1) \<Rightarrow> \<exists>p w2. pool_connect uenv drv c w = Some (Inr p, w2) \<and>
               idle_pool c (Some conn) p \<and> liveness p)"
  proof (cases "validate uenv c")
    case (Inl e)
    then show ?thesis by (simp add: pool_connect_def)
  next
    case (Inr u)
    obtain b w1 where b: "connect_backend uenv drv c w = (b, w1)" by force
    show ?thesis
    proof (cases b)
      case (Inl e)
      with Inr b show ?thesis by (simp add: pool_connect_def)
    next
      case conn: (Inr conn)
      from some [of conn] obtain p where "from_parts c (Some conn) = Some p" "idle_pool c (Some conn) p"
        "liveness p" by blast
      with Inr b conn show ?thesis by (simp add: pool_connect_def Let_def)
    qed
  qed
next
  assume "semaphore_max < c_max_in_flight c \<and> validate uenv c = Inr ()"
  then show "pool_new uenv c = None" by (simp add: pool_new_def from_parts_eq_None)
qed

definition sample_driver :: "nat driver" where
  "sample_driver =
     \<lparr>open_client = (\<lambda>_. Inr 1), new_manager = (\<lambda>_ _ _ w. (Some (Inr 2), w + 1)),
      cluster_build = (\<lambda>_. Inr 3), cluster_connect = (\<lambda>_ _ w. (None, w + 1)),
      sentinel_build = (\<lambda>_. Inr 4), master_for = (\<lambda>_ _ _ _ w. (None, w + 1)),
      plain_query = (\<lambda>_ _ w. (Inr OkayValue, w + 1))\<rparr>"

lemma sample_connect: "connect_backend uenv sample_driver default_config 0 = (Inr (StandaloneConn 2), 1)"
  by (simp add: connect_backend_def default_config_def connect_standalone_def to_connection_info_def
      default_config_parses bind_io_def in_time_def sample_driver_def)

theorem connect_gives_idle_pool_witness:
  "\<exists>p w'. pool_connect sample_url_env sample_driver default_config 0 = Some (Inr p, w') \<and> liveness p \<and>
     p_in_flight p = 0"
proof -
  have "c_max_in_flight default_config \<le> semaphore_max"
    by (simp add: default_config_def semaphore_max_def)
  then show ?thesis
    using connect_gives_idle_pool [of default_config sample_url_env sample_driver 0]
    by (simp add: default_config_valid sample_connect) (auto simp: idle_pool_def)
qed

text \<open>
  What the driver is given for a cluster. A validated Cluster configuration always produces
  settings: one seed per node, none with unchecked TLS, none plain when TLS is on; database 0; the
  configured credentials; secure TLS exactly when configured; positive timeouts and at least one
  redirect; and a retry wait that is the configured delay in whole milliseconds.
\<close>

theorem cluster_settings_are_safe:
  assumes "validate uenv c = Inr ()" and "c_mode c = Cluster" and "c_nodes c \<noteq> []"
    and "c_reconnect_max_delay c \<le> dur_max div 1000"
  shows "\<exists>p. cluster_settings uenv c = Inr p \<and> length (cp_seeds p) = length (c_nodes c) \<and>
    (\<forall>info \<in> set (cp_seeds p). secure_addr (ci_addr info) \<and> (c_tls c \<longrightarrow> (\<forall>h n. ci_addr info \<noteq> Tcp h n)) \<and>
       rci_db (ci_redis info) = 0) \<and>
    cp_tls_secure p = c_tls c \<and> cp_password p = c_password c \<and> cp_username p = c_username c \<and>
    0 < cp_connection_timeout p \<and> 0 < cp_response_timeout p \<and> 0 < cp_retries p \<and>
    cp_max_retry_wait p = as_millis (c_reconnect_max_delay c)"
proof -
  from assms(1,2) have v: "valid_topology uenv c" "valid_limits c" "c_db c = 0"
    by (auto simp: validate_Inr valid_topology_def)
  then have "\<forall>n \<in> set (c_nodes c). is_ok (validate_seed uenv n)"
    using assms(2) by (simp add: valid_topology_def usable_seeds_def)
  then obtain infos where infos: "seed_connection_infos uenv c = Inr infos" "length infos = length (c_nodes c)"
    "\<forall>info \<in> set infos. good_seed_info c info"
    using each_ok_all [of "c_nodes c" "connection_info_for_seed uenv c" "good_seed_info c"]
      validated_seed_info assms(3) by (auto simp: seed_connection_infos_def seed_nodes_def)
  have "as_millis (c_reconnect_max_delay c) \<le> u64_max"
    using assms(4) by (simp add: as_millis_def)
  then have "delay_millis (c_reconnect_max_delay c) = as_millis (c_reconnect_max_delay c)"
    by (simp add: delay_millis_def try_u64_def)
  with infos v show ?thesis
    by (auto simp: cluster_settings_def good_seed_info_def valid_limits_def)
qed

theorem cluster_settings_are_safe_witness:
  "\<exists>p. cluster_settings sample_url_env sample_cluster = Inr p \<and> length (cp_seeds p) = 1 \<and> cp_tls_secure p"
  using cluster_settings_are_safe [OF sample_cluster_valid]
  by (auto simp: sample_cluster_def default_config_def from_secs_def)

end
