(* ===== verification/Client.thy ===== *)
theory Client
  imports Retry Connect
begin

text \<open>
  \<open>src/client.rs\<close>: the cloneable client over a pool, with its optional total deadline per call and
  the routing of commands by retry class: only reads and idempotent writes enter the retry loop.
\<close>

section \<open>The client\<close>

record client =
  cl_retry :: "retry_config option"
  cl_call_deadline :: "duration option"

definition from_pool :: client where
  "from_pool = \<lparr>cl_retry = None, cl_call_deadline = None\<rparr>"

definition client_with_retry :: "retry_config \<Rightarrow> client \<Rightarrow> client" where
  "client_with_retry c cl = cl\<lparr>cl_retry := Some c\<rparr>"

definition client_with_call_deadline :: "duration \<Rightarrow> client \<Rightarrow> client" where
  "client_with_call_deadline d cl = cl\<lparr>cl_call_deadline := Some d\<rparr>"

definition has_call_deadline :: "client \<Rightarrow> bool" where
  "has_call_deadline cl \<longleftrightarrow> cl_call_deadline cl \<noteq> None"

definition client_retry_config :: "client \<Rightarrow> retry_config option" where
  "client_retry_config cl = cl_retry cl"

text \<open>
  Construction: a pool as in \<open>Connect\<close>, then \<open>from_pool\<close>. A client shares its pool with the others that
  were made from it, so the pool stands beside the client's own two fields.
\<close>

definition pool_client :: "pool_inner \<Rightarrow> pool_inner \<times> client" where
  "pool_client p = (p, from_pool)"

definition client_pool :: "pool_inner \<times> client \<Rightarrow> pool_inner" where "client_pool h = fst h"
definition client_config :: "pool_inner \<times> client \<Rightarrow> redis_config" where
  "client_config h = pool_config (fst h)"
definition client_endpoint :: "pool_inner \<times> client \<Rightarrow> string" where
  "client_endpoint h = pool_endpoint (fst h)"

definition client_connect where
  "client_connect uenv drv c w =
     map_option (\<lambda>(r, w). (map_ok pool_client r, w)) (pool_connect uenv drv c w)"

definition client_new where
  "client_new uenv c = map_option (map_ok pool_client) (pool_new uenv c)"

definition client_connect_url where
  "client_connect_url uenv drv url w =
     (case from_url uenv url of
        Inl e \<Rightarrow> Some (Inl e, w)
      | Inr c \<Rightarrow> client_connect uenv drv c w)"

definition client_connect_from_env where
  "client_connect_from_env uenv drv vars w =
     (case from_env uenv vars of
        Inl e \<Rightarrow> Some (Inl e, w)
      | Inr c \<Rightarrow> client_connect uenv drv c w)"

section \<open>Routing\<close>

definition with_pool_conn :: "'w env \<Rightarrow> client \<Rightarrow> 'a job \<Rightarrow> 'w sys \<Rightarrow> 'a res \<times> 'w sys" where
  "with_pool_conn env cl job s =
     (case cl_call_deadline cl of
        Some limit \<Rightarrow> with_conn_total_deadline env limit job s
      | None \<Rightarrow> with_conn env job s)"

definition route_with_safety ::
    "'w env \<Rightarrow> client \<Rightarrow> retry_safety \<Rightarrow> string \<Rightarrow> ('w sys \<Rightarrow> 'a res \<times> 'w sys) \<Rightarrow> 'w sys \<Rightarrow>
     ('a res \<times> 'w sys) option" where
  "route_with_safety env cl safety name f s =
     (case cl_retry cl of
        Some c \<Rightarrow>
          if safety = ReadOnly \<or> safety = Idempotent
          then with_retry (read_clock env) (sleep_await env) c name f s
          else Some (f s)
      | None \<Rightarrow> Some (f s))"

definition route ::
    "'w env \<Rightarrow> client \<Rightarrow> operation \<Rightarrow> string \<Rightarrow> ('w sys \<Rightarrow> 'a res \<times> 'w sys) \<Rightarrow> 'w sys \<Rightarrow>
     ('a res \<times> 'w sys) option" where
  "route env cl op = route_with_safety env cl (op_retry_safety op)"

section \<open>Single attempts\<close>

definition get_once where "get_once env cv cl key = with_pool_conn env cl (kv_get cv key)"
definition set_once where "set_once env cv cl key v = with_pool_conn env cl (kv_set cv key v)"
definition set_ex_once where
  "set_ex_once env cv cl key v ttl = with_pool_conn env cl (kv_set_ex cv key v ttl)"
definition del_once where "del_once env cv cl key = with_pool_conn env cl (kv_del cv key)"
definition exists_once where "exists_once env cv cl key = with_pool_conn env cl (kv_exists cv key)"
definition incr_once where "incr_once env cv cl key d = with_pool_conn env cl (kv_incr cv key d)"
definition expire_once where
  "expire_once env cv cl key ttl = with_pool_conn env cl (kv_expire cv key ttl)"
definition ttl_once where "ttl_once env cv cl key = with_pool_conn env cl (kv_ttl cv key)"

definition mget_job :: "conversions \<Rightarrow> string list \<Rightarrow> bytes option list job" where
  "mget_job cv keys = ask (as_opt_bytes_list cv) (Method ''get'' [Many (map Text keys)]) Inr"

definition mset_job :: "conversions \<Rightarrow> (string \<times> bytes) list \<Rightarrow> unit job" where
  "mset_job cv items =
     ask (as_unit cv) (Method ''mset'' [Many (map (\<lambda>(k, v). Many [Text k, Bytes v]) items)]) (\<lambda>_. Inr ())"

definition mget_once ::
    "'w env \<Rightarrow> conversions \<Rightarrow> client \<Rightarrow> string list \<Rightarrow> 'w sys \<Rightarrow> bytes option list res \<times> 'w sys" where
  "mget_once env cv cl keys s =
     (if keys = [] then (Inr [], s) else with_pool_conn env cl (mget_job cv keys) s)"

definition mset_once ::
    "'w env \<Rightarrow> conversions \<Rightarrow> client \<Rightarrow> (string \<times> bytes) list \<Rightarrow> 'w sys \<Rightarrow> unit res \<times> 'w sys" where
  "mset_once env cv cl items s =
     (if items = [] then (Inr (), s) else with_pool_conn env cl (mset_job cv items) s)"

section \<open>Commands\<close>

definition client_ping :: "'w env \<Rightarrow> conversions \<Rightarrow> 'w sys \<Rightarrow> unit res \<times> 'w sys" where
  "client_ping env cv s = (let (r, s) = pool_ping env cv s in (map_ok (\<lambda>_. ()) r, s))"

definition client_health_check where
  "client_health_check env cv s = health_check env cv s"

definition client_get where
  "client_get env cv cl key = route env cl OpGet ''redis.get'' (get_once env cv cl key)"
definition client_get_bytes where "client_get_bytes = client_get"
definition client_set where
  "client_set env cv cl key v = route env cl OpSet ''redis.set'' (set_once env cv cl key v)"
definition client_set_bytes where "client_set_bytes = client_set"
definition client_set_ex where
  "client_set_ex env cv cl key v ttl =
     route_with_safety env cl AmbiguousWrite ''redis.set_ex'' (set_ex_once env cv cl key v ttl)"
definition client_del where
  "client_del env cv cl key = route env cl OpDelete ''redis.del'' (del_once env cv cl key)"
definition client_exists where
  "client_exists env cv cl key = route env cl OpExists ''redis.exists'' (exists_once env cv cl key)"
definition client_incr where
  "client_incr env cv cl key d = route env cl OpIncr ''redis.incr'' (incr_once env cv cl key d)"
definition client_expire where
  "client_expire env cv cl key ttl =
     route env cl OpExpire ''redis.expire'' (expire_once env cv cl key ttl)"
definition client_ttl where
  "client_ttl env cv cl key = route env cl OpTtl ''redis.ttl'' (ttl_once env cv cl key)"

definition client_mget ::
    "'w env \<Rightarrow> conversions \<Rightarrow> client \<Rightarrow> string list \<Rightarrow> 'w sys \<Rightarrow> (bytes option list res \<times> 'w sys) option" where
  "client_mget env cv cl keys s =
     (if keys = [] then Some (Inr [], s)
      else route env cl OpMget ''redis.mget'' (mget_once env cv cl keys) s)"

definition client_mset ::
    "'w env \<Rightarrow> conversions \<Rightarrow> client \<Rightarrow> (string \<times> bytes) list \<Rightarrow> 'w sys \<Rightarrow> (unit res \<times> 'w sys) option" where
  "client_mset env cv cl items s =
     (if items = [] then Some (Inr (), s)
      else route env cl OpMset ''redis.mset'' (mset_once env cv cl items) s)"

section \<open>Calls of a client are accounted for\<close>

definition total_count :: "pool_inner \<Rightarrow> 64 word" where
  "total_count p = p_commands_ok p + p_commands_err p + p_commands_timeout p +
     p_acquire_timeout_count p + p_rejected_closed p"

text \<open>\<open>tallied k p q\<close>: from \<open>p\<close> to \<open>q\<close> no lane or queue place was lost and at most \<open>k\<close> calls were counted.\<close>

definition tallied :: "nat \<Rightarrow> pool_inner \<Rightarrow> pool_inner \<Rightarrow> bool" where
  "tallied k p q \<longleftrightarrow>
     p_in_flight q = p_in_flight p \<and> p_waiters q = p_waiters p \<and>
     (\<exists>n \<le> k. total_count q = total_count p + of_nat n)"

lemma tallied_refl [simp]: "tallied k p p"
  by (auto simp: tallied_def intro: exI [of _ 0])

lemma tallied_later: "later p q \<Longrightarrow> tallied k p q"
  by (auto simp: tallied_def total_count_def later_keeps intro: exI [of _ 0])

lemma tallied_trans: "tallied j p q \<Longrightarrow> tallied k q r \<Longrightarrow> tallied (j + k) p r"
proof -
  assume "tallied j p q" "tallied k q r"
  moreover from this obtain m n where "m \<le> j" "total_count q = total_count p + of_nat m"
    "n \<le> k" "total_count r = total_count q + of_nat n" by (auto simp: tallied_def)
  then have "m + n \<le> j + k \<and> total_count r = total_count p + of_nat (m + n)" by simp
  ultimately show ?thesis unfolding tallied_def by metis
qed

lemma tallied_weaken: "tallied j p q \<Longrightarrow> j \<le> k \<Longrightarrow> tallied k p q"
  using tallied_trans [of j p q "k - j" q] by simp

lemma counted_once: "total_count (count_ok p) = total_count p + of_nat 1"
  "total_count (count_err p) = total_count p + of_nat 1" "total_count (count_timeout p) = total_count p + of_nat 1"
  "total_count (count_acquire_timeout p) = total_count p + of_nat 1"
  "total_count (count_rejected p) = total_count p + of_nat 1"
  by (simp_all add: total_count_def pool_simps)

lemma tallied_counts:
  "tallied 1 p (count_ok p)" "tallied 1 p (count_err p)" "tallied 1 p (count_timeout p)"
  "tallied 1 p (count_acquire_timeout p)" "tallied 1 p (count_rejected p)"
  unfolding tallied_def by (simp_all add: counted_once exI [of _ 1])

lemma accounted_tallied:
  assumes "accounted p r q"
  shows "tallied 1 p q"
proof -
  have step: "later p' q \<Longrightarrow> tallied 1 p p' \<Longrightarrow> tallied 1 p q" for p'
    using tallied_trans [of 1 p p' 0 q] tallied_later [of p' q 0] by simp
  from assms consider "later (count_ok p) q" | "later (count_err p) q" | "later (count_timeout p) q"
    | "later (count_acquire_timeout p) q" | "later (count_rejected p) q" | "later p q"
    by (auto simp: accounted_def finished_def refused_def split: sum.splits)
  then show ?thesis
    by cases (rule step, assumption, rule tallied_counts tallied_refl)+
qed

lemma with_pool_conn_tallied:
  assumes "others_ok env" and "with_pool_conn env cl job s = (r, s')"
  shows "tallied 1 (pool s) (pool s')"
proof (cases "cl_call_deadline cl = Some 0")
  case True
  with assms(2) show ?thesis by (simp add: with_pool_conn_def with_conn_total_deadline_def)
next
  case False
  then have "accounted (pool s) r (pool s')"
    using assms run_accounted [OF assms(1), of None job s r s'] run_total_accounted [OF assms(1), of _ job s r s']
    by (auto simp: with_pool_conn_def with_conn_def with_conn_total_deadline_def split: option.splits)
  then show ?thesis by (rule accounted_tallied)
qed

text \<open>The contract of a single attempt, and what routing it, with retries or without, amounts to.\<close>

locale pool_command =
  fixes attempt :: "'w env \<Rightarrow> 'w sys \<Rightarrow> 'a res \<times> 'w sys"
  assumes tallies: "others_ok env \<Longrightarrow> attempt env s = (r, s') \<Longrightarrow> tallied 1 (pool s) (pool s')"
begin

lemma retried_tally:
  assumes "others_ok env" and "1 \<le> rc_max_attempts c"
    and "with_retry (read_clock env) (sleep_await env) c name (attempt env) s = Some (r, s')"
  shows "tallied (unat (rc_max_attempts c)) (pool s) (pool s')"
proof -
  define I where "I n u = tallied n (pool s) (pool u)" for n and u :: "'w sys"
  have "I n u \<Longrightarrow> I (Suc n) (snd (attempt env u))" for n u
    using tallies [OF assms(1), of u] tallied_trans [of n "pool s" "pool u" 1] unfolding I_def
    by (cases "attempt env u") simp
  moreover have read: "I n u \<Longrightarrow> I n (snd (read_clock env u))" for n u
    unfolding I_def using pool_read_clock [of env u] by (cases "read_clock env u") simp
  moreover have "I n u \<Longrightarrow> I n (sleep_await env d u)" for n d u
  proof -
    assume i: "I n u"
    have "later (pool u) (pool (sleep_await env d u))"
      unfolding sleep_await_def by (rule pool_await [OF assms(1) surjective_pairing])
    then have "tallied 0 (pool u) (pool (sleep_await env d u))" by (rule tallied_later)
    with i tallied_trans show "I n (sleep_await env d u)" unfolding I_def by fastforce
  qed
  moreover obtain t u where c: "read_clock env s = (t, u)" by force
  moreover have "I 0 u" using read [of 0 s] c by (simp add: I_def)
  ultimately have "\<exists>n \<le> unat (rc_max_attempts c) - unat (0 :: 32 word). I (0 + n) s'"
    using assms(3) one_le_pos [OF assms(2)] unfolding with_retry_def
    by (intro retry_loop_counts [where I = I]) auto
  then show ?thesis unfolding I_def by (auto intro: tallied_weaken)
qed

lemma routed_tally:
  assumes "others_ok env" and "\<forall>c. cl_retry cl = Some c \<longrightarrow> 1 \<le> rc_max_attempts c"
    and "route_with_safety env cl safety name (attempt env) s = Some (r, s')"
  shows "tallied (case cl_retry cl of Some c \<Rightarrow> unat (rc_max_attempts c) | None \<Rightarrow> 1) (pool s) (pool s')"
proof (cases "cl_retry cl")
  case None
  with assms tallies show ?thesis by (simp add: route_with_safety_def)
next
  case (Some c)
  have one: "1 \<le> unat (rc_max_attempts c)" using assms(2) Some one_le_pos [of "rc_max_attempts c"]
    by (simp add: word_less_nat_alt)
  show ?thesis
  proof (cases "safety = ReadOnly \<or> safety = Idempotent")
    case True
    with Some assms show ?thesis by (simp add: route_with_safety_def retried_tally)
  next
    case False
    with Some assms(3) have "attempt env s = (r, s')" by (simp add: route_with_safety_def)
    from tallies [OF assms(1) this] have "tallied 1 (pool s) (pool s')" .
    with tallied_weaken [OF _ one] Some show ?thesis by simp
  qed
qed

end

interpretation pooled: pool_command "\<lambda>env. with_pool_conn env cl job" for cl job
  by unfold_locales (rule with_pool_conn_tallied)

interpretation mget_attempt: pool_command "\<lambda>env. mget_once env cv cl keys" for cv cl keys
  by unfold_locales (auto simp: mget_once_def dest: with_pool_conn_tallied split: if_splits)

section \<open>What a call does to the outside\<close>

text \<open>
  An observation of the outside world that clock, timers and semaphore change no further than \<open>D\<close> says:
  what may happen meanwhile without the call, such as a key that expires or the writes of others. Seen
  through it, a call on the pool either does nothing and fails, or runs its body once.
\<close>

definition drifts :: "('o \<Rightarrow> 'o \<Rightarrow> bool) \<Rightarrow> ('w \<Rightarrow> 'o) \<Rightarrow> 'w runtime \<Rightarrow> bool" where
  "drifts D obs r \<longleftrightarrow>
     reflp D \<and> transp D \<and>
     (\<forall>w. D (obs w) (obs (snd (rt_now r w)))) \<and> (\<forall>d w. D (obs w) (obs (rt_sleep r d w))) \<and>
     (\<forall>b w. D (obs w) (obs (snd (rt_acquire r b w)))) \<and> (\<forall>w. D (obs w) (obs (rt_release r w)))"

text \<open>Nothing happens meanwhile.\<close>

definition inert :: "('w \<Rightarrow> 'o) \<Rightarrow> 'w runtime \<Rightarrow> bool" where
  "inert obs r \<longleftrightarrow> drifts (=) obs r"

lemma inert_iff:
  "inert obs r \<longleftrightarrow>
     (\<forall>w. obs (snd (rt_now r w)) = obs w) \<and> (\<forall>d w. obs (rt_sleep r d w) = obs w) \<and>
     (\<forall>b w. obs (snd (rt_acquire r b w)) = obs w) \<and> (\<forall>w. obs (rt_release r w) = obs w)"
  by (auto simp: inert_def drifts_def)

definition ran_once ::
    "('o \<Rightarrow> 'o \<Rightarrow> bool) \<Rightarrow> ('w \<Rightarrow> 'o) \<Rightarrow> 'w env \<Rightarrow> 'a job \<Rightarrow> 'w sys \<Rightarrow> 'a res \<Rightarrow> 'w sys \<Rightarrow> bool" where
  "ran_once D obs env job s r s' \<longleftrightarrow>
     (\<exists>e. r = Inl e) \<and> D (obs (world s)) (obs (world s')) \<or>
     (\<exists>conn budget w1 m w2. D (obs (world s)) (obs w1) \<and> run_job (rt env) conn job budget w1 = (m, w2) \<and>
        D (obs w2) (obs (world s')) \<and> (m = Some r \<or> m = None \<and> (\<exists>e. r = Inl e)))"

lemma drift_trans: "drifts D obs r \<Longrightarrow> D a b \<Longrightarrow> D b c \<Longrightarrow> D a c"
  unfolding drifts_def by (blast dest: transpD)

lemma drift_refl: "drifts D obs r \<Longrightarrow> D a a"
  by (simp add: drifts_def reflp_def)

lemma drift_read_clock: "drifts D obs (rt env) \<Longrightarrow> read_clock env s = (t, s') \<Longrightarrow> D (obs (world s)) (obs (world s'))"
  by (auto simp: drifts_def read_clock_def split: prod.splits) (metis snd_conv)

lemma drift_sleep: "drifts D obs (rt env) \<Longrightarrow> D (obs (world s)) (obs (world (sleep_await env d s)))"
  using await_time [OF surjective_pairing, of env "\<lambda>w. ((), rt_sleep (rt env) d w)" s]
  by (simp add: sleep_await_def drifts_def)

lemma drift_release: "drifts D obs (rt env) \<Longrightarrow> D (obs (world s)) (obs (world (release env s)))"
  by (simp add: drifts_def release_def)

lemma drift_acquire:
  assumes "drifts D obs (rt env)" and "acquire_with_timeout env budget s = (r, s')"
  shows "D (obs (world s)) (obs (world s'))"
proof (cases "p_closed (pool s) \<or> p_backend (pool s) = None \<or> budget = 0")
  case True
  with assms(2) drift_refl [OF assms(1)] show ?thesis
    by (auto simp: acquire_with_timeout_def split: option.splits if_splits)
next
  case False
  then obtain conn where b: "p_backend (pool s) = Some conn" by auto
  obtain a s1 where aw: "await env (rt_acquire (rt env) budget) (upd enter_wait s) = (a, s1)" by force
  have "D (obs (world s)) (obs (world s1))"
    using assms(1) await_time [OF aw] by (simp add: drifts_def)
  with assms False b aw drift_trans [OF assms(1) this] drift_release [OF assms(1), of "upd leave_wait s1"]
  show ?thesis by (cases a) (auto simp: acquire_with_timeout_def Let_def split: if_splits)
qed

lemma run_timed_ran:
  assumes "drifts D obs (rt env)" and "run_timed env pm t budget job s = (r, s')"
  shows "ran_once D obs env job s r s'"
proof (cases "budget = 0")
  case True
  obtain u s1 where c: "read_clock env (upd count_timeout s) = (u, s1)" by force
  with True assms drift_read_clock [OF assms(1) c] show ?thesis
    by (auto simp: run_timed_def ran_once_def)
next
  case False
  obtain m s1 where aw: "await env (run_job (rt env) (pm_conn pm) job budget) s = (m, s1)" by force
  then have j: "run_job (rt env) (pm_conn pm) job budget (world s) = (m, world s1)"
    by (auto simp: await_def split: prod.splits)
  note refl = drift_refl [OF assms(1)]
  show ?thesis
  proof (cases m)
    case None
    obtain u s2 where c: "read_clock env (upd count_timeout s1) = (u, s2)" by force
    from None False aw c assms(2) have "s' = s2" "\<exists>e. r = Inl e" by (auto simp: run_timed_def)
    with drift_read_clock [OF assms(1) c] have "D (obs (world s1)) (obs (world s'))" by simp
    with j None \<open>\<exists>e. r = Inl e\<close> refl show ?thesis unfolding ran_once_def by blast
  next
    case (Some x)
    with False aw assms(2) have "world s' = world s1" "r = x" by (cases x; auto simp: run_timed_def)+
    with j Some refl show ?thesis unfolding ran_once_def by metis
  qed
qed

lemma ran_once_within:
  assumes "drifts D obs r0" and "ran_once D obs env job s1 r s2" and "D (obs (world s)) (obs (world s1))"
    and "D (obs (world s2)) (obs (world s'))"
  shows "ran_once D obs env job s r s'"
  using assms(2-4) drift_trans [OF assms(1)] unfolding ran_once_def by blast

lemma on_lane_ran:
  assumes "drifts D obs (rt env)" and "on_lane env (acquire_with_timeout env budget s) body = (r, s')"
    and body: "\<And>pm u x u'. body pm u = (x, u') \<Longrightarrow> ran_once D obs env job u x u'"
  shows "ran_once D obs env job s r s'"
proof -
  obtain a s1 where acq: "acquire_with_timeout env budget s = (a, s1)" by force
  note before = drift_acquire [OF assms(1) acq]
  show ?thesis
  proof (cases a)
    case (Inl e)
    with acq assms(2) before show ?thesis by (auto simp: on_lane_def ran_once_def)
  next
    case (Inr pm)
    obtain x s2 where b: "body pm s1 = (x, s2)" by force
    with acq assms(2) Inr have res: "r = x" "s' = drop_permit env s2" by (auto simp: on_lane_def)
    have "D (obs (world s2)) (obs (world s'))"
      unfolding res drop_permit_def using drift_release [OF assms(1), of "upd leave_flight s2"] by simp
    with ran_once_within [OF assms(1) body [OF b] before] res show ?thesis by blast
  qed
qed

lemma run_ran:
  assumes "drifts D obs (rt env)" and "run env b job s = (r, s')"
  shows "ran_once D obs env job s r s'"
proof (cases "b = Some 0")
  case True
  with assms(2) drift_refl [OF assms(1)] show ?thesis by (auto simp: run_def ran_once_def)
next
  case False
  with assms(2) have "on_lane env (acquire_with_timeout env (p_acquire_timeout (pool s)) s)
      (\<lambda>pm s. let (t, s) = read_clock env s in execute_with_budget env pm t b job s) = (r, s')"
    by (simp add: run_def acquire_def)
  then show ?thesis
  proof (rule on_lane_ran [OF assms(1)])
    fix pm u x u'
    assume x: "(let (t, s) = read_clock env u in execute_with_budget env pm t b job s) = (x, u')"
    obtain t u1 where c: "read_clock env u = (t, u1)" by force
    with x obtain limit where "run_timed env pm t limit job u1 = (x, u')"
      by (auto simp: execute_with_budget_def)
    from ran_once_within [OF assms(1) run_timed_ran [OF assms(1) this] drift_read_clock [OF assms(1) c] drift_refl [OF assms(1)]]
    show "ran_once D obs env job u x u'" .
  qed
qed

lemma run_total_ran:
  assumes "drifts D obs (rt env)" and "run_total env (Some limit) job s = (r, s')"
  shows "ran_once D obs env job s r s'"
proof -
  obtain t0 s1 where c0: "read_clock env s = (t0, s1)" by force
  note refl = drift_refl [OF assms(1)]
  from assms(2) c0 have "on_lane env (acquire_with_timeout env (min limit (p_acquire_timeout (pool s1))) s1)
      (\<lambda>pm s. execute_with_total_deadline env pm t0 (Some limit) job s) = (r, s')"
    by (simp add: run_total_def)
  then have "ran_once D obs env job s1 r s'"
  proof (rule on_lane_ran [OF assms(1)])
    fix pm u x u'
    assume b: "execute_with_total_deadline env pm t0 (Some limit) job u = (x, u')"
    obtain t u1 where c: "read_clock env u = (t, u1)" by force
    note before = drift_read_clock [OF assms(1) c]
    show "ran_once D obs env job u x u'"
    proof (cases "limit - (t - t0) = 0")
      case True
      with b c before show ?thesis
        by (auto simp: execute_with_total_deadline_def dur_saturating_sub_def ran_once_def)
    next
      case False
      with b c have "run_timed env pm t0 (min (limit - (t - t0)) (p_command_timeout (pool u1))) job u1 = (x, u')"
        by (auto simp: execute_with_total_deadline_def dur_saturating_sub_def Let_def)
      from ran_once_within [OF assms(1) run_timed_ran [OF assms(1) this] before refl] show ?thesis .
    qed
  qed
  from ran_once_within [OF assms(1) this drift_read_clock [OF assms(1) c0] refl] show ?thesis .
qed

lemma with_pool_conn_ran:
  assumes "drifts D obs (rt env)" and "with_pool_conn env cl job s = (r, s')"
  shows "ran_once D obs env job s r s'"
proof (cases "cl_call_deadline cl")
  case None
  with assms(2) run_ran [OF assms(1)] show ?thesis by (simp add: with_pool_conn_def with_conn_def)
next
  case (Some limit)
  show ?thesis
  proof (cases "limit = 0")
    case True
    with assms(2) Some drift_refl [OF assms(1)] show ?thesis
      by (auto simp: with_pool_conn_def with_conn_total_deadline_def ran_once_def)
  next
    case False
    with assms(2) Some run_total_ran [OF assms(1)] show ?thesis
      by (simp add: with_pool_conn_def with_conn_total_deadline_def)
  qed
qed

lemma obs_read_clock: "inert obs (rt env) \<Longrightarrow> read_clock env s = (t, s') \<Longrightarrow> obs (world s') = obs (world s)"
  using drift_read_clock [of "(=)" obs env s t s'] by (simp add: inert_def)

lemma obs_sleep: "inert obs (rt env) \<Longrightarrow> obs (world (sleep_await env d s)) = obs (world s)"
  using drift_sleep [of "(=)" obs env s d] by (simp add: inert_def)

section \<open>Writes are single calls\<close>

text \<open>Every writing command is one call on the pool with one body and never enters the retry loop.\<close>

lemma writes_are_one_call:
  "client_set env cv cl key v s = Some (with_pool_conn env cl (kv_set cv key v) s) \<and>
   client_set_ex env cv cl key v ttl s = Some (with_pool_conn env cl (kv_set_ex cv key v ttl) s) \<and>
   client_del env cv cl key s = Some (with_pool_conn env cl (kv_del cv key) s) \<and>
   client_incr env cv cl key d s = Some (with_pool_conn env cl (kv_incr cv key d) s) \<and>
   client_expire env cv cl key ttl s = Some (with_pool_conn env cl (kv_expire cv key ttl) s) \<and>
   client_mset env cv cl items s =
     Some (if items = [] then (Inr (), s) else with_pool_conn env cl (mset_job cv items) s)"
  by (auto simp: client_set_def client_set_ex_def client_del_def client_incr_def client_expire_def
      client_mset_def route_def route_with_safety_def set_once_def set_ex_once_def del_once_def
      incr_once_def expire_once_def mset_once_def split: option.split)

section \<open>Reads come back\<close>

lemma routed_returns:
  assumes "cl_retry cl = Some c" and "1 \<le> rc_max_attempts c" and "rc_max_backoff c \<le> 2 ^ 48"
  shows "\<exists>r s'. route_with_safety env cl safety name f s = Some (r, s')"
proof -
  obtain t u where "read_clock env s = (t, u)" by force
  then show ?thesis
    using retry_loop_returns [OF assms(3) one_le_pos [OF assms(2)], of "read_clock env" "sleep_await env" name f t u] assms(1)
      surj_pair [of "f s"]
    by (auto simp: route_with_safety_def with_retry_def)
qed

context pool_command begin

lemma routed_bounded:
  assumes "others_ok env" and "cl_retry cl = Some c" and "1 \<le> rc_max_attempts c" and "rc_max_backoff c \<le> 2 ^ 48"
  shows "\<exists>r s'. route_with_safety env cl safety name (attempt env) s = Some (r, s') \<and>
    tallied (unat (rc_max_attempts c)) (pool s) (pool s')"
proof -
  obtain r s' where run: "route_with_safety env cl safety name (attempt env) s = Some (r, s')"
    using routed_returns [OF assms(2-4)] by blast
  from routed_tally [OF assms(1) _ this] assms(2,3) run show ?thesis by auto
qed

end

section \<open>The time a call takes\<close>

lemma runtime_prompt:
  assumes "runtime_ok time late (rt env)"
  shows "prompt (time \<circ> world) (read_clock env) (sleep_await env) late"
proof -
  have "fst (read_clock env s) = time (world (snd (read_clock env s)))"
    "time (world (snd (read_clock env s))) \<le> time (world s) + late" for s
    using read_clock_time [OF assms surjective_pairing, of s] by simp_all
  moreover have "time (world (sleep_await env d s)) \<le> time (world s) + d + late" for d s
    using await_time [OF surjective_pairing, of env "\<lambda>w. ((), rt_sleep (rt env) d w)" s] assms
    by (simp add: sleep_await_def runtime_ok_def)
  ultimately show ?thesis by (simp add: prompt_def)
qed

definition read_bound :: "retry_config \<Rightarrow> duration \<Rightarrow> duration \<Rightarrow> nat" where
  "read_bound c a late =
     unat (rc_max_attempts c) * (a + 2 * late) + (unat (rc_max_attempts c) - 1) * (rc_max_backoff c + late) + late"

definition in_time :: "retry_config \<Rightarrow> duration \<Rightarrow> duration \<Rightarrow> nat \<Rightarrow> nat \<Rightarrow> bool" where
  "in_time c a late t t' \<longleftrightarrow>
     t' \<le> t + read_bound c a late \<and>
     (\<forall>deadline. rc_deadline c = Some deadline \<longrightarrow> t' \<le> t + deadline + a + 4 * late)"

lemma retried_time:
  assumes "runtime_ok time late (rt env)" and body: "\<And>s. time (world (snd (f s))) \<le> time (world s) + a"
    and "1 \<le> rc_max_attempts c" and "rc_max_backoff c \<le> 2 ^ 48"
    and "with_retry (read_clock env) (sleep_await env) c name f s = Some (r, s')"
  shows "in_time c a late (time (world s)) (time (world s'))"
proof -
  obtain t u where c: "read_clock env s = (t, u)" by force
  then have run: "retry_loop (read_clock env) (sleep_await env) c name f t 0 u = Some (r, s')"
    using assms(5) by (simp add: with_retry_def)
  note clock = runtime_prompt [OF assms(1)]
  have t: "t = time (world u)" "time (world u) \<le> time (world s) + late"
    using prompt_now [OF clock c] by simp_all
  have "time (world s') \<le> time (world u) + unat (rc_max_attempts c) * (a + 2 * late)
      + (unat (rc_max_attempts c) - 1) * (rc_max_backoff c + late)"
    using retry_loop_rounds_time [OF clock _ assms(4) run one_le_pos [OF assms(3)], of a] body by simp
  moreover have "time (world s') \<le> max (time (world u)) (t + deadline + late) + a + 2 * late"
    if "rc_deadline c = Some deadline" for deadline
    using retry_loop_deadline_time [OF clock _ that run, of a] body by simp
  ultimately show ?thesis using t by (fastforce simp: in_time_def read_bound_def)
qed

section \<open>Properties\<close>

text \<open>
  Reads with retries. With a policy whose backoff is capped at 2 to the 48 nanoseconds every read
  returns; the lanes and queue places it used are all given back, and the counters of the pool move
  by at most \<open>max_attempts\<close> in total (\<open>tallied\<close>).
\<close>

theorem reads_are_bounded:
  assumes "others_ok env" and "cl_retry cl = Some c" and "1 \<le> rc_max_attempts c" and "rc_max_backoff c \<le> 2 ^ 48"
  shows "(\<exists>r s'. client_get env cv cl key s = Some (r, s') \<and> tallied (unat (rc_max_attempts c)) (pool s) (pool s')) \<and>
    (\<exists>r s'. client_exists env cv cl key s = Some (r, s') \<and> tallied (unat (rc_max_attempts c)) (pool s) (pool s')) \<and>
    (\<exists>r s'. client_ttl env cv cl key s = Some (r, s') \<and> tallied (unat (rc_max_attempts c)) (pool s) (pool s')) \<and>
    (\<exists>r s'. client_mget env cv cl keys s = Some (r, s') \<and> tallied (unat (rc_max_attempts c)) (pool s) (pool s'))"
  using pooled.routed_bounded [OF assms, of _ _ cl "kv_get cv key" s] pooled.routed_bounded [OF assms, of _ _ cl "kv_exists cv key" s]
    pooled.routed_bounded [OF assms, of _ _ cl "kv_ttl cv key" s] mget_attempt.routed_bounded [OF assms, of _ _ cv cl keys s]
  by (auto simp: client_get_def client_exists_def client_ttl_def client_mget_def route_def get_once_def [abs_def]
      exists_once_def [abs_def] ttl_once_def [abs_def])

theorem reads_are_bounded_witness:
  "\<exists>r s'. client_get sample_env sample_conversions (client_with_retry (fixed 3 (from_millis 20)) from_pool) ''k''
      \<lparr>world = 0, pool = sample_pool\<rparr> = Some (r, s') \<and> p_in_flight (pool s') = 0"
proof -
  let ?c = "fixed 3 (from_millis 20)"
  have "cl_retry (client_with_retry ?c from_pool) = Some ?c" "1 \<le> rc_max_attempts ?c" "rc_max_backoff ?c \<le> 2 ^ 48"
    by (simp_all add: client_with_retry_def fixed_def from_millis_def max_def)
  from reads_are_bounded [OF sample_env_ok(1) this, of sample_conversions "''k''" "\<lparr>world = 0, pool = sample_pool\<rparr>" "[]"]
  have "\<exists>r s'. client_get sample_env sample_conversions (client_with_retry ?c from_pool) ''k'' \<lparr>world = 0, pool = sample_pool\<rparr>
      = Some (r, s') \<and> tallied (unat (rc_max_attempts ?c)) sample_pool (pool s')" by simp
  then show ?thesis by (fastforce simp: tallied_def sample_pool_def)
qed

text \<open>
  C13. A read is over in bounded time. A client with a call deadline and a retry policy waits for each
  attempt no longer than the call deadline and between two attempts no longer than the cap, up to
  the lateness of the runtime; with a total deadline in the policy the whole read is over by that
  deadline and the call deadline of the attempt that is running then. A write is one attempt.
\<close>

theorem reads_end_in_time:
  assumes "runtime_ok time late (rt env)" and "cl_retry cl = Some c" and "cl_call_deadline cl = Some limit"
    and "1 \<le> rc_max_attempts c" and "rc_max_backoff c \<le> 2 ^ 48"
  shows "(client_get env cv cl key s = Some (r1, s') \<longrightarrow>
      in_time c (limit + 5 * late) late (time (world s)) (time (world s'))) \<and>
    (client_exists env cv cl key s = Some (r2, s') \<longrightarrow>
      in_time c (limit + 5 * late) late (time (world s)) (time (world s'))) \<and>
    (client_ttl env cv cl key s = Some (r3, s') \<longrightarrow>
      in_time c (limit + 5 * late) late (time (world s)) (time (world s'))) \<and>
    (client_mget env cv cl keys s = Some (r4, s') \<longrightarrow>
      in_time c (limit + 5 * late) late (time (world s)) (time (world s'))) \<and>
    (client_set env cv cl key v s = Some (r5, s') \<longrightarrow> time (world s') \<le> time (world s) + limit + 5 * late)"
proof -
  have once: "time (world (snd (with_pool_conn env cl job u))) \<le> time (world u) + (limit + 5 * late)"
    if "single_query job" for job :: "'x job" and u
    using total_deadline_time [OF assms(1) that, of limit u] assms(3)
    by (cases "with_conn_total_deadline env limit job u") (simp add: with_pool_conn_def)
  note timed = retried_time [OF assms(1) once assms(4,5)]
  note defs = client_get_def client_exists_def client_ttl_def client_mget_def route_def route_with_safety_def
    get_once_def [abs_def] exists_once_def [abs_def] ttl_once_def [abs_def] mget_once_def [abs_def] assms(2)
  have mget: "single_query (mget_job cv keys)" by (simp add: mget_job_def)
  have "client_get env cv cl key s = Some (r1, s') \<Longrightarrow> in_time c (limit + 5 * late) late (time (world s)) (time (world s'))"
    using timed [OF kv_single_query(1)] by (simp add: defs)
  moreover have "client_exists env cv cl key s = Some (r2, s') \<Longrightarrow> in_time c (limit + 5 * late) late (time (world s)) (time (world s'))"
    using timed [OF kv_single_query(5)] by (simp add: defs)
  moreover have "client_ttl env cv cl key s = Some (r3, s') \<Longrightarrow> in_time c (limit + 5 * late) late (time (world s)) (time (world s'))"
    using timed [OF kv_single_query(8)] by (simp add: defs)
  moreover have "client_mget env cv cl keys s = Some (r4, s') \<Longrightarrow> in_time c (limit + 5 * late) late (time (world s)) (time (world s'))"
    using timed [OF mget] by (cases "keys = []") (auto simp: defs in_time_def)
  moreover have "client_set env cv cl key v s = Some (r5, s') \<Longrightarrow> time (world s') \<le> time (world s) + limit + 5 * late"
    using once [of "kv_set cv key v" s] by (simp add: client_set_def set_once_def [abs_def] route_def route_with_safety_def assms(2))
  ultimately show ?thesis by blast
qed

theorem reads_end_in_time_witness:
  "\<exists>r s'. client_get sample_env sample_conversions
      (client_with_call_deadline 100 (client_with_retry (with_deadline 1000 default_retry) from_pool)) ''k''
      \<lparr>world = 0, pool = sample_pool\<rparr> = Some (r, s') \<and> world s' \<le> 1100"
proof -
  let ?c = "with_deadline 1000 default_retry"
  let ?cl = "client_with_call_deadline 100 (client_with_retry ?c from_pool)"
  let ?s = "\<lparr>world = 0, pool = sample_pool\<rparr>"
  have c: "cl_retry ?cl = Some ?c" "cl_call_deadline ?cl = Some 100" "1 \<le> rc_max_attempts ?c" "rc_max_backoff ?c \<le> 2 ^ 48"
    by (simp_all add: client_with_call_deadline_def client_with_retry_def with_deadline_def default_retry_def
        exponential_def from_secs_def max_def)
  obtain r s' where run: "client_get sample_env sample_conversions ?cl ''k'' ?s = Some (r, s')"
    using routed_returns [OF c(1,3,4)] unfolding client_get_def route_def by blast
  then have "in_time ?c (100 + 5 * 0) 0 (id (world ?s)) (id (world s'))"
    using reads_end_in_time [OF sample_env_ok(3) c] by blast
  with run show ?thesis by (simp add: in_time_def with_deadline_def)
qed

end
