(* ===== verification/Structures.thy ===== *)
theory Structures
  imports Client
begin

text \<open>
  \<open>src/structures.rs\<close>: hashes, lists, sets and sorted sets. Every operation is one body run through
  the client's pool path; \<open>BLPOP\<close> runs under a budget of its own, and panics (\<open>None\<close>) when that
  budget does not fit a \<open>Duration\<close>.
\<close>

section \<open>Hash\<close>

definition hset_job :: "conversions \<Rightarrow> string \<Rightarrow> string \<Rightarrow> bytes \<Rightarrow> bool job" where
  "hset_job cv key field v =
     ask (as_int cv) (Method ''hset'' [Text key, Text field, Bytes v]) (\<lambda>added. Inr (0 < added))"

definition hset where "hset env cv cl key field v = with_pool_conn env cl (hset_job cv key field v)"

definition hget_job :: "conversions \<Rightarrow> string \<Rightarrow> string \<Rightarrow> bytes option job" where
  "hget_job cv key field = ask (as_opt_bytes cv) (Method ''hget'' [Text key, Text field]) Inr"

definition hget where "hget env cv cl key field = with_pool_conn env cl (hget_job cv key field)"

definition hdel_job :: "conversions \<Rightarrow> string \<Rightarrow> string list \<Rightarrow> int job" where
  "hdel_job cv key fds =
     ask (as_int cv) (Method ''hdel'' [Text key, Many (map Text fds)]) Inr"

definition hdel :: "'w env \<Rightarrow> conversions \<Rightarrow> client \<Rightarrow> string \<Rightarrow> string list \<Rightarrow> 'w sys \<Rightarrow> int res \<times> 'w sys" where
  "hdel env cv cl key fds s =
     (if fds = [] then (Inr 0, s) else with_pool_conn env cl (hdel_job cv key fds) s)"

text \<open>The pairs come in the order of the driver's hash map.\<close>

definition hgetall_job :: "conversions \<Rightarrow> string \<Rightarrow> (string \<times> bytes) list job" where
  "hgetall_job cv key = ask (as_pairs cv) (Method ''hgetall'' [Text key]) Inr"

definition hgetall where "hgetall env cv cl key = with_pool_conn env cl (hgetall_job cv key)"

section \<open>List\<close>

definition lpush_job :: "conversions \<Rightarrow> string \<Rightarrow> bytes \<Rightarrow> int job" where
  "lpush_job cv key v = ask (as_int cv) (Method ''lpush'' [Text key, Bytes v]) Inr"
definition lpush where "lpush env cv cl key v = with_pool_conn env cl (lpush_job cv key v)"

definition rpush_job :: "conversions \<Rightarrow> string \<Rightarrow> bytes \<Rightarrow> int job" where
  "rpush_job cv key v = ask (as_int cv) (Method ''rpush'' [Text key, Bytes v]) Inr"
definition rpush where "rpush env cv cl key v = with_pool_conn env cl (rpush_job cv key v)"

definition lpop_job :: "conversions \<Rightarrow> string \<Rightarrow> bytes option job" where
  "lpop_job cv key = ask (as_opt_bytes cv) (Method ''lpop'' [Text key]) Inr"
definition lpop where "lpop env cv cl key = with_pool_conn env cl (lpop_job cv key)"

definition lrange_job :: "conversions \<Rightarrow> string \<Rightarrow> int \<Rightarrow> int \<Rightarrow> bytes list job" where
  "lrange_job cv key start stop =
     ask (as_bytes_list cv) (Method ''lrange'' [Text key, Number start, Number stop]) Inr"
definition lrange where
  "lrange env cv cl key start stop = with_pool_conn env cl (lrange_job cv key start stop)"

text \<open>The budget of a blocking command: \<open>command_timeout.max(block + 1s)\<close>.\<close>

definition blocking_budget :: "pool_inner \<Rightarrow> duration \<Rightarrow> duration option" where
  "blocking_budget p block =
     map_option (max (p_command_timeout p)) (dur_add block (from_secs 1))"

definition blpop_seconds :: "duration \<Rightarrow> nat" where
  "blpop_seconds timeout = max (as_secs timeout) 1"

definition blpop_job :: "conversions \<Rightarrow> string \<Rightarrow> duration \<Rightarrow> (string \<times> bytes) option job" where
  "blpop_job cv key timeout =
     ask (as_opt_pair cv) (Command ''BLPOP'' [Text key, Number (int (blpop_seconds timeout))]) Inr"

definition blpop ::
    "'w env \<Rightarrow> conversions \<Rightarrow> string \<Rightarrow> duration \<Rightarrow> 'w sys \<Rightarrow> ((string \<times> bytes) option res \<times> 'w sys) option" where
  "blpop env cv key timeout s =
     map_option (\<lambda>budget. with_conn_budget env budget (blpop_job cv key timeout) s)
       (blocking_budget (pool s) timeout)"

section \<open>Set\<close>

definition sadd_job :: "conversions \<Rightarrow> string \<Rightarrow> bytes \<Rightarrow> int job" where
  "sadd_job cv key v = ask (as_int cv) (Method ''sadd'' [Text key, Bytes v]) Inr"
definition sadd where "sadd env cv cl key v = with_pool_conn env cl (sadd_job cv key v)"

definition sismember_job :: "conversions \<Rightarrow> string \<Rightarrow> bytes \<Rightarrow> bool job" where
  "sismember_job cv key v = ask (as_bool cv) (Method ''sismember'' [Text key, Bytes v]) Inr"
definition sismember where "sismember env cv cl key v = with_pool_conn env cl (sismember_job cv key v)"

definition srem_job :: "conversions \<Rightarrow> string \<Rightarrow> bytes \<Rightarrow> int job" where
  "srem_job cv key v = ask (as_int cv) (Method ''srem'' [Text key, Bytes v]) Inr"
definition srem where "srem env cv cl key v = with_pool_conn env cl (srem_job cv key v)"

section \<open>Sorted set\<close>

definition zadd_job :: "conversions \<Rightarrow> string \<Rightarrow> bytes \<Rightarrow> f64 \<Rightarrow> int job" where
  "zadd_job cv key v score = ask (as_int cv) (Method ''zadd'' [Text key, Bytes v, Float score]) Inr"
definition zadd where "zadd env cv cl key v score = with_pool_conn env cl (zadd_job cv key v score)"

definition zscore_job :: "conversions \<Rightarrow> string \<Rightarrow> bytes \<Rightarrow> f64 option job" where
  "zscore_job cv key v = ask (as_opt_float cv) (Method ''zscore'' [Text key, Bytes v]) Inr"
definition zscore where "zscore env cv cl key v = with_pool_conn env cl (zscore_job cv key v)"

definition zrem_job :: "conversions \<Rightarrow> string \<Rightarrow> bytes \<Rightarrow> int job" where
  "zrem_job cv key v = ask (as_int cv) (Method ''zrem'' [Text key, Bytes v]) Inr"
definition zrem where "zrem env cv cl key v = with_pool_conn env cl (zrem_job cv key v)"

section \<open>Blocking budgets\<close>

lemma blocking_budget_Some:
  "blocking_budget p block = Some b \<longleftrightarrow>
    block + 1000000000 \<le> dur_max \<and> b = max (p_command_timeout p) (block + 1000000000)"
  by (auto simp: blocking_budget_def dur_add_def from_secs_def)

lemma blpop_seconds_le: "from_secs (blpop_seconds timeout) \<le> timeout + 1000000000"
proof -
  have "timeout div 1000000000 * 1000000000 \<le> timeout" by simp
  then show ?thesis by (auto simp: blpop_seconds_def from_secs_def as_secs_def max_def)
qed

lemma blpop_accounted:
  assumes "others_ok env" and "blpop env cv key timeout s = Some (r, s')"
  shows "accounted (pool s) r (pool s')"
proof -
  from assms(2) obtain b where b: "blocking_budget (pool s) timeout = Some b"
    "with_conn_budget env b (blpop_job cv key timeout) s = (r, s')"
    by (auto simp: blpop_def)
  then have "b \<noteq> 0" by (auto simp: blocking_budget_Some)
  with b(2) show ?thesis
    unfolding with_conn_budget_def by (intro run_accounted [OF assms(1)]) simp_all
qed

text \<open>
  C40. \<open>BLPOP\<close>: the server is asked to block for at least a second and for no more than the client is
  prepared to wait, which is never less than the command timeout, so a block that runs its course
  does not by itself exceed the client's budget; a whole number of seconds is sent as it is, any
  other time-out of a second or more is cut down to the second below. Only a time-out within a
  second of the largest \<open>Duration\<close> makes the call panic.
\<close>

theorem blpop_budget:
  "(blpop env cv key timeout s = None \<longleftrightarrow> dur_max < timeout + 1000000000) \<and>
   (timeout + 1000000000 \<le> dur_max \<longrightarrow>
      (\<exists>budget. blpop env cv key timeout s = Some (with_conn_budget env budget (blpop_job cv key timeout) s) \<and>
         p_command_timeout (pool s) \<le> budget \<and> from_secs (blpop_seconds timeout) \<le> budget)) \<and>
   sent (blpop_job cv key timeout) replies = [Command ''BLPOP'' [Text key, Number (int (blpop_seconds timeout))]] \<and>
   1 \<le> blpop_seconds timeout \<and>
   (1000000000 \<le> timeout \<longrightarrow> from_secs (blpop_seconds timeout) \<le> timeout \<and>
      timeout < from_secs (blpop_seconds timeout + 1))"
proof -
  have whole: "from_secs (as_secs timeout) \<le> timeout" "timeout < from_secs (as_secs timeout + 1)"
    by (simp_all add: from_secs_def as_secs_def)
  moreover have "1000000000 \<le> timeout \<Longrightarrow> 1 \<le> as_secs timeout" by (simp add: as_secs_def)
  moreover have "from_secs (max (as_secs timeout) 1) \<le> timeout + 1000000000"
    using blpop_seconds_le [of timeout] by (simp add: blpop_seconds_def)
  ultimately show ?thesis
    by (auto simp: blpop_def blocking_budget_def dur_add_def from_secs_def blpop_job_def blpop_seconds_def)
qed

theorem blpop_budget_witness:
  "sent (blpop_job sample_conversions ''q'' 1900000000) [] = [Command ''BLPOP'' [Text ''q'', Number 1]] \<and>
   blpop sample_env sample_conversions ''q'' dur_max \<lparr>world = 0, pool = sample_pool\<rparr> = None"
  using blpop_budget [of sample_env sample_conversions "''q''" dur_max "\<lparr>world = 0, pool = sample_pool\<rparr>" "[]"]
    blpop_budget [of sample_env sample_conversions "''q''" 1900000000 "\<lparr>world = 0, pool = sample_pool\<rparr>" "[]"]
  by (simp add: blpop_seconds_def as_secs_def)

end
