(* ===== verification/Streams.thy ===== *)
theory Streams
  imports Structures
begin

text \<open>
  \<open>src/streams.rs\<close>: stream entries and the \<open>X\<close> commands, with the reading of \<open>XRANGE\<close> and \<open>XREAD\<close>
  replies.
\<close>

section \<open>Entries\<close>

record stream_entry =
  se_id :: string
  se_fields :: "(string \<times> bytes) list"

definition entry_field :: "stream_entry \<Rightarrow> string \<Rightarrow> bytes option" where
  "entry_field e name = map_option snd (find (\<lambda>(field, _). field = name) (se_fields e))"

definition entry_of :: "stream_item \<Rightarrow> stream_entry" where
  "entry_of item = \<lparr>se_id = fst item, se_fields = snd item\<rparr>"

section \<open>Writing\<close>

fun field_args :: "(string \<times> bytes) list \<Rightarrow> arg list" where
  "field_args [] = []"
| "field_args ((field, v) # rest) = Text field # Bytes v # field_args rest"

definition xadd_job :: "conversions \<Rightarrow> string \<Rightarrow> string \<Rightarrow> (string \<times> bytes) list \<Rightarrow> string job" where
  "xadd_job cv key sid fds =
     ask (as_string cv) (Command ''XADD'' (Text key # Text sid # field_args fds)) Inr"

definition xadd_with_id ::
    "'w env \<Rightarrow> conversions \<Rightarrow> client \<Rightarrow> string \<Rightarrow> string \<Rightarrow> (string \<times> bytes) list \<Rightarrow> 'w sys \<Rightarrow> string res \<times> 'w sys" where
  "xadd_with_id env cv cl key sid fds s =
     (if fds = [] then (Inl (Config (Msg ''XADD needs a field'' [])), s)
      else if blank sid then (Inl (Config (Msg ''XADD id empty'' [])), s)
      else with_pool_conn env cl (xadd_job cv key sid fds) s)"

definition xadd ::
    "'w env \<Rightarrow> conversions \<Rightarrow> client \<Rightarrow> string \<Rightarrow> (string \<times> bytes) list \<Rightarrow> 'w sys \<Rightarrow> string res \<times> 'w sys" where
  "xadd env cv cl key fds s = xadd_with_id env cv cl key ''*'' fds s"

definition xlen_job :: "conversions \<Rightarrow> string \<Rightarrow> int job" where
  "xlen_job cv key = ask (as_int cv) (Command ''XLEN'' [Text key]) Inr"
definition xlen where "xlen env cv cl key = with_pool_conn env cl (xlen_job cv key)"

section \<open>Reading\<close>

definition count_args :: "nat option \<Rightarrow> arg list" where
  "count_args count = (case count of Some n \<Rightarrow> [Text ''COUNT'', Number (int n)] | None \<Rightarrow> [])"

definition xrange_job ::
    "conversions \<Rightarrow> string \<Rightarrow> string \<Rightarrow> string \<Rightarrow> nat option \<Rightarrow> stream_entry list job" where
  "xrange_job cv key start stop count =
     ask (as_items cv) (Command ''XRANGE'' ([Text key, Text start, Text stop] @ count_args count))
       (\<lambda>raw. Inr (map entry_of raw))"

definition xrange where
  "xrange env cv cl key start stop count = with_pool_conn env cl (xrange_job cv key start stop count)"

text \<open>\<open>parse_xread_single\<close>: nothing for \<open>Nil\<close>, else the entries of every stream in order.\<close>

fun flatten_streams :: "(string \<times> stream_item list) list \<Rightarrow> stream_entry list" where
  "flatten_streams [] = []"
| "flatten_streams ((_, items) # rest) = map entry_of items @ flatten_streams rest"

definition parse_xread_single :: "conversions \<Rightarrow> arg list \<Rightarrow> stream_entry list job" where
  "parse_xread_single cv args =
     ask (as_streams cv) (Command ''XREAD'' args)
       (\<lambda>raw. Inr (case raw of None \<Rightarrow> [] | Some streams \<Rightarrow> flatten_streams streams))"

definition xread_job :: "conversions \<Rightarrow> string \<Rightarrow> string \<Rightarrow> nat option \<Rightarrow> stream_entry list job" where
  "xread_job cv key last_id count =
     parse_xread_single cv (count_args count @ [Text ''STREAMS'', Text key, Text last_id])"

definition xread where
  "xread env cv cl key last_id count = with_pool_conn env cl (xread_job cv key last_id count)"

definition block_millis :: "duration \<Rightarrow> nat" where
  "block_millis block = max (case try_u64 (as_millis block) of Some ms \<Rightarrow> ms | None \<Rightarrow> u64_max) 1"

definition xread_block_job ::
    "conversions \<Rightarrow> string \<Rightarrow> string \<Rightarrow> duration \<Rightarrow> nat option \<Rightarrow> stream_entry list job" where
  "xread_block_job cv key last_id block count =
     parse_xread_single cv ([Text ''BLOCK'', Number (int (block_millis block))] @ count_args count @
       [Text ''STREAMS'', Text key, Text last_id])"

definition xread_block ::
    "'w env \<Rightarrow> conversions \<Rightarrow> string \<Rightarrow> string \<Rightarrow> duration \<Rightarrow> nat option \<Rightarrow> 'w sys \<Rightarrow>
     (stream_entry list res \<times> 'w sys) option" where
  "xread_block env cv key last_id block count s =
     map_option (\<lambda>budget. with_conn_budget env budget (xread_block_job cv key last_id block count) s)
       (blocking_budget (pool s) block)"

section \<open>Deleting and acknowledging\<close>

definition xdel_job :: "conversions \<Rightarrow> string \<Rightarrow> string list \<Rightarrow> int job" where
  "xdel_job cv key ids = ask (as_int cv) (Command ''XDEL'' (Text key # map Text ids)) Inr"

definition xdel :: "'w env \<Rightarrow> conversions \<Rightarrow> client \<Rightarrow> string \<Rightarrow> string list \<Rightarrow> 'w sys \<Rightarrow> int res \<times> 'w sys" where
  "xdel env cv cl key ids s =
     (if ids = [] then (Inr 0, s) else with_pool_conn env cl (xdel_job cv key ids) s)"

definition xack_job :: "conversions \<Rightarrow> string \<Rightarrow> string \<Rightarrow> string list \<Rightarrow> int job" where
  "xack_job cv key grp ids =
     ask (as_int cv) (Command ''XACK'' (Text key # Text grp # map Text ids)) Inr"

definition xack ::
    "'w env \<Rightarrow> conversions \<Rightarrow> client \<Rightarrow> string \<Rightarrow> string \<Rightarrow> string list \<Rightarrow> 'w sys \<Rightarrow> int res \<times> 'w sys" where
  "xack env cv cl key grp ids s =
     (if ids = [] then (Inr 0, s)
      else if blank grp then (Inl (Config (Msg ''XACK group empty'' [])), s)
      else with_pool_conn env cl (xack_job cv key grp ids) s)"

section \<open>Properties\<close>

text \<open>Reading the arguments of an \<open>XADD\<close> back, two at a time, as the server does.\<close>

fun read_fields :: "arg list \<Rightarrow> (string \<times> bytes) list option" where
  "read_fields [] = Some []"
| "read_fields (Text field # Bytes v # rest) = map_option ((#) (field, v)) (read_fields rest)"
| "read_fields _ = None"

lemma read_field_args [simp]: "read_fields (field_args fds) = Some fds"
  by (induction fds rule: field_args.induct) simp_all

lemma find_first: "find (\<lambda>(f, _). f = name) xs = Some (f, v) \<Longrightarrow>
    \<exists>before after. xs = before @ (name, v) # after \<and> name \<notin> fst ` set before"
proof (induction xs)
  case (Cons x xs)
  show ?case
  proof (cases "fst x = name")
    case True
    with Cons.prems show ?thesis by (intro exI [of _ "[]"] exI [of _ xs]) (cases x; auto)
  next
    case False
    with Cons.prems have "find (\<lambda>(f, _). f = name) xs = Some (f, v)" by (cases x) auto
    from Cons.IH [OF this] obtain before after where
      "xs = before @ (name, v) # after" "name \<notin> fst ` set before" by blast
    with False show ?thesis by (intro exI [of _ "x # before"] exI [of _ after]) simp
  qed
qed simp



lemma flatten_streams_concat: "flatten_streams ss = map entry_of (concat (map snd ss))"
  by (induction ss rule: flatten_streams.induct) simp_all

lemma block_millis_le: "from_millis (block_millis block) \<le> block + 1000000000"
proof -
  have "block_millis block \<le> max (as_millis block) 1"
    by (simp add: block_millis_def try_u64_def)
  then have "from_millis (block_millis block) \<le> from_millis (max (as_millis block) 1)"
    by (simp add: from_millis_def)
  also have "\<dots> \<le> block + 1000000000"
  proof -
    have "block div 1000000 * 1000000 \<le> block" by simp
    then show ?thesis by (auto simp: from_millis_def as_millis_def max_def)
  qed
  finally show ?thesis .
qed

text \<open>
  Blocking reads. \<open>XREAD BLOCK\<close> never asks the server to block forever (0), asks for the whole
  milliseconds of the time given, and waits at least that long and at least the command timeout
  itself; no new messages, and an empty reply, both read as the empty list, and otherwise every
  entry of the reply is kept, in order.
\<close>

theorem xread_block_budget:
  assumes "block + 1000000000 \<le> dur_max"
  shows "(\<exists>budget. xread_block env cv key last_id block count s
        = Some (with_conn_budget env budget (xread_block_job cv key last_id block count) s) \<and>
        from_millis (block_millis block) \<le> budget \<and> p_command_timeout (pool s) \<le> budget) \<and>
    1 \<le> block_millis block \<and>
    (1000000 \<le> block \<and> as_millis block \<le> u64_max \<longrightarrow> from_millis (block_millis block) \<le> block \<and>
       block < from_millis (block_millis block + 1)) \<and>
    (as_streams cv v = Inr raw \<longrightarrow>
       outcome (xread_block_job cv key last_id block count) [Inr v] = Some (Inr
         (case raw of None \<Rightarrow> [] | Some streams \<Rightarrow> map entry_of (concat (map snd streams)))))"
proof -
  have m: "from_millis (as_millis block) \<le> block" "block < from_millis (as_millis block + 1)"
    by (simp_all add: from_millis_def as_millis_def)
  note block_millis_le [of block]
  moreover have "1000000 \<le> block \<Longrightarrow> as_millis block \<le> u64_max \<Longrightarrow> block_millis block = as_millis block"
    using as_millis_zero_iff [of block] by (simp add: block_millis_def try_u64_def max_def)
  moreover have "1 \<le> block_millis block" by (simp add: block_millis_def)
  ultimately show ?thesis
    using assms m flatten_streams_concat
    by (auto simp: xread_block_def blocking_budget_def dur_add_def from_secs_def xread_block_job_def
        parse_xread_single_def split: option.split)
qed

theorem xread_block_budget_witness:
  "1 \<le> block_millis 0 \<and>
   (\<exists>budget. xread_block sample_env sample_conversions ''s'' ''0'' 0 None \<lparr>world = 0, pool = sample_pool\<rparr>
      = Some (with_conn_budget sample_env budget (xread_block_job sample_conversions ''s'' ''0'' 0 None) \<lparr>world = 0, pool = sample_pool\<rparr>))"
  using xread_block_budget [of 0 sample_env sample_conversions "''s''" "''0''" None "\<lparr>world = 0, pool = sample_pool\<rparr>"] by fastforce

end
