(* ===== verification/Transaction.thy ===== *)
theory Transaction
  imports Client
begin

text \<open>\<open>src/transaction.rs\<close>: \<open>MULTI\<close>/\<open>EXEC\<close> as one atomic pipeline, and the batched \<open>SET\<close> on top of it.\<close>

datatype tx_cmd = TxSet string bytes | TxDel string | TxIncr string

definition tx_set :: "string \<Rightarrow> bytes \<Rightarrow> tx_cmd" where "tx_set key v = TxSet key v"
definition tx_del :: "string \<Rightarrow> tx_cmd" where "tx_del key = TxDel key"
definition tx_incr :: "string \<Rightarrow> tx_cmd" where "tx_incr key = TxIncr key"

fun command_name :: "tx_cmd \<Rightarrow> string" where
  "command_name (TxSet _ _) = ''SET''"
| "command_name (TxDel _) = ''DEL''"
| "command_name (TxIncr _) = ''INCR''"

fun tx_key :: "tx_cmd \<Rightarrow> string" where
  "tx_key (TxSet key _) = key"
| "tx_key (TxDel key) = key"
| "tx_key (TxIncr key) = key"

fun tx_pipe_cmd :: "tx_cmd \<Rightarrow> string \<times> arg list \<times> bool" where
  "tx_pipe_cmd (TxSet key v) = (''SET'', [Text key, Bytes v], False)"
| "tx_pipe_cmd (TxDel key) = (''DEL'', [Text key], False)"
| "tx_pipe_cmd (TxIncr key) = (''INCR'', [Text key], False)"

definition multi_job :: "conversions \<Rightarrow> tx_cmd list \<Rightarrow> reply_value list job" where
  "multi_job cv cmds = ask (as_values cv) (Pipe True (map tx_pipe_cmd cmds)) Inr"

definition multi_exec ::
    "'w env \<Rightarrow> conversions \<Rightarrow> client \<Rightarrow> tx_cmd list \<Rightarrow> 'w sys \<Rightarrow> reply_value list res \<times> 'w sys" where
  "multi_exec env cv cl cmds s =
     (if cmds = [] then (Inl (Config (Msg ''MULTI/EXEC needs a command'' [])), s)
      else with_pool_conn env cl (multi_job cv cmds) s)"

definition multi_set ::
    "'w env \<Rightarrow> conversions \<Rightarrow> client \<Rightarrow> (string \<times> bytes) list \<Rightarrow> 'w sys \<Rightarrow> unit res \<times> 'w sys" where
  "multi_set env cv cl items s =
     (if items = [] then (Inr (), s)
      else
        let (r, s) = multi_exec env cv cl (map (\<lambda>(key, v). TxSet key v) items) s
        in (map_ok (\<lambda>_. ()) r, s))"

section \<open>Properties\<close>

text \<open>The command a pipeline entry stands for.\<close>

fun read_pipe_cmd :: "string \<times> arg list \<times> bool \<Rightarrow> tx_cmd option" where
  "read_pipe_cmd (name, [Text key, Bytes v], False) = (if name = ''SET'' then Some (TxSet key v) else None)"
| "read_pipe_cmd (name, [Text key], False) =
     (if name = ''DEL'' then Some (TxDel key) else if name = ''INCR'' then Some (TxIncr key) else None)"
| "read_pipe_cmd _ = None"

lemma read_tx_pipe_cmd [simp]: "read_pipe_cmd (tx_pipe_cmd c) = Some c"
  by (cases c) simp_all

lemma map_read_tx [simp]: "map (read_pipe_cmd \<circ> tx_pipe_cmd) cmds = map Some cmds"
  by simp

text \<open>
  A transaction is one atomic request that holds exactly the commands queued, in order, each with
  its own name and none with its reply dropped; an empty transaction is refused without one. A
  driver that refuses the transaction as a whole (\<open>EXECABORT\<close>) gives a conflict, never retried.
\<close>

theorem transaction_is_one_atomic_request:
  "(\<exists>entries. sent (multi_job cv cmds) replies = [Pipe True entries] \<and>
      map read_pipe_cmd entries = map Some cmds \<and> map fst entries = map command_name cmds) \<and>
   multi_exec env cv cl [] s = (Inl (Config (Msg ''MULTI/EXEC needs a command'' [])), s) \<and>
   (kind err = ExecAbortError \<longrightarrow>
      (\<exists>e. outcome (multi_job cv cmds) [Inl err] = Some (Inl e) \<and> \<not> is_retryable e \<and> label e = ''conflict''))"
proof -
  have "fst (tx_pipe_cmd c) = command_name c" for c by (cases c) simp_all
  then have "map fst (map tx_pipe_cmd cmds) = map command_name cmds" by simp
  then show ?thesis
    by (auto simp: multi_job_def multi_exec_def map_redis_error_def)
qed

theorem transaction_is_one_atomic_request_witness:
  "\<exists>e. outcome (multi_job sample_conversions [TxIncr ''n'']) [Inl \<lparr>kind = ExecAbortError, shown = ''aborted''\<rparr>] = Some (Inl e) \<and>
     \<not> is_retryable e"
  using transaction_is_one_atomic_request [of sample_conversions "[TxIncr ''n'']" "[]" sample_env from_pool "\<lparr>world = 0, pool = sample_pool\<rparr>" "\<lparr>kind = ExecAbortError, shown = ''aborted''\<rparr>"]
  by fastforce

end
