(* ===== verification/Pubsub.thy ===== *)
theory Pubsub
  imports Connect
begin

text \<open>
  \<open>src/pubsub.rs\<close> and \<open>RedisPool::subscribe\<close>: a session with its own connections, for Standalone
  only, and the two message streams. A stream of the driver is a codatatype: it may never end.
\<close>

section \<open>Messages and feeds\<close>

record message =
  msg_channel :: bytes
  msg_payload :: bytes

codatatype 'a feed = Closed | Next (item: 'a) (rest: "'a feed")

primcorec feed_map :: "('a \<Rightarrow> 'b) \<Rightarrow> 'a feed \<Rightarrow> 'b feed" where
  "feed_map f s = (case s of Closed \<Rightarrow> Closed | Next x t \<Rightarrow> Next (f x) (feed_map f t))"

text \<open>\<open>chain(once(x))\<close>: the item comes after the end, if the end comes.\<close>

primcorec feed_then :: "'a feed \<Rightarrow> 'a \<Rightarrow> 'a feed" where
  "feed_then s x = (case s of Closed \<Rightarrow> Next x Closed | Next y t \<Rightarrow> Next y (feed_then t x))"

fun take_feed :: "nat \<Rightarrow> 'a feed \<Rightarrow> 'a list" where
  "take_feed 0 s = []"
| "take_feed (Suc n) s = (case s of Closed \<Rightarrow> [] | Next x t \<Rightarrow> x # take_feed n t)"

fun feed_of :: "'a list \<Rightarrow> 'a feed" where
  "feed_of [] = Closed"
| "feed_of (x # xs) = Next x (feed_of xs)"

text \<open>A raw message of the driver is its channel name and payload.\<close>

type_synonym raw_message = "string \<times> bytes"

definition from_redis :: "raw_message \<Rightarrow> message" where
  "from_redis m = \<lparr>msg_channel = fst m, msg_payload = snd m\<rparr>"

section \<open>Sessions\<close>

record session =
  ps_publish_conn :: nat
  ps_stream :: "raw_message feed option"
  ps_endpoint :: string

record 'w pubsub_driver =
  ps_driver :: "'w driver"
  get_pubsub :: "nat \<Rightarrow> 'w timed"
  subscribe_to :: "nat \<Rightarrow> string \<Rightarrow> duration \<Rightarrow> 'w \<Rightarrow> (driver_error + unit) option \<times> 'w"
  on_message :: "nat \<Rightarrow> 'w \<Rightarrow> raw_message feed"

definition pubsub_connection_info :: "redis_config \<Rightarrow> connection_info res" where
  "pubsub_connection_info c =
     (case c_mode c of
        Standalone \<Rightarrow> to_connection_info c
      | Cluster \<Rightarrow> Inl (Unsupported (Msg ''Pub/Sub does not support Cluster'' []))
      | Sentinel \<Rightarrow> Inl (Unsupported (Msg ''Pub/Sub does not support Sentinel'' [])))"

definition pubsub_manager_config :: "redis_config \<Rightarrow> manager_config" where
  "pubsub_manager_config c =
     \<lparr>mc_connection_timeout = c_connect_timeout c, mc_response_timeout = c_command_timeout c,
      mc_max_delay = None\<rparr>"

fun subscribe_all :: "'w pubsub_driver \<Rightarrow> duration \<Rightarrow> nat \<Rightarrow> string list \<Rightarrow> 'w \<Rightarrow> unit res \<times> 'w" where
  "subscribe_all drv limit pubsub [] w = (Inr (), w)"
| "subscribe_all drv limit pubsub (channel # channels) w =
     (case subscribe_to drv pubsub channel limit w of
        (None, w) \<Rightarrow> (Inl (Timeout (Msg ''subscribe timed out'' [])), w)
      | (Some r, w) \<Rightarrow>
          (case map_redis_result r of
             Inl e \<Rightarrow> (Inl e, w)
           | Inr _ \<Rightarrow> subscribe_all drv limit pubsub channels w))"

definition connect_config ::
    "'w pubsub_driver \<Rightarrow> redis_config \<Rightarrow> string list \<Rightarrow> 'w \<Rightarrow> session res \<times> 'w" where
  "connect_config drv c channels w =
     bind_io (and_then (pubsub_connection_info c)
         (\<lambda>info. map_err (\<lambda>e. Connection (Msg ''PubSub client failed'' [e])) (open_client (ps_driver drv) info)), w)
       (\<lambda>client w. bind_io
          (in_time ''pubsub publish connect timed out'' ''pubsub publish connect failed''
             (new_manager (ps_driver drv) client (pubsub_manager_config c) (c_connect_timeout c) w))
          (\<lambda>publish_conn w. bind_io
             (in_time ''pubsub subscribe connect timed out'' ''pubsub connect failed''
                (get_pubsub drv client (c_connect_timeout c) w))
             (\<lambda>pubsub w. bind_io (subscribe_all drv (c_command_timeout c) pubsub channels w)
                (\<lambda>_ w. (Inr \<lparr>ps_publish_conn = publish_conn, ps_stream = Some (on_message drv pubsub w),
                   ps_endpoint = display_endpoint c\<rparr>, w)))))"

definition pool_subscribe ::
    "'w pubsub_driver \<Rightarrow> string list \<Rightarrow> 'w sys \<Rightarrow> session res \<times> 'w sys" where
  "pool_subscribe drv channels s =
     (if p_closed (pool s) then (Inl pool_closed_error, s)
      else
        let (r, w) = connect_config drv (p_config (pool s)) channels (world s)
        in (r, s\<lparr>world := w\<rparr>))"

definition publish ::
    "'w pubsub_driver \<Rightarrow> conversions \<Rightarrow> session \<Rightarrow> string \<Rightarrow> bytes \<Rightarrow> 'w \<Rightarrow> unit res \<times> 'w" where
  "publish drv cv ses channel payload w =
     (let (reply, w) = plain_query (ps_driver drv) (StandaloneConn (ps_publish_conn ses))
            (Command ''PUBLISH'' [Text channel, Bytes payload]) w
      in (map_ok (\<lambda>_. ()) (map_redis_result (and_then reply (as_int cv))), w))"

text \<open>The endpoint getter and the \<open>Debug\<close> output of a session.\<close>

definition session_endpoint :: "session \<Rightarrow> string" where "session_endpoint ses = ps_endpoint ses"

definition session_debug :: "session \<Rightarrow> (string \<times> debug_field) list" where
  "session_debug ses = [(''endpoint'', DStr (ps_endpoint ses))]"

definition stream_taken_error :: redis_error where
  "stream_taken_error = Internal (Msg ''PubSub stream already taken'' [])"

definition into_message_stream :: "session \<Rightarrow> message feed res" where
  "into_message_stream ses =
     map_ok (feed_map from_redis) (ok_or stream_taken_error (ps_stream ses))"

definition into_result_message_stream :: "session \<Rightarrow> message res feed res" where
  "into_result_message_stream ses =
     map_ok (\<lambda>stream. feed_then (feed_map (\<lambda>m. Inr (from_redis m)) stream)
         (Inl (Connection (Msg ''pubsub connection lost'' []))))
       (ok_or stream_taken_error (ps_stream ses))"

section \<open>Facts on feeds\<close>

lemma feed_map_simps [simp]:
  "feed_map f Closed = Closed" "feed_map f (Next x t) = Next (f x) (feed_map f t)"
  by (subst feed_map.code, simp)+

lemma feed_then_simps [simp]:
  "feed_then Closed x = Next x Closed" "feed_then (Next y t) x = Next y (feed_then t x)"
  by (subst feed_then.code, simp)+

lemma feed_of_map: "feed_map f (feed_of xs) = feed_of (map f xs)"
  by (induction xs) simp_all

lemma feed_of_then: "feed_then (feed_of xs) x = feed_of (xs @ [x])"
  by (induction xs) simp_all

lemma take_feed_of [simp]: "take_feed n (feed_of xs) = take n xs"
  by (induction n arbitrary: xs) (simp, case_tac xs, simp_all)

lemma take_map: "take_feed n (feed_map f s) = map f (take_feed n s)"
  by (induction n arbitrary: s) (simp, case_tac s, simp_all)

lemma take_then: "length (take_feed n s) = n \<Longrightarrow> take_feed n (feed_then s x) = take_feed n s"
  by (induction n arbitrary: s) (simp, case_tac s, simp_all)

lemma bind_io_Inr:
  assumes "bind_io rw k = (Inr y, w')"
  obtains x w where "rw = (Inr x, w)" and "k x w = (Inr y, w')"
  using assms by (cases rw; cases "fst rw") (auto simp: bind_io_def)

lemma connect_config_endpoint: "connect_config d c channels w = (Inr ses, w') \<Longrightarrow> ps_endpoint ses = display_endpoint c"
  unfolding connect_config_def by (elim bind_io_Inr) auto

section \<open>Properties\<close>

text \<open>
  The two message streams. A connection that delivers messages and then ends gives the messages in
  order, bytes untouched, on both; the plain stream then just ends, the result stream ends with
  exactly one connection error, after all of them. While the connection lasts, and on a connection
  that never ends, the result stream shows the messages and no error.
\<close>

theorem message_streams:
  assumes "ps_stream ses = Some raw"
  shows "\<exists>plain results. into_message_stream ses = Inr plain \<and> into_result_message_stream ses = Inr results \<and>
    (\<forall>ms. raw = feed_of ms \<longrightarrow> plain = feed_of (map from_redis ms) \<and>
       results = feed_of (map (\<lambda>m. Inr (from_redis m)) ms @ [Inl (Connection (Msg ''pubsub connection lost'' []))])) \<and>
    (\<forall>n. length (take_feed n raw) = n \<longrightarrow>
       take_feed n results = map Inr (take_feed n plain) \<and> take_feed n plain = map from_redis (take_feed n raw))"
  using assms
  by (auto simp: into_message_stream_def into_result_message_stream_def feed_of_map feed_of_then take_map take_then)

definition sample_session :: session where
  "sample_session = \<lparr>ps_publish_conn = 0, ps_stream = Some (feed_of [(''news'', ''hello'')]), ps_endpoint = []\<rparr>"

theorem message_streams_witness:
  "into_result_message_stream sample_session
     = Inr (feed_of [Inr \<lparr>msg_channel = ''news'', msg_payload = ''hello''\<rparr>,
         Inl (Connection (Msg ''pubsub connection lost'' []))])"
proof -
  have "ps_stream sample_session = Some (feed_of [(''news'', ''hello'')])" by (simp add: sample_session_def)
  from message_streams [OF this] obtain results where
    r: "into_result_message_stream sample_session = Inr results" and
    e: "\<And>ms. feed_of [(''news'', ''hello'')] = feed_of ms \<Longrightarrow>
      results = feed_of (map (\<lambda>m. Inr (from_redis m)) ms @ [Inl (Connection (Msg ''pubsub connection lost'' []))])"
    by blast
  from r e [OF refl] show ?thesis by (simp add: from_redis_def)
qed

text \<open>
  Subscribing fails closed. A closed pool subscribes to nothing, and a Cluster or Sentinel
  configuration is refused as unsupported before any contact with the outside; the error is not
  retryable. In Standalone mode the connection is made with the credentials, database and TLS of the
  configuration, the same as the pool's own.
\<close>

theorem subscribe_fails_closed:
  "(p_closed (pool s) \<longrightarrow> pool_subscribe drv channels s = (Inl pool_closed_error, s)) \<and>
   (c_mode c \<noteq> Standalone \<longrightarrow>
      (\<exists>m. connect_config drv c channels w = (Inl (Unsupported m), w)) \<and> \<not> is_ok (pubsub_connection_info c)) \<and>
   (c_mode c = Standalone \<and> validate uenv c = Inr () \<longrightarrow>
      (\<exists>info. pubsub_connection_info c = Inr info \<and> secure_addr (ci_addr info) \<and> ci_redis info = own_redis_info c))"
proof (intro conjI impI)
  assume "c_mode c = Standalone \<and> validate uenv c = Inr ()"
  then show "\<exists>info. pubsub_connection_info c = Inr info \<and> secure_addr (ci_addr info) \<and> ci_redis info = own_redis_info c"
    by (auto elim!: valid_standalone_info [of uenv c] simp: pubsub_connection_info_def)
next
  assume "c_mode c \<noteq> Standalone"
  then show "\<exists>m. connect_config drv c channels w = (Inl (Unsupported m), w)" "\<not> is_ok (pubsub_connection_info c)"
    by (cases "c_mode c"; simp add: connect_config_def pubsub_connection_info_def bind_io_def)+
qed (simp add: pool_subscribe_def)

definition sample_pubsub_driver :: "nat pubsub_driver" where
  "sample_pubsub_driver =
     \<lparr>ps_driver = sample_driver, get_pubsub = (\<lambda>_ _ w. (Some (Inr 5), w)),
      subscribe_to = (\<lambda>_ _ _ w. (Some (Inr ()), w)), on_message = (\<lambda>_ _. Closed)\<rparr>"

theorem subscribe_fails_closed_witness:
  "\<exists>m. connect_config sample_pubsub_driver sample_cluster [''news''] 0 = (Inl (Unsupported m), 0)"
  using subscribe_fails_closed [of "\<lparr>world = 0, pool = sample_pool\<rparr>" sample_pubsub_driver "[''news'']" sample_cluster 0
      sample_url_env]
  by (simp add: sample_cluster_def)

end
