(* ===== verification/Pool_Conc.thy ===== *)
theory Pool_Conc
  imports Pool
begin

text \<open>
  The pool under concurrent callers: any number of tasks run \<open>acquire_with_timeout\<close>, commands on the
  lane they got, the drop of the permit, and \<open>close\<close>, interleaved at every atomic operation of
  \<open>src/pool/lifecycle.rs\<close>, \<open>src/pool/permit.rs\<close> and \<open>src/pool.rs\<close>. The semaphore is its documented
  counter of free permits. A waiting call may also be cancelled (its future dropped).
\<close>

section \<open>Tasks\<close>

text \<open>Where a task stands between two atomic operations.\<close>

datatype pc =
    Idle
  | Entered redis_backend       \<comment> \<open>open and connected when looked at; not yet counted as waiting\<close>
  | Waiting redis_backend       \<comment> \<open>counted, waiting for the semaphore\<close>
  | Granted redis_backend       \<comment> \<open>has a semaphore permit, still counted as waiting\<close>
  | Expired                     \<comment> \<open>timed out, still counted as waiting\<close>
  | TimedOut                    \<comment> \<open>no longer counted as waiting; counts the time-out next\<close>
  | HasPermit redis_backend     \<comment> \<open>no longer counted as waiting; looks at \<open>closed\<close> next\<close>
  | Cleared redis_backend       \<comment> \<open>saw the pool open the second time\<close>
  | Refused                     \<comment> \<open>saw it closed; gives the permit back next\<close>
  | Rejecting                   \<comment> \<open>saw it closed, without a permit; counts the rejection next\<close>
  | Flying redis_backend        \<comment> \<open>counted as in flight; may run commands\<close>
  | Dropped                     \<comment> \<open>no longer in flight; gives the permit back next\<close>
  | Finished "redis_error option"
  | Draining                    \<comment> \<open>in the loop of \<open>close\<close>\<close>
  | CloseDone bool

record shared =
  sh_pool :: pool_inner
  sh_permits :: nat
  sh_cancelled :: nat

record conc =
  cs_shared :: shared
  cs_tasks :: "pc list"

definition on_pool :: "(pool_inner \<Rightarrow> pool_inner) \<Rightarrow> shared \<Rightarrow> shared" where
  "on_pool f sh = sh\<lparr>sh_pool := f (sh_pool sh)\<rparr>"

definition take_permit :: "shared \<Rightarrow> shared" where
  "take_permit sh = sh\<lparr>sh_permits := sh_permits sh - 1\<rparr>"

definition give_permit :: "shared \<Rightarrow> shared" where
  "give_permit sh = sh\<lparr>sh_permits := sh_permits sh + 1\<rparr>"

section \<open>One atomic step of a task\<close>

inductive tstep :: "shared \<Rightarrow> pc \<Rightarrow> shared \<Rightarrow> pc \<Rightarrow> bool" where
  closed_first: "p_closed (sh_pool sh) \<Longrightarrow> tstep sh Idle sh Rejecting"
| reject: "tstep sh Rejecting (on_pool count_rejected sh) (Finished (Some pool_closed_error))"
| unconnected: "\<not> p_closed (sh_pool sh) \<Longrightarrow> p_backend (sh_pool sh) = None \<Longrightarrow>
    tstep sh Idle sh (Finished (Some (Connection (Msg ''pool not connected'' []))))"
| look: "\<not> p_closed (sh_pool sh) \<Longrightarrow> p_backend (sh_pool sh) = Some conn \<Longrightarrow> tstep sh Idle sh (Entered conn)"
| no_budget: "tstep sh (Entered conn) (on_pool count_acquire_timeout sh)
    (Finished (Some (Timeout (Msg ''acquire budget is 0'' []))))"
| queue: "tstep sh (Entered conn) (on_pool enter_wait sh) (Waiting conn)"
| grant: "0 < sh_permits sh \<Longrightarrow> tstep sh (Waiting conn) (take_permit sh) (Granted conn)"
| expire: "tstep sh (Waiting conn) sh Expired"
| cancel: "tstep sh (Waiting conn) (sh\<lparr>sh_cancelled := sh_cancelled sh + 1\<rparr>) (Finished None)"
| leave_granted: "tstep sh (Granted conn) (on_pool leave_wait sh) (HasPermit conn)"
| leave_expired: "tstep sh Expired (on_pool leave_wait sh) TimedOut"
| time_out: "tstep sh TimedOut (on_pool count_acquire_timeout sh)
    (Finished (Some (Timeout (Msg ''acquire timed out'' [show_nat (p_max_in_flight (sh_pool sh))]))))"
| still_open: "\<not> p_closed (sh_pool sh) \<Longrightarrow> tstep sh (HasPermit conn) sh (Cleared conn)"
| now_closed: "p_closed (sh_pool sh) \<Longrightarrow> tstep sh (HasPermit conn) sh Refused"
| give_back: "tstep sh Refused (give_permit sh) Rejecting"
| fly: "tstep sh (Cleared conn) (on_pool enter_flight sh) (Flying conn)"
| command: "f \<in> {count_ok, count_err, count_timeout} \<Longrightarrow> tstep sh (Flying conn) (on_pool f sh) (Flying conn)"
| land: "tstep sh (Flying conn) (on_pool leave_flight sh) Dropped"
| free: "tstep sh Dropped (give_permit sh) (Finished None)"
| again: "tstep sh (Finished r) sh Idle"
| shut: "tstep sh Idle (on_pool (p_closed_update (\<lambda>_. True)) sh) Draining"
| drained: "p_in_flight (sh_pool sh) = 0 \<Longrightarrow> tstep sh Draining sh (CloseDone True)"
| deadline: "p_in_flight (sh_pool sh) \<noteq> 0 \<Longrightarrow> tstep sh Draining sh (CloseDone False)"
| closed_again: "tstep sh (CloseDone ok) sh Idle"

inductive_cases tstep_FlyingE: "tstep sh pc sh' (Flying conn)"
inductive_cases tstep_ClearedE: "tstep sh pc sh' (Cleared conn)"
inductive_simps tstep_Draining [simp]: "tstep sh Draining sh' pc'"

inductive step :: "conc \<Rightarrow> conc \<Rightarrow> bool" where
  task: "i < length (cs_tasks s) \<Longrightarrow> tstep (cs_shared s) (cs_tasks s ! i) sh pc \<Longrightarrow>
    step s \<lparr>cs_shared = sh, cs_tasks = (cs_tasks s)[i := pc]\<rparr>"

inductive_cases stepE: "step s s'"

text \<open>A pool as it comes from \<open>from_parts\<close>, with \<open>n\<close> tasks that have not begun.\<close>

definition conc_init :: "redis_config \<Rightarrow> redis_backend \<Rightarrow> nat \<Rightarrow> conc \<Rightarrow> bool" where
  "conc_init c b n s \<longleftrightarrow>
     (\<exists>p. from_parts c (Some b) = Some p \<and>
        s = \<lparr>cs_shared = \<lparr>sh_pool = p, sh_permits = p_max_in_flight p, sh_cancelled = 0\<rparr>,
             cs_tasks = replicate n Idle\<rparr>)"

section \<open>Counting tasks\<close>

definition tally :: "(pc \<Rightarrow> bool) \<Rightarrow> pc list \<Rightarrow> nat" where
  "tally P ts = length (filter P ts)"

fun flying :: "pc \<Rightarrow> bool" where
  "flying (Flying _) = True"
| "flying _ = False"

fun queued :: "pc \<Rightarrow> bool" where
  "queued (Waiting _) = True"
| "queued (Granted _) = True"
| "queued Expired = True"
| "queued _ = False"

fun holding :: "pc \<Rightarrow> bool" where
  "holding (Granted _) = True"
| "holding (HasPermit _) = True"
| "holding (Cleared _) = True"
| "holding Refused = True"
| "holding (Flying _) = True"
| "holding Dropped = True"
| "holding _ = False"

text \<open>Between two calls.\<close>

fun resting :: "pc \<Rightarrow> bool" where
  "resting Idle = True"
| "resting (Finished _) = True"
| "resting (CloseDone _) = True"
| "resting _ = False"

lemma tally_update:
  "i < length ts \<Longrightarrow> tally P (ts[i := x]) + (if P (ts ! i) then 1 else 0) = tally P ts + (if P x then 1 else 0)"
  unfolding tally_def by (rule length_filter_update)

lemma tally_mono: "(\<And>x. P x \<Longrightarrow> Q x) \<Longrightarrow> tally P ts \<le> tally Q ts"
  unfolding tally_def by (induction ts) auto

lemma tally_replicate [simp]: "tally P (replicate n x) = (if P x then n else 0)"
  by (simp add: tally_def)

lemma tally_in: "i < length ts \<Longrightarrow> P (ts ! i) \<Longrightarrow> 0 < tally P ts"
  unfolding tally_def by (auto simp: filter_empty_conv)

section \<open>The invariant\<close>

definition lanes_ok :: "conc \<Rightarrow> bool" where
  "lanes_ok s \<longleftrightarrow>
     sh_permits (cs_shared s) + tally holding (cs_tasks s) = p_max_in_flight (sh_pool (cs_shared s)) \<and>
     p_max_in_flight (sh_pool (cs_shared s)) \<le> semaphore_max \<and>
     p_in_flight (sh_pool (cs_shared s)) = of_nat (tally flying (cs_tasks s)) \<and>
     p_waiters (sh_pool (cs_shared s)) = of_nat (tally queued (cs_tasks s) + sh_cancelled (cs_shared s))"

lemma on_pool_simps [simp]:
  "sh_pool (on_pool f sh) = f (sh_pool sh)" "sh_permits (on_pool f sh) = sh_permits sh"
  "sh_cancelled (on_pool f sh) = sh_cancelled sh"
  "sh_pool (take_permit sh) = sh_pool sh" "sh_permits (take_permit sh) = sh_permits sh - 1"
  "sh_cancelled (take_permit sh) = sh_cancelled sh"
  "sh_pool (give_permit sh) = sh_pool sh" "sh_permits (give_permit sh) = sh_permits sh + 1"
  "sh_cancelled (give_permit sh) = sh_cancelled sh"
  by (simp_all add: on_pool_def take_permit_def give_permit_def)

text \<open>What one step does to the three counters, against the places it moves between.\<close>

lemma tstep_balance:
  assumes "tstep sh pc sh' pc'"
  shows "sh_permits sh' + (if holding pc' then 1 else 0) = sh_permits sh + (if holding pc then 1 else 0)"
    and "p_max_in_flight (sh_pool sh') = p_max_in_flight (sh_pool sh)"
    and "p_in_flight (sh_pool sh') + (if flying pc then 1 else 0) = p_in_flight (sh_pool sh) + (if flying pc' then 1 else 0)"
    and "p_waiters (sh_pool sh') + (if queued pc then 1 else 0) + of_nat (sh_cancelled sh)
      = p_waiters (sh_pool sh) + (if queued pc' then 1 else 0) + of_nat (sh_cancelled sh')"
  using assms by (cases rule: tstep.cases; auto simp: pool_simps)+

lemma lanes_ok_step:
  assumes "lanes_ok s" and "step s s'"
  shows "lanes_ok s'"
proof -
  from assms(2) obtain i sh pc where 1: "s' = \<lparr>cs_shared = sh, cs_tasks = (cs_tasks s)[i := pc]\<rparr>"
    "i < length (cs_tasks s)" "tstep (cs_shared s) (cs_tasks s ! i) sh pc"
    by (auto elim: stepE)
  note bal = tstep_balance [OF 1(3)]
  have word: "of_nat (tally P ((cs_tasks s)[i := pc])) + (if P (cs_tasks s ! i) then 1 else 0)
      = (of_nat (tally P (cs_tasks s)) + (if P pc then 1 else 0) :: 64 word)" for P
    using arg_cong [OF tally_update [OF 1(2), of P pc], of "of_nat :: nat \<Rightarrow> 64 word"] by (simp split: if_splits)
  have "sh_permits sh + tally holding ((cs_tasks s)[i := pc]) = p_max_in_flight (sh_pool sh)"
    using bal(1,2) tally_update [OF 1(2), of holding pc] assms(1) by (simp add: lanes_ok_def split: if_splits)
  moreover have "p_in_flight (sh_pool sh) = of_nat (tally flying ((cs_tasks s)[i := pc]))"
  proof -
    have "p_in_flight (sh_pool sh) + (if flying (cs_tasks s ! i) then 1 else 0)
        = of_nat (tally flying ((cs_tasks s)[i := pc])) + (if flying (cs_tasks s ! i) then 1 else 0)"
      unfolding bal(3) word using assms(1) by (simp add: lanes_ok_def)
    then show ?thesis by simp
  qed
  moreover have "p_waiters (sh_pool sh) = of_nat (tally queued ((cs_tasks s)[i := pc]) + sh_cancelled sh)"
  proof -
    have "p_waiters (sh_pool sh) + ((if queued (cs_tasks s ! i) then 1 else 0) + of_nat (sh_cancelled (cs_shared s)))
        = of_nat (tally queued ((cs_tasks s)[i := pc])) + (if queued (cs_tasks s ! i) then 1 else 0)
          + of_nat (sh_cancelled sh) + of_nat (sh_cancelled (cs_shared s))"
      unfolding word using bal(4) assms(1) by (simp add: lanes_ok_def algebra_simps)
    then show ?thesis by (simp add: algebra_simps)
  qed
  ultimately show ?thesis using 1(1) bal(2) assms(1) by (simp add: lanes_ok_def)
qed

lemma lanes_ok_init: "conc_init c b n s \<Longrightarrow> lanes_ok s"
  by (auto simp: conc_init_def lanes_ok_def from_parts_def split: if_splits)

interpretation lanes: invariant_system "conc_init c b n" step lanes_ok for c b n
  by unfold_locales (auto intro: lanes_ok_init lanes_ok_step)

lemma tstep_max: "tstep sh pc sh' pc' \<Longrightarrow> p_max_in_flight (sh_pool sh') = p_max_in_flight (sh_pool sh)"
  by (rule tstep_balance)

interpretation limit: invariant_system "conc_init c b n" step
    "\<lambda>s. p_max_in_flight (sh_pool (cs_shared s)) = c_max_in_flight c" for c b n
proof unfold_locales
  fix s assume "conc_init c b n s"
  then show "p_max_in_flight (sh_pool (cs_shared s)) = c_max_in_flight c"
    by (auto simp: conc_init_def from_parts_def split: if_splits)
next
  fix s t assume "p_max_in_flight (sh_pool (cs_shared s)) = c_max_in_flight c" "step s t"
  then show "p_max_in_flight (sh_pool (cs_shared t)) = c_max_in_flight c"
    by (auto elim!: stepE dest: tstep_max)
qed

lemma reach_flying:
  assumes "reach (conc_init c b n) step s"
  shows "tally flying (cs_tasks s) \<le> c_max_in_flight c \<and>
    unat (p_in_flight (sh_pool (cs_shared s))) = tally flying (cs_tasks s) \<and>
    sh_permits (cs_shared s) + tally holding (cs_tasks s) = c_max_in_flight c"
proof -
  have inv: "lanes_ok s" by (rule lanes.invariant [OF assms])
  have max: "p_max_in_flight (sh_pool (cs_shared s)) = c_max_in_flight c" by (rule limit.invariant [OF assms])
  have "flying x \<Longrightarrow> holding x" for x by (cases x) simp_all
  then have "tally flying (cs_tasks s) \<le> tally holding (cs_tasks s)" by (rule tally_mono)
  with inv max have le: "tally flying (cs_tasks s) \<le> c_max_in_flight c" "c_max_in_flight c \<le> semaphore_max"
    by (simp_all add: lanes_ok_def)
  then have "tally flying (cs_tasks s) < 2 ^ LENGTH(64)" by (simp add: semaphore_max_def)
  then have "unat (p_in_flight (sh_pool (cs_shared s))) = tally flying (cs_tasks s)"
    using inv by (simp add: lanes_ok_def unat_of_nat)
  with le inv max show ?thesis by (simp add: lanes_ok_def)
qed

section \<open>Closing under concurrency\<close>

fun aloft :: "pc \<Rightarrow> bool" where
  "aloft (Cleared _) = True"
| "aloft (Flying _) = True"
| "aloft _ = False"

lemma tstep_closed:
  assumes "tstep sh pc sh' pc'" and "p_closed (sh_pool sh)"
  shows "p_closed (sh_pool sh') \<and> (aloft pc' \<longrightarrow> aloft pc)"
  using assms by (cases rule: tstep.cases; auto simp: pool_simps)

lemma closed_barrier:
  assumes "step\<^sup>*\<^sup>* s t" and "p_closed (sh_pool (cs_shared s))"
  shows "p_closed (sh_pool (cs_shared t)) \<and> length (cs_tasks t) = length (cs_tasks s) \<and>
    (\<forall>i < length (cs_tasks s). aloft (cs_tasks t ! i) \<longrightarrow> aloft (cs_tasks s ! i))"
  using assms(1)
proof (induction rule: rtranclp_induct)
  case base
  with assms(2) show ?case by simp
next
  case (step u t)
  from step.hyps(2) obtain i sh pc where t: "t = \<lparr>cs_shared = sh, cs_tasks = (cs_tasks u)[i := pc]\<rparr>"
    "i < length (cs_tasks u)" "tstep (cs_shared u) (cs_tasks u ! i) sh pc"
    by (auto elim: stepE)
  from step.IH tstep_closed [OF t(3)] t(1,2) show ?case
    by (auto simp: nth_list_update)
qed

section \<open>Properties\<close>

text \<open>
  C1. Bounded concurrency. However many tasks share the pool and however they interleave, time out or
  are cancelled, at most \<open>max_in_flight\<close> of them hold a lane at a time, the in-flight counter is
  exactly their number and never wraps, and no semaphore permit is ever lost or made up.
\<close>

theorem bounded_concurrency:
  assumes "reach (conc_init c b n) step s"
  shows "tally flying (cs_tasks s) \<le> c_max_in_flight c \<and>
    unat (p_in_flight (sh_pool (cs_shared s))) = tally flying (cs_tasks s) \<and>
    sh_permits (cs_shared s) + tally holding (cs_tasks s) = c_max_in_flight c"
  by (rule reach_flying [OF assms])

definition first_pool :: pool_inner where
  "first_pool = the (from_parts default_config (Some (StandaloneConn 0)))"

definition conc_start :: "nat \<Rightarrow> conc" where
  "conc_start n = \<lparr>cs_shared = \<lparr>sh_pool = first_pool, sh_permits = 256, sh_cancelled = 0\<rparr>, cs_tasks = replicate n Idle\<rparr>"

lemma first_pool_fields:
  "from_parts default_config (Some (StandaloneConn 0)) = Some first_pool"
  "\<not> p_closed first_pool" "p_backend first_pool = Some (StandaloneConn 0)" "p_in_flight first_pool = 0"
  "p_max_in_flight first_pool = 256"
  by (simp_all add: first_pool_def from_parts_def default_config_def semaphore_max_def)

lemma conc_start_init: "conc_init default_config (StandaloneConn 0) n (conc_start n)"
  by (simp add: conc_init_def conc_start_def first_pool_fields)

lemma conc_start_reach: "reach (conc_init default_config (StandaloneConn 0) n) step (conc_start n)"
  using conc_start_init by (rule reach.base)

theorem bounded_concurrency_witness:
  "tally flying (cs_tasks (conc_start 1000)) \<le> 256"
  using bounded_concurrency [OF conc_start_reach, of 1000] by (simp add: default_config_def)

text \<open>
  C30. Quiescence. When every task is between two calls, nothing is in flight and every semaphore permit is
  back; the waiter counter is then the number of calls that were cancelled while they waited, so it is
  zero exactly as long as no waiting call has ever been cancelled (up to the 64 bits of the counter).
\<close>

theorem quiescent_pool:
  assumes "reach (conc_init c b n) step s" and "\<forall>t \<in> set (cs_tasks s). resting t"
  shows "p_in_flight (sh_pool (cs_shared s)) = 0 \<and> sh_permits (cs_shared s) = c_max_in_flight c \<and>
    p_waiters (sh_pool (cs_shared s)) = of_nat (sh_cancelled (cs_shared s))"
proof -
  have "\<not> flying t \<and> \<not> holding t \<and> \<not> queued t" if "t \<in> set (cs_tasks s)" for t
    using assms(2) that by (cases t) auto
  then have "tally flying (cs_tasks s) = 0" "tally holding (cs_tasks s) = 0" "tally queued (cs_tasks s) = 0"
    by (simp_all add: tally_def filter_empty_conv)
  with lanes.invariant [OF assms(1)] reach_flying [OF assms(1)] show ?thesis
    by (simp add: lanes_ok_def)
qed

lemma one_step:
  "i < length ts \<Longrightarrow> tstep sh (ts ! i) sh' pc \<Longrightarrow> ts[i := pc] = ts' \<Longrightarrow>
    reach start step \<lparr>cs_shared = sh, cs_tasks = ts\<rparr> \<Longrightarrow> reach start step \<lparr>cs_shared = sh', cs_tasks = ts'\<rparr>"
  using step.task [of i "\<lparr>cs_shared = sh, cs_tasks = ts\<rparr>" sh' pc] by (auto intro: reach.more)

text \<open>A task that waits and is cancelled.\<close>

lemma waiting_reachable:
  "\<exists>sh. reach (conc_init default_config (StandaloneConn 0) 1) step \<lparr>cs_shared = sh, cs_tasks = [Waiting (StandaloneConn 0)]\<rparr> \<and>
     sh_cancelled sh = 0 \<and> \<not> p_closed (sh_pool sh)"
proof -
  let ?sh0 = "\<lparr>sh_pool = first_pool, sh_permits = 256, sh_cancelled = 0\<rparr>"
  let ?sh1 = "on_pool enter_wait ?sh0"
  let ?r = "\<lambda>sh ts. reach (conc_init default_config (StandaloneConn 0) 1) step \<lparr>cs_shared = sh, cs_tasks = ts\<rparr>"
  have "?r ?sh0 [Idle]" using conc_start_reach [of 1] by (simp add: conc_start_def)
  then have "?r ?sh0 [Entered (StandaloneConn 0)]"
    by (rule one_step [of 0, rotated -1]) (auto intro!: look simp: first_pool_fields)
  then have "?r ?sh1 [Waiting (StandaloneConn 0)]"
    by (rule one_step [of 0, rotated -1]) (auto intro!: queue)
  then show ?thesis by (intro exI [of _ ?sh1]) (simp add: first_pool_fields pool_simps)
qed

lemma cancelled_reachable:
  "\<exists>sh. reach (conc_init default_config (StandaloneConn 0) 1) step \<lparr>cs_shared = sh, cs_tasks = [Finished None]\<rparr> \<and>
     sh_cancelled sh = 1"
proof -
  obtain sh where w: "reach (conc_init default_config (StandaloneConn 0) 1) step
      \<lparr>cs_shared = sh, cs_tasks = [Waiting (StandaloneConn 0)]\<rparr>" "sh_cancelled sh = 0"
    using waiting_reachable by blast
  from w(1) have "reach (conc_init default_config (StandaloneConn 0) 1) step
      \<lparr>cs_shared = sh\<lparr>sh_cancelled := sh_cancelled sh + 1\<rparr>, cs_tasks = [Finished None]\<rparr>"
    by (rule one_step [of 0, rotated -1]) (use tstep.cancel [of sh "StandaloneConn 0"] in simp_all)
  then show ?thesis using w(2) by fastforce
qed

theorem quiescent_pool_witness:
  "\<exists>s. reach (conc_init default_config (StandaloneConn 0) 1) step s \<and>
     p_in_flight (sh_pool (cs_shared s)) = 0 \<and> p_waiters (sh_pool (cs_shared s)) = 1"
proof -
  obtain sh where s: "reach (conc_init default_config (StandaloneConn 0) 1) step \<lparr>cs_shared = sh, cs_tasks = [Finished None]\<rparr>"
    "sh_cancelled sh = 1" using cancelled_reachable by blast
  from quiescent_pool [OF s(1)] s show ?thesis by fastforce
qed

text \<open>
  C22. The barrier of \<open>close\<close>. Once a pool is closed it stays closed and no task gets a lane any more
  unless it had already passed its last check of the flag: the tasks that are about to be counted as
  in flight, or are in flight, can only become fewer; if there are none, none will ever be.
\<close>

theorem close_is_a_barrier:
  assumes "step\<^sup>*\<^sup>* s t" and "p_closed (sh_pool (cs_shared s))"
  shows "p_closed (sh_pool (cs_shared t)) \<and>
    (\<forall>i < length (cs_tasks s). aloft (cs_tasks t ! i) \<longrightarrow> aloft (cs_tasks s ! i)) \<and>
    ((\<forall>x \<in> set (cs_tasks s). \<not> aloft x) \<longrightarrow> (\<forall>x \<in> set (cs_tasks t). \<not> aloft x))"
  using closed_barrier [OF assms] by (metis in_set_conv_nth)

theorem close_is_a_barrier_witness:
  "p_closed (sh_pool (cs_shared \<lparr>cs_shared = \<lparr>sh_pool = first_pool\<lparr>p_closed := True\<rparr>, sh_permits = 256, sh_cancelled = 0\<rparr>,
     cs_tasks = [Idle, Draining]\<rparr>))"
  using close_is_a_barrier [of "\<lparr>cs_shared = \<lparr>sh_pool = first_pool\<lparr>p_closed := True\<rparr>, sh_permits = 256, sh_cancelled = 0\<rparr>,
     cs_tasks = [Idle, Draining]\<rparr>", OF rtranclp.rtrancl_refl] by simp

text \<open>
  C37. What \<open>close\<close> does not promise. There is a run in which \<open>close\<close> has returned success, with nothing
  in flight, and afterwards a task that had passed its last check is counted as in flight and runs a
  command to its end on the closed pool.
\<close>

theorem command_after_close:
  "\<exists>s t. reach (conc_init default_config (StandaloneConn 0) 2) step s \<and>
     cs_tasks s ! 1 = CloseDone True \<and> p_closed (sh_pool (cs_shared s)) \<and> p_in_flight (sh_pool (cs_shared s)) = 0 \<and>
     step\<^sup>*\<^sup>* s t \<and> flying (cs_tasks t ! 0) \<and> p_in_flight (sh_pool (cs_shared t)) = 1 \<and>
     p_commands_ok (sh_pool (cs_shared t)) = p_commands_ok (sh_pool (cs_shared s)) + 1"
proof -
  let ?b = "StandaloneConn 0"
  let ?sh0 = "\<lparr>sh_pool = first_pool, sh_permits = 256, sh_cancelled = 0\<rparr>"
  let ?sh1 = "on_pool enter_wait ?sh0"
  let ?sh2 = "take_permit ?sh1"
  let ?sh3 = "on_pool leave_wait ?sh2"
  let ?sh4 = "on_pool (p_closed_update (\<lambda>_. True)) ?sh3"
  let ?sh5 = "on_pool enter_flight ?sh4"
  let ?sh6 = "on_pool count_ok ?sh5"
  let ?r = "\<lambda>sh ts. reach (conc_init default_config ?b 2) step \<lparr>cs_shared = sh, cs_tasks = ts\<rparr>"
  have "?r ?sh0 [Idle, Idle]" using conc_start_reach [of 2] by (simp add: conc_start_def numeral_2_eq_2)
  then have "?r ?sh0 [Entered ?b, Idle]"
    by (rule one_step [of 0, rotated -1]) (auto intro!: look simp: first_pool_fields)
  then have "?r ?sh1 [Waiting ?b, Idle]"
    by (rule one_step [of 0, rotated -1]) (auto intro!: queue)
  then have "?r ?sh2 [Granted ?b, Idle]"
    by (rule one_step [of 0, rotated -1]) (auto intro!: grant)
  then have "?r ?sh3 [HasPermit ?b, Idle]"
    by (rule one_step [of 0, rotated -1]) (auto intro!: leave_granted)
  then have "?r ?sh3 [Cleared ?b, Idle]"
    by (rule one_step [of 0, rotated -1]) (auto intro!: still_open simp: first_pool_fields)
  then have "?r ?sh4 [Cleared ?b, Draining]"
    by (rule one_step [of 1, rotated -1]) (auto intro!: tstep.shut)
  then have closed: "?r ?sh4 [Cleared ?b, CloseDone True]"
    by (rule one_step [of 1, rotated -1]) (auto simp: first_pool_fields)
  let ?s = "\<lparr>cs_shared = ?sh4, cs_tasks = [Cleared ?b, CloseDone True]\<rparr>"
  let ?u = "\<lparr>cs_shared = ?sh5, cs_tasks = [Flying ?b, CloseDone True]\<rparr>"
  let ?t = "\<lparr>cs_shared = ?sh6, cs_tasks = [Flying ?b, CloseDone True]\<rparr>"
  have "step ?s ?u" using step.task [of 0 ?s ?sh5 "Flying ?b"] by (simp add: fly)
  moreover have "step ?u ?t" using step.task [of 0 ?u ?sh6 "Flying ?b"] by (simp add: command)
  ultimately have "step\<^sup>*\<^sup>* ?s ?t" by (meson r_into_rtranclp rtranclp_trans)
  moreover have "p_in_flight (sh_pool ?sh4) = 0" "p_in_flight (sh_pool ?sh6) = 1"
    "p_commands_ok (sh_pool ?sh6) = p_commands_ok (sh_pool ?sh4) + 1"
    by (simp_all add: first_pool_fields pool_simps)
  ultimately show ?thesis using closed by (intro exI [of _ ?s] exI [of _ ?t]) simp
qed

end
