(* ===== verification/Pool_Refine.thy ===== *)
theory Pool_Refine
  imports Pool_Conc
begin

text \<open>
  The two models of the pool fit together. A call as \<open>Pool\<close> computes it, with other tasks that may close
  the pool at any await, is a run of the interleaved system of \<open>Pool_Conc\<close>: task 0 makes the call and
  task 1 does the closing. And in the interleaved system no lane is ever lost: a waiting task can
  always be served, and a closed pool can always be drained.
\<close>

section \<open>Runs of two tasks\<close>

definition duo :: "shared \<Rightarrow> pc \<Rightarrow> pc \<Rightarrow> conc" where
  "duo sh pc x = \<lparr>cs_shared = sh, cs_tasks = [pc, x]\<rparr>"

lemma duo_step: "tstep sh pc sh' pc' \<Longrightarrow> step (duo sh pc x) (duo sh' pc' x)"
  using step.task [of 0 "duo sh pc x" sh' pc'] by (simp add: duo_def)

lemma duo_then:
  "step\<^sup>*\<^sup>* st (duo sh pc x) \<Longrightarrow> tstep sh pc sh' pc' \<Longrightarrow> step\<^sup>*\<^sup>* st (duo sh' pc' x)"
  by (blast intro: rtranclp.rtrancl_into_rtrancl duo_step)

text \<open>The other task has nothing left to do once the pool is closed, or has not begun.\<close>

definition closer :: "shared \<Rightarrow> pc \<Rightarrow> bool" where
  "closer sh x \<longleftrightarrow> x = Idle \<or> p_closed (sh_pool sh)"

lemma on_pool_id: "on_pool (\<lambda>_. sh_pool sh) sh = sh"
  by (simp add: on_pool_def)

lemma on_pool_comp: "on_pool f (on_pool g sh) = on_pool (\<lambda>p. f (g p)) sh"
  by (simp add: on_pool_def)

text \<open>What the other tasks do at an await is a run of task 1.\<close>

lemma meddle:
  assumes "step\<^sup>*\<^sup>* st (duo sh pc x)" and "closer sh x" and "later (sh_pool sh) q"
  shows "\<exists>x'. step\<^sup>*\<^sup>* st (duo (on_pool (\<lambda>_. q) sh) pc x') \<and> closer (on_pool (\<lambda>_. q) sh) x'"
proof (cases "p_closed q = p_closed (sh_pool sh)")
  case True
  then have "q = sh_pool sh" using assms(3) unfolding later_def by (cases q; cases "sh_pool sh") simp
  then show ?thesis using assms(1,2) by (auto simp: on_pool_id)
next
  case False
  then have c: "p_closed q" "\<not> p_closed (sh_pool sh)" using assms(3) by (auto simp: later_def)
  then have x: "x = Idle" using assms(2) by (simp add: closer_def)
  have q: "q = (sh_pool sh)\<lparr>p_closed := True\<rparr>" using assms(3) c(1) by (simp add: later_def)
  have "step (duo sh pc Idle) (duo (on_pool (p_closed_update (\<lambda>_. True)) sh) pc Draining)"
    using step.task [of 1 "duo sh pc Idle"] by (simp add: duo_def tstep.shut)
  then have "step\<^sup>*\<^sup>* st (duo (on_pool (\<lambda>_. q) sh) pc Draining)"
    using assms(1) x by (simp add: q on_pool_def rtranclp.rtrancl_into_rtrancl)
  then show ?thesis using c(1) by (auto simp: closer_def)
qed

section \<open>A call is a run\<close>

text \<open>
  The semaphore as the pool uses it: nobody closes it, and it grants a permit only when one is free.
\<close>

definition fair_semaphore :: "'w env \<Rightarrow> shared \<Rightarrow> bool" where
  "fair_semaphore env sh \<longleftrightarrow>
     (\<forall>b w. fst (rt_acquire (rt env) b w) \<noteq> SemaphoreClosed \<and>
        (fst (rt_acquire (rt env) b w) = Permit \<longrightarrow> 0 < sh_permits sh))"

text \<open>Where a task stands after an acquire, and after the call.\<close>

fun acquired_pc :: "permit res \<Rightarrow> pc" where
  "acquired_pc (Inl e) = Finished (Some e)"
| "acquired_pc (Inr pm) = Flying (pm_conn pm)"

definition simulates :: "conc \<Rightarrow> shared \<Rightarrow> pc \<Rightarrow> nat \<Rightarrow> pool_inner \<Rightarrow> bool" where
  "simulates st sh pc k p \<longleftrightarrow>
     (\<exists>sh' x'. step\<^sup>*\<^sup>* st (duo sh' pc x') \<and> closer sh' x' \<and> sh_pool sh' = p \<and>
        sh_permits sh' + k = sh_permits sh \<and> sh_cancelled sh' = sh_cancelled sh)"

lemma simulatesI:
  "step\<^sup>*\<^sup>* st (duo sh' pc' x) \<Longrightarrow> pc = pc' \<Longrightarrow> closer sh' x \<Longrightarrow> sh_pool sh' = p \<Longrightarrow> sh_permits sh' + k = sh_permits sh \<Longrightarrow>
    sh_cancelled sh' = sh_cancelled sh \<Longrightarrow> simulates st sh pc k p"
  unfolding simulates_def by blast

lemma acquire_run:
  assumes "others_ok env" and "fair_semaphore env sh" and "acquire_with_timeout env b s = (r, s')"
    and "sh_pool sh = pool s" and start: "step\<^sup>*\<^sup>* st (duo sh Idle x0)" and x0: "closer sh x0"
  shows "simulates st sh (acquired_pc r) (if is_ok r then 1 else 0) (pool s')"
proof (cases "p_closed (pool s)")
  case True
  have "step\<^sup>*\<^sup>* st (duo sh Rejecting x0)"
    using True assms(4) by (intro duo_then [OF start] tstep.closed_first) simp
  then have "step\<^sup>*\<^sup>* st (duo (on_pool count_rejected sh) (Finished (Some pool_closed_error)) x0)"
    by (rule duo_then [OF _ tstep.reject])
  from simulatesI [OF this] show ?thesis
    using True assms(3,4) x0 by (auto simp: acquire_with_timeout_def closer_def pool_simps)
next
  case opened: False
  show ?thesis
  proof (cases "p_backend (pool s)")
    case None
    have "step\<^sup>*\<^sup>* st
        (duo sh (Finished (Some (Connection (Msg ''pool not connected'' [])))) x0)"
      using None opened assms(4) by (intro duo_then [OF start] tstep.unconnected) simp_all
    from simulatesI [OF this] show ?thesis
      using None opened assms(3,4) x0 by (auto simp: acquire_with_timeout_def closer_def pool_simps)
  next
    case (Some conn)
    have ent: "step\<^sup>*\<^sup>* st (duo sh (Entered conn) x0)"
      using Some opened assms(4) by (intro duo_then [OF start] tstep.look) simp_all
    show ?thesis
    proof (cases "b = 0")
      case True
      with Some opened assms(3,4) x0 simulatesI [OF duo_then [OF ent tstep.no_budget]] show ?thesis
        by (auto simp: acquire_with_timeout_def closer_def pool_simps)
    next
      case False
      obtain a s1 where aw: "await env (rt_acquire (rt env) b) (upd enter_wait s) = (a, s1)" by force
      have l: "later (sh_pool (on_pool enter_wait sh)) (pool s1)"
        using pool_await [OF assms(1) aw] assms(4) by simp
      have a: "a = fst (rt_acquire (rt env) b (world s))"
        using aw by (auto simp: await_def split: prod.splits)
      have fair: "a \<noteq> SemaphoreClosed" "a = Permit \<Longrightarrow> 0 < sh_permits sh"
        using assms(2) unfolding a fair_semaphore_def by blast+
      let ?sh1 = "on_pool (\<lambda>_. pool s1) (on_pool enter_wait sh)"
      let ?sh2 = "on_pool leave_wait ?sh1"
      obtain x where w: "step\<^sup>*\<^sup>* st (duo ?sh1 (Waiting conn) x)" and x: "closer ?sh1 x"
        using meddle [OF duo_then [OF ent tstep.queue] _ l] x0 by (auto simp: closer_def pool_simps)
      have x2: "closer ?sh2 x" using x by (simp add: closer_def pool_simps)
      have eq: "(r, s') =
          (let s = upd leave_wait s1 in case a of
             Permit \<Rightarrow> if p_closed (pool s) then (Inl pool_closed_error, upd count_rejected (release env s))
               else (Inr \<lparr>pm_conn = conn\<rparr>, upd enter_flight s)
           | SemaphoreClosed \<Rightarrow> (Inl (Connection (Msg ''semaphore closed'' [])), s)
           | Elapsed \<Rightarrow> (Inl (Timeout (Msg ''acquire timed out'' [show_nat (p_max_in_flight (pool s))])),
               upd count_acquire_timeout s))"
        using opened Some False aw assms(3) by (simp add: acquire_with_timeout_def)
      show ?thesis
      proof (cases a)
        case SemaphoreClosed
        with fair(1) show ?thesis by simp
      next
        case Elapsed
        have "step\<^sup>*\<^sup>* st (duo ?sh2 TimedOut x)"
          by (rule duo_then [OF duo_then [OF w tstep.expire] tstep.leave_expired])
        from simulatesI [OF duo_then [OF this tstep.time_out]] Elapsed eq x2 show ?thesis
          by (simp add: closer_def pool_simps)
      next
        case Permit
        with fair(2) have pos: "0 < sh_permits sh" by simp
        let ?g = "on_pool leave_wait (take_permit ?sh1)"
        have has: "step\<^sup>*\<^sup>* st (duo ?g (HasPermit conn) x)"
          using pos by (intro duo_then [OF duo_then [OF w tstep.grant] tstep.leave_granted]) simp
        show ?thesis
        proof (cases "p_closed (pool s1)")
          case True
          have "step\<^sup>*\<^sup>* st (duo (give_permit ?g) Rejecting x)"
            using True by (intro duo_then [OF duo_then [OF has tstep.now_closed] tstep.give_back])
              (simp add: pool_simps)
          from simulatesI [OF duo_then [OF this tstep.reject]] Permit True eq pos show ?thesis
            by (simp add: closer_def pool_simps)
        next
          case False
          have "step\<^sup>*\<^sup>* st (duo ?g (Cleared conn) x)"
            using False by (intro duo_then [OF has tstep.still_open]) (simp add: pool_simps)
          from simulatesI [OF duo_then [OF this tstep.fly]] Permit False eq pos x show ?thesis
            by (simp add: closer_def pool_simps)
        qed
      qed
    qed
  qed
qed

text \<open>What runs on a lane, then the return of the lane.\<close>

lemma finished_step:
  assumes "finished p r q"
  obtains f where "f \<in> {count_ok, count_err, count_timeout}" "later (f p) q"
  using assms by (auto simp: finished_def split: sum.splits)

lemma flight_run:
  assumes "simulates st sh (Flying conn) 1 p" and "finished p r q"
  shows "simulates st sh (Finished None) 0 (leave_flight q)"
proof -
  obtain sh1 x where 1: "step\<^sup>*\<^sup>* st (duo sh1 (Flying conn) x)" "closer sh1 x" "sh_pool sh1 = p"
    "sh_permits sh1 + 1 = sh_permits sh" "sh_cancelled sh1 = sh_cancelled sh"
    using assms(1) unfolding simulates_def by auto
  obtain f where f: "f \<in> {count_ok, count_err, count_timeout}" "later (f p) q"
    using assms(2) by (rule finished_step)
  have cl: "closer (on_pool f sh1) x" using 1(2) f(1) by (auto simp: closer_def pool_simps)
  have l: "later (sh_pool (on_pool f sh1)) q" using f(2) 1(3) by simp
  let ?sh2 = "on_pool (\<lambda>_. q) (on_pool f sh1)"
  obtain x' where 2: "step\<^sup>*\<^sup>* st (duo ?sh2 (Flying conn) x')" "closer ?sh2 x'"
    using meddle [OF duo_then [OF 1(1) tstep.command [OF f(1)]] cl l] by blast
  have "step\<^sup>*\<^sup>* st (duo (give_permit (on_pool leave_flight ?sh2)) (Finished None) x')"
    by (rule duo_then [OF duo_then [OF 2(1) tstep.land] tstep.free])
  from simulatesI [OF this, of _ _ 0 sh] 2(2) 1(4,5) show ?thesis
    by (simp add: closer_def pool_simps)
qed

text \<open>The error with which a call was turned away, if it was; its result if it never had a lane.\<close>

definition turned_away :: "'a res \<Rightarrow> redis_error option \<Rightarrow> bool" where
  "turned_away r m \<longleftrightarrow> (\<forall>e. m = Some e \<longrightarrow> r = Inl e)"

context lane_body begin

lemma lane_run:
  assumes "others_ok env" and "fair_semaphore env sh" and "sh_pool sh = pool s" and "step\<^sup>*\<^sup>* st (duo sh Idle x0)" and "closer sh x0"
    and "on_lane env (acquire_with_timeout env b s) (body env) = (r, s')"
  shows "\<exists>m. simulates st sh (Finished m) 0 (pool s') \<and> turned_away r m"
proof -
  obtain a s1 where acq: "acquire_with_timeout env b s = (a, s1)" by force
  note run = acquire_run [OF assms(1,2) acq assms(3-5)]
  show ?thesis
  proof (cases a)
    case (Inl e)
    with run acq assms(6) show ?thesis by (auto simp: on_lane_def turned_away_def)
  next
    case (Inr pm)
    obtain x s2 where b: "body env pm s1 = (x, s2)" by force
    have "simulates st sh (Finished None) 0 (leave_flight (pool s2))"
      using run Inr by (intro flight_run [OF _ counts_once [OF assms(1) b]]) simp
    with acq Inr b assms(6) show ?thesis by (auto simp: on_lane_def turned_away_def)
  qed
qed

end

lemma run_run:
  assumes "others_ok env" and "fair_semaphore env sh" and "sh_pool sh = pool s" and "step\<^sup>*\<^sup>* st (duo sh Idle x0)" and "closer sh x0"
    and "run env b job s = (r, s')" and "b \<noteq> Some 0"
  shows "\<exists>m. simulates st sh (Finished m) 0 (pool s') \<and> turned_away r m"
  using assms(6,7) by (intro budgeted.lane_run [OF assms(1-5)]) (simp add: run_def acquire_def)

lemma run_total_run:
  assumes "others_ok env" and "fair_semaphore env sh" and "sh_pool sh = pool s" and "step\<^sup>*\<^sup>* st (duo sh Idle x0)" and "closer sh x0"
    and "run_total env limit job s = (r, s')"
  shows "\<exists>m. simulates st sh (Finished m) 0 (pool s') \<and> turned_away r m"
proof -
  obtain t s1 where c: "read_clock env s = (t, s1)" by force
  with assms(6) have "on_lane env (acquire_with_timeout env
        (case limit of Some limit \<Rightarrow> min limit (p_acquire_timeout (pool s1)) | None \<Rightarrow> p_acquire_timeout (pool s1)) s1)
      (\<lambda>pm s. execute_with_total_deadline env pm t limit job s) = (r, s')"
    by (simp add: run_total_def Let_def)
  then show ?thesis
    using assms(3) by (intro limited.lane_run [OF assms(1,2) _ assms(4,5)]) (simp_all add: pool_read_clock [OF c])
qed

section \<open>No lane is lost\<close>

text \<open>A holder of a permit can give it back, whatever the others do not do.\<close>

definition solo :: "conc \<Rightarrow> nat \<Rightarrow> shared \<Rightarrow> pc \<Rightarrow> conc" where
  "solo s i sh pc = \<lparr>cs_shared = sh, cs_tasks = (cs_tasks s)[i := pc]\<rparr>"

lemma solo_refl: "i < length (cs_tasks s) \<Longrightarrow> solo s i (cs_shared s) (cs_tasks s ! i) = s"
  by (simp add: solo_def)

lemma solo_step:
  "i < length (cs_tasks s) \<Longrightarrow> tstep sh pc sh' pc' \<Longrightarrow> step (solo s i sh pc) (solo s i sh' pc')"
  using step.task [of i "solo s i sh pc" sh' pc'] by (simp add: solo_def)

lemma solo_then:
  "step\<^sup>*\<^sup>* st (solo s i sh pc) \<Longrightarrow> tstep sh pc sh' pc' \<Longrightarrow> i < length (cs_tasks s) \<Longrightarrow>
    step\<^sup>*\<^sup>* st (solo s i sh' pc')"
  by (blast intro: rtranclp.rtrancl_into_rtrancl solo_step)

definition gives_back :: "conc \<Rightarrow> nat \<Rightarrow> shared \<Rightarrow> pc \<Rightarrow> bool" where
  "gives_back s i sh pc \<longleftrightarrow>
     (\<exists>sh' pc'. step\<^sup>*\<^sup>* (solo s i sh pc) (solo s i sh' pc') \<and> sh_permits sh' = sh_permits sh + 1 \<and>
        p_closed (sh_pool sh') = p_closed (sh_pool sh))"

lemma gives_back_step:
  assumes "i < length (cs_tasks s)" and "tstep sh pc sh1 pc1" and "gives_back s i sh1 pc1"
    and "sh_permits sh1 = sh_permits sh" and "p_closed (sh_pool sh1) = p_closed (sh_pool sh)"
  shows "gives_back s i sh pc"
  using assms(3) solo_step [OF assms(1,2)] assms(4,5) unfolding gives_back_def
  by (metis converse_rtranclp_into_rtranclp)

lemma gives_back_last:
  assumes "i < length (cs_tasks s)" and "tstep sh pc (give_permit sh) pc1"
  shows "gives_back s i sh pc"
  unfolding gives_back_def using solo_step [OF assms]
  by (intro exI [of _ "give_permit sh"] exI [of _ pc1]) (simp add: r_into_rtranclp)

lemma holder_gives_back:
  assumes i: "i < length (cs_tasks s)" and "holding pc"
  shows "gives_back s i sh pc"
proof -
  have dropped: "gives_back s i sh Dropped" for sh by (rule gives_back_last [OF i tstep.free])
  have refused: "gives_back s i sh Refused" for sh by (rule gives_back_last [OF i tstep.give_back])
  have flying: "gives_back s i sh (Flying c)" for sh c
    by (rule gives_back_step [OF i tstep.land dropped]) (simp_all add: pool_simps)
  have cleared: "gives_back s i sh (Cleared c)" for sh c
    by (rule gives_back_step [OF i tstep.fly flying]) (simp_all add: pool_simps)
  have has: "gives_back s i sh (HasPermit c)" for sh c
    by (cases "p_closed (sh_pool sh)")
      (auto intro: gives_back_step [OF i tstep.now_closed refused] gives_back_step [OF i tstep.still_open cleared])
  have "gives_back s i sh (Granted c)" for sh c
    by (rule gives_back_step [OF i tstep.leave_granted has]) (simp_all add: pool_simps)
  with assms(2) dropped refused flying cleared has show ?thesis by (cases pc) simp_all
qed

lemma some_holder:
  assumes "0 < tally holding ts" shows "\<exists>j < length ts. holding (ts ! j)"
  using assms unfolding tally_def by (auto simp: length_greater_0_conv filter_empty_conv in_set_conv_nth)

lemma permit_available:
  assumes "reach (conc_init c b n) step s" and "1 \<le> c_max_in_flight c"
    and "i < length (cs_tasks s)" and "\<not> holding (cs_tasks s ! i)"
  shows "\<exists>t. step\<^sup>*\<^sup>* s t \<and> 0 < sh_permits (cs_shared t) \<and> length (cs_tasks t) = length (cs_tasks s) \<and>
    cs_tasks t ! i = cs_tasks s ! i \<and> p_closed (sh_pool (cs_shared t)) = p_closed (sh_pool (cs_shared s))"
proof (cases "sh_permits (cs_shared s) = 0")
  case False
  then show ?thesis by blast
next
  case True
  with reach_flying [OF assms(1)] assms(2) have "0 < tally holding (cs_tasks s)" by simp
  then obtain j where j: "j < length (cs_tasks s)" "holding (cs_tasks s ! j)" using some_holder by blast
  then have ne: "j \<noteq> i" using assms(4) by auto
  obtain sh' pc' where "step\<^sup>*\<^sup>* (solo s j (cs_shared s) (cs_tasks s ! j)) (solo s j sh' pc')"
    "sh_permits sh' = sh_permits (cs_shared s) + 1" "p_closed (sh_pool sh') = p_closed (sh_pool (cs_shared s))"
    using holder_gives_back [OF j] unfolding gives_back_def by blast
  with ne show ?thesis
    unfolding solo_refl [OF j(1)] by (intro exI [of _ "solo s j sh' pc'"]) (simp add: solo_def)
qed

text \<open>A pool that is being closed can be drained: whatever is in flight can land.\<close>

lemma reach_steps: "step\<^sup>*\<^sup>* s t \<Longrightarrow> reach st step s \<Longrightarrow> reach st step t"
  by (induction rule: rtranclp_induct) (auto intro: reach.more)

lemma some_flying:
  assumes "0 < tally flying ts" shows "\<exists>j < length ts. \<exists>c. ts ! j = Flying c"
proof -
  obtain j where j: "j < length ts" "flying (ts ! j)"
    using assms unfolding tally_def by (auto simp: length_greater_0_conv filter_empty_conv in_set_conv_nth)
  then show ?thesis by (cases "ts ! j") auto
qed

lemma drain_runs:
  assumes "reach (conc_init c b n) step s" and "i < length (cs_tasks s)" and "cs_tasks s ! i = Draining"
  shows "\<exists>t. step\<^sup>*\<^sup>* s t \<and> cs_tasks t ! i = CloseDone True \<and> p_in_flight (sh_pool (cs_shared t)) = 0"
  using assms
proof (induction "tally flying (cs_tasks s)" arbitrary: s)
  case 0
  then have none: "p_in_flight (sh_pool (cs_shared s)) = 0"
    using lanes.invariant [OF 0(2)] by (simp add: lanes_ok_def)
  have "tstep (cs_shared s) (cs_tasks s ! i) (cs_shared s) (CloseDone True)"
    using none 0(4) by (simp add: tstep.drained)
  from solo_step [OF 0(3) this] have "step s (solo s i (cs_shared s) (CloseDone True))"
    using solo_refl [OF 0(3)] by simp
  with none 0(3) show ?case
    by (intro exI [of _ "solo s i (cs_shared s) (CloseDone True)"]) (simp add: solo_def r_into_rtranclp)
next
  case (Suc k)
  then have "0 < tally flying (cs_tasks s)" by simp
  then obtain j d where j: "j < length (cs_tasks s)" "cs_tasks s ! j = Flying d" using some_flying by blast
  then have ne: "j \<noteq> i" using Suc(5) by auto
  let ?t = "solo s j (on_pool leave_flight (cs_shared s)) Dropped"
  have "tstep (cs_shared s) (cs_tasks s ! j) (on_pool leave_flight (cs_shared s)) Dropped"
    unfolding j(2) by (rule tstep.land)
  from solo_step [OF j(1) this] have st: "step s ?t" using solo_refl [OF j(1)] by simp
  have "k = tally flying (cs_tasks ?t)"
    using tally_update [OF j(1), of flying Dropped] j(2) Suc(2) by (simp add: solo_def)
  moreover have "reach (conc_init c b n) step ?t" by (rule reach.more [OF Suc(3) st])
  moreover have "i < length (cs_tasks ?t)" "cs_tasks ?t ! i = Draining"
    using ne Suc(4,5) by (simp_all add: solo_def)
  ultimately show ?case using Suc(1) [of ?t] st by (meson converse_rtranclp_into_rtranclp)
qed

section \<open>Properties\<close>

text \<open>
  C2. A call is a run. Whatever a call on the pool computes while the other tasks may close the pool
  at any of its awaits, the interleaved system can do: one task goes through the call, another does
  the closing, and they end with the same shared record and all semaphore permits back; the task is
  turned away with an error only if that error is the result of the call.
\<close>

theorem call_is_a_run:
  assumes "others_ok env" and "fair_semaphore env sh" and "sh_pool sh = pool s"
    and "with_conn env job s = (r, s') \<or> budget \<noteq> 0 \<and> with_conn_budget env budget job s = (r, s') \<or>
      limit \<noteq> 0 \<and> with_conn_total_deadline env limit job s = (r, s')"
  shows "\<exists>sh' m x. step\<^sup>*\<^sup>* \<lparr>cs_shared = sh, cs_tasks = [Idle, Idle]\<rparr> \<lparr>cs_shared = sh', cs_tasks = [Finished m, x]\<rparr> \<and>
    sh_pool sh' = pool s' \<and> sh_permits sh' = sh_permits sh \<and> (\<forall>e. m = Some e \<longrightarrow> r = Inl e)"
proof -
  have "closer sh Idle" by (simp add: closer_def)
  note runs = run_run [OF assms(1-3) rtranclp.rtrancl_refl this] run_total_run [OF assms(1-3) rtranclp.rtrancl_refl this]
  from assms(4) have "\<exists>m. simulates (duo sh Idle Idle) sh (Finished m) 0 (pool s') \<and> turned_away r m"
  proof (elim disjE conjE)
    assume "with_conn env job s = (r, s')"
    then show ?thesis using runs(1) [of None] by (simp add: with_conn_def)
  next
    assume "budget \<noteq> 0" "with_conn_budget env budget job s = (r, s')"
    then show ?thesis using runs(1) [of "Some budget"] by (simp add: with_conn_budget_def)
  next
    assume "limit \<noteq> 0" "with_conn_total_deadline env limit job s = (r, s')"
    then show ?thesis using runs(2) [of "Some limit"] by (simp add: with_conn_total_deadline_def)
  qed
  then show ?thesis unfolding simulates_def turned_away_def duo_def by auto
qed

theorem call_is_a_run_witness:
  "\<exists>sh' m x. step\<^sup>*\<^sup>* \<lparr>cs_shared = \<lparr>sh_pool = sample_pool, sh_permits = 256, sh_cancelled = 0\<rparr>, cs_tasks = [Idle, Idle]\<rparr>
      \<lparr>cs_shared = sh', cs_tasks = [Finished m, x]\<rparr> \<and> sh_permits sh' = 256"
proof -
  let ?sh = "\<lparr>sh_pool = sample_pool, sh_permits = 256, sh_cancelled = 0\<rparr>"
  have "fair_semaphore sample_env ?sh"
    by (simp add: fair_semaphore_def sample_env_def sample_runtime_def)
  from call_is_a_run [OF sample_env_ok(1) this, of "\<lparr>world = 0, pool = sample_pool\<rparr>" "kv_ping sample_conversions"]
  show ?thesis by (metis (no_types, lifting) prod.exhaust shared.select_convs(1,2) sys.select_convs(2))
qed

text \<open>
  No lane is lost. In every reachable state of a pool with at least one lane, a task that waits for
  a lane can be served: the others can always bring a permit back, and if the pool is open the task
  can then take it, pass its checks and be in flight.
\<close>

theorem waiting_task_can_fly:
  assumes "reach (conc_init c b n) step s" and "1 \<le> c_max_in_flight c"
    and "i < length (cs_tasks s)" and "cs_tasks s ! i = Waiting conn" and "\<not> p_closed (sh_pool (cs_shared s))"
  shows "\<exists>t. step\<^sup>*\<^sup>* s t \<and> cs_tasks t ! i = Flying conn"
proof -
  obtain t where t: "step\<^sup>*\<^sup>* s t" "0 < sh_permits (cs_shared t)" "length (cs_tasks t) = length (cs_tasks s)"
    "cs_tasks t ! i = Waiting conn" "\<not> p_closed (sh_pool (cs_shared t))"
    using permit_available [OF assms(1-3)] assms(4,5) by auto
  then have i: "i < length (cs_tasks t)" using assms(3) by simp
  have "step\<^sup>*\<^sup>* s (solo t i (cs_shared t) (Waiting conn))" using t(1,4) solo_refl [OF i] by simp
  from solo_then [OF this tstep.grant [OF t(2)] i]
  have "step\<^sup>*\<^sup>* s (solo t i (take_permit (cs_shared t)) (Granted conn))" .
  from solo_then [OF this tstep.leave_granted i]
  have "step\<^sup>*\<^sup>* s (solo t i (on_pool leave_wait (take_permit (cs_shared t))) (HasPermit conn))" .
  from solo_then [OF this tstep.still_open i] t(5)
  have "step\<^sup>*\<^sup>* s (solo t i (on_pool leave_wait (take_permit (cs_shared t))) (Cleared conn))"
    by (simp add: pool_simps)
  from solo_then [OF this tstep.fly i] i show ?thesis
    by (intro exI [of _ "solo t i (on_pool enter_flight (on_pool leave_wait (take_permit (cs_shared t)))) (Flying conn)"])
      (simp add: solo_def)
qed

theorem waiting_task_can_fly_witness:
  "\<exists>s t. reach (conc_init default_config (StandaloneConn 0) 1) step s \<and> cs_tasks s ! 0 = Waiting (StandaloneConn 0) \<and>
     step\<^sup>*\<^sup>* s t \<and> cs_tasks t ! 0 = Flying (StandaloneConn 0)"
proof -
  obtain sh where s: "reach (conc_init default_config (StandaloneConn 0) 1) step
      \<lparr>cs_shared = sh, cs_tasks = [Waiting (StandaloneConn 0)]\<rparr>" "\<not> p_closed (sh_pool sh)"
    using waiting_reachable by blast
  from waiting_task_can_fly [OF s(1), of 0] s show ?thesis
    by (fastforce simp: default_config_def)
qed

text \<open>
  \<open>close\<close> can always succeed: from every reachable state in which a task is draining the pool, the
  others can run so that it returns success with nothing in flight; no sequence of time-outs,
  cancellations and drops leaves a lane that is counted as in flight for ever.
\<close>

theorem close_can_drain:
  assumes "reach (conc_init c b n) step s" and "i < length (cs_tasks s)" and "cs_tasks s ! i = Draining"
  shows "\<exists>t. step\<^sup>*\<^sup>* s t \<and> cs_tasks t ! i = CloseDone True \<and> p_in_flight (sh_pool (cs_shared t)) = 0"
  by (rule drain_runs [OF assms])

theorem close_can_drain_witness:
  "\<exists>s t. reach (conc_init default_config (StandaloneConn 0) 1) step s \<and> cs_tasks s ! 0 = Draining \<and>
     step\<^sup>*\<^sup>* s t \<and> cs_tasks t ! 0 = CloseDone True"
proof -
  have "step (conc_start 1) \<lparr>cs_shared = on_pool (p_closed_update (\<lambda>_. True)) (cs_shared (conc_start 1)),
      cs_tasks = [Draining]\<rparr>"
    using step.task [of 0 "conc_start 1"] by (simp add: conc_start_def tstep.shut)
  from reach.more [OF conc_start_reach this] close_can_drain [of _ _ 1 _ 0] show ?thesis by fastforce
qed

end
