(* ===== verification/Pool_Live.thy ===== *)
theory Pool_Live
  imports Pool_Conc
begin

text \<open>
  What a closed pool comes to under any number of interleaved callers, over infinite runs: when every
  call that is under way goes on at some time, which is what the time-outs and the drop of permits give,
  the pool drains completely and every \<open>close\<close> that still waits succeeds.
\<close>

section \<open>Runs\<close>

text \<open>A run may also stand still.\<close>

definition is_run :: "(nat \<Rightarrow> conc) \<Rightarrow> bool" where
  "is_run \<sigma> \<longleftrightarrow> (\<forall>n. step (\<sigma> n) (\<sigma> (Suc n)) \<or> \<sigma> (Suc n) = \<sigma> n)"

text \<open>No task stays between two steps of a call forever.\<close>

definition fair :: "(nat \<Rightarrow> conc) \<Rightarrow> bool" where
  "fair \<sigma> \<longleftrightarrow>
     (\<forall>n i. i < length (cs_tasks (\<sigma> n)) \<and> \<not> resting (cs_tasks (\<sigma> n) ! i) \<longrightarrow>
        (\<exists>m > n. cs_tasks (\<sigma> m) ! i \<noteq> cs_tasks (\<sigma> n) ! i))"

lemma run_reach:
  assumes "is_run \<sigma>" and "reach init step (\<sigma> 0)"
  shows "reach init step (\<sigma> n)"
proof (induction n)
  case (Suc n)
  from assms(1) consider "step (\<sigma> n) (\<sigma> (Suc n))" | "\<sigma> (Suc n) = \<sigma> n" by (auto simp: is_run_def)
  then show ?case by cases (use Suc reach.more in auto)
qed (rule assms(2))

lemma change_point:
  fixes f :: "nat \<Rightarrow> 'x"
  assumes "m \<le> m'" and "f m = a" and "f m' \<noteq> a"
  shows "\<exists>l \<ge> m. f l = a \<and> f (Suc l) \<noteq> a"
  using assms(1,3)
proof (induction rule: dec_induct)
  case (step n)
  then show ?case by (cases "f n = a") auto
qed (use assms(2) in simp)

section \<open>What is left to do once the pool is closed\<close>

fun steps_left :: "pc \<Rightarrow> nat" where
  "steps_left (Entered _) = 7"
| "steps_left (Waiting _) = 6"
| "steps_left (Granted _) = 5"
| "steps_left (HasPermit _) = 4"
| "steps_left (Cleared _) = 3"
| "steps_left (Flying _) = 2"
| "steps_left Refused = 2"
| "steps_left Expired = 2"
| "steps_left TimedOut = 1"
| "steps_left Dropped = 1"
| "steps_left _ = 0"

lemma steps_left_active: "0 < steps_left pc \<Longrightarrow> \<not> resting pc"
  by (cases pc) simp_all

lemma steps_left_0: "steps_left pc = 0 \<Longrightarrow> \<not> flying pc \<and> \<not> queued pc \<and> \<not> holding pc \<and> \<not> aloft pc"
  by (cases pc) simp_all

lemma tstep_steps_left:
  assumes "tstep sh pc sh' pc'" and "p_closed (sh_pool sh)"
  shows "steps_left pc' \<le> steps_left pc \<and> (pc' \<noteq> pc \<and> 0 < steps_left pc \<longrightarrow> steps_left pc' < steps_left pc)"
  using assms by (cases rule: tstep.cases; simp)

text \<open>A run that starts with the pool closed.\<close>

definition closed_run :: "(nat \<Rightarrow> conc) \<Rightarrow> bool" where
  "closed_run \<sigma> \<longleftrightarrow> is_run \<sigma> \<and> p_closed (sh_pool (cs_shared (\<sigma> 0)))"

lemma run_cases:
  assumes "closed_run \<sigma>"
  obtains "step (\<sigma> n) (\<sigma> (Suc n))" | "\<sigma> (Suc n) = \<sigma> n"
  using assms by (auto simp: closed_run_def is_run_def)

lemma stays_closed:
  assumes "closed_run \<sigma>"
  shows "p_closed (sh_pool (cs_shared (\<sigma> n))) \<and> length (cs_tasks (\<sigma> n)) = length (cs_tasks (\<sigma> 0))"
proof (induction n)
  case (Suc n)
  from assms show ?case
  proof (cases rule: run_cases [of \<sigma> n])
    case 1
    then have "step\<^sup>*\<^sup>* (\<sigma> n) (\<sigma> (Suc n))" by blast
    from closed_barrier [OF this] Suc show ?thesis by simp
  qed (use Suc in simp)
qed (use assms in \<open>simp add: closed_run_def\<close>)

lemma task_progress:
  assumes "closed_run \<sigma>" and "i < length (cs_tasks (\<sigma> 0))"
  shows "steps_left (cs_tasks (\<sigma> (Suc n)) ! i) \<le> steps_left (cs_tasks (\<sigma> n) ! i) \<and>
    (cs_tasks (\<sigma> (Suc n)) ! i \<noteq> cs_tasks (\<sigma> n) ! i \<and> 0 < steps_left (cs_tasks (\<sigma> n) ! i) \<longrightarrow>
       steps_left (cs_tasks (\<sigma> (Suc n)) ! i) < steps_left (cs_tasks (\<sigma> n) ! i))"
  using assms(1)
proof (cases rule: run_cases [of \<sigma> n])
  case 1
  then obtain j sh pc where t: "\<sigma> (Suc n) = \<lparr>cs_shared = sh, cs_tasks = (cs_tasks (\<sigma> n))[j := pc]\<rparr>"
    "j < length (cs_tasks (\<sigma> n))" "tstep (cs_shared (\<sigma> n)) (cs_tasks (\<sigma> n) ! j) sh pc"
    by (auto elim: stepE)
  from tstep_steps_left [OF t(3)] stays_closed [OF assms(1), of n] t(1,2) show ?thesis
    by (cases "i = j") auto
qed simp

lemma never_more:
  assumes "closed_run \<sigma>" and "i < length (cs_tasks (\<sigma> 0))" and "m \<le> n"
  shows "steps_left (cs_tasks (\<sigma> n) ! i) \<le> steps_left (cs_tasks (\<sigma> m) ! i)"
  using assms(3) by (induction rule: dec_induct) (use task_progress [OF assms(1,2)] le_trans in blast)+

lemma change_is_progress:
  assumes "closed_run \<sigma>" and "i < length (cs_tasks (\<sigma> 0))" and "n \<le> m" and "cs_tasks (\<sigma> m) ! i \<noteq> cs_tasks (\<sigma> n) ! i"
    and "0 < steps_left (cs_tasks (\<sigma> n) ! i)"
  shows "steps_left (cs_tasks (\<sigma> m) ! i) < steps_left (cs_tasks (\<sigma> n) ! i)"
  using assms(3,4)
proof (induction rule: dec_induct)
  case (step m)
  show ?case
  proof (cases "cs_tasks (\<sigma> m) ! i = cs_tasks (\<sigma> n) ! i")
    case True
    with step.prems task_progress [OF assms(1,2), of m] assms(5) show ?thesis by simp
  next
    case False
    with step.IH task_progress [OF assms(1,2), of m] show ?thesis by simp
  qed
qed simp

lemma task_comes_to_rest:
  assumes "closed_run \<sigma>" and "fair \<sigma>" and i: "i < length (cs_tasks (\<sigma> 0))"
  shows "\<exists>m \<ge> n. steps_left (cs_tasks (\<sigma> m) ! i) = 0"
proof (induction "steps_left (cs_tasks (\<sigma> n) ! i)" arbitrary: n rule: less_induct)
  case less
  show ?case
  proof (cases "steps_left (cs_tasks (\<sigma> n) ! i) = 0")
    case False
    then have active: "0 < steps_left (cs_tasks (\<sigma> n) ! i)" by simp
    have "i < length (cs_tasks (\<sigma> n))" using i stays_closed [OF assms(1), of n] by simp
    with steps_left_active [OF active] assms(2)
    obtain m where m: "n < m" "cs_tasks (\<sigma> m) ! i \<noteq> cs_tasks (\<sigma> n) ! i"
      unfolding fair_def by blast
    from less [OF change_is_progress [OF assms(1) i _ m(2) active]] m(1) show ?thesis
      by (meson less_imp_le le_trans)
  qed auto
qed

lemma all_come_to_rest:
  assumes "closed_run \<sigma>" and "fair \<sigma>"
  shows "\<exists>n. \<forall>m \<ge> n. \<forall>x \<in> set (cs_tasks (\<sigma> m)). steps_left x = 0"
proof -
  have "\<exists>n. \<forall>i < k. \<forall>m \<ge> n. steps_left (cs_tasks (\<sigma> m) ! i) = 0" if "k \<le> length (cs_tasks (\<sigma> 0))" for k
    using that
  proof (induction k)
    case (Suc k)
    then obtain n where n: "\<forall>i < k. \<forall>m \<ge> n. steps_left (cs_tasks (\<sigma> m) ! i) = 0" by auto
    have k: "k < length (cs_tasks (\<sigma> 0))" using Suc.prems by simp
    from task_comes_to_rest [OF assms k] obtain n' where n': "n \<le> n'" "steps_left (cs_tasks (\<sigma> n') ! k) = 0" by blast
    then have "\<forall>m \<ge> n'. steps_left (cs_tasks (\<sigma> m) ! k) = 0" using never_more [OF assms(1) k] by (metis le_zero_eq)
    with n n'(1) show ?case by (intro exI [of _ n']) (auto simp: less_Suc_eq)
  qed simp
  from this [of "length (cs_tasks (\<sigma> 0))"] obtain n where
    "\<forall>i < length (cs_tasks (\<sigma> 0)). \<forall>m \<ge> n. steps_left (cs_tasks (\<sigma> m) ! i) = 0" by auto
  moreover have "length (cs_tasks (\<sigma> m)) = length (cs_tasks (\<sigma> 0))" for m
    using stays_closed [OF assms(1)] by blast
  ultimately show ?thesis by (metis in_set_conv_nth)
qed

section \<open>Properties\<close>

text \<open>
  C23. A closed pool drains. In every infinite run from a closed pool in which no call stands still forever,
  there is a time from which on nothing is in flight or will be, no task waits for a lane or holds one,
  and all permits are back; and every \<open>close\<close> that still drains then ends, with success.
\<close>

theorem closed_pool_drains:
  assumes "reach (conc_init c b k) step (\<sigma> 0)" and "p_closed (sh_pool (cs_shared (\<sigma> 0)))"
    and "is_run \<sigma>" and "fair \<sigma>"
  shows "\<exists>n. \<forall>m \<ge> n.
      p_in_flight (sh_pool (cs_shared (\<sigma> m))) = 0 \<and> sh_permits (cs_shared (\<sigma> m)) = c_max_in_flight c \<and>
      (\<forall>x \<in> set (cs_tasks (\<sigma> m)). \<not> flying x \<and> \<not> queued x \<and> \<not> holding x) \<and>
      (\<forall>i < length (cs_tasks (\<sigma> m)). cs_tasks (\<sigma> m) ! i = Draining \<longrightarrow>
         (\<exists>m' > m. cs_tasks (\<sigma> m') ! i = CloseDone True))"
proof -
  have closed: "closed_run \<sigma>" using assms(2,3) by (simp add: closed_run_def)
  from all_come_to_rest [OF this assms(4)] obtain n where
    rest: "\<And>m x. n \<le> m \<Longrightarrow> x \<in> set (cs_tasks (\<sigma> m)) \<Longrightarrow> steps_left x = 0" by blast
  have quiet: "p_in_flight (sh_pool (cs_shared (\<sigma> m))) = 0 \<and> sh_permits (cs_shared (\<sigma> m)) = c_max_in_flight c"
    if "n \<le> m" for m
  proof -
    have "tally flying (cs_tasks (\<sigma> m)) = 0" "tally holding (cs_tasks (\<sigma> m)) = 0"
      using rest [OF that] steps_left_0 by (auto simp: tally_def filter_empty_conv)
    with reach_flying [OF run_reach [OF assms(3,1)], of m] show ?thesis by (simp add: unat_eq_zero)
  qed
  have "\<exists>m' > m. cs_tasks (\<sigma> m') ! i = CloseDone True"
    if m: "n \<le> m" and i: "i < length (cs_tasks (\<sigma> m))" "cs_tasks (\<sigma> m) ! i = Draining" for m i
  proof -
    from assms(4) i obtain m' where "m < m'" "cs_tasks (\<sigma> m') ! i \<noteq> Draining"
      unfolding fair_def by fastforce
    then obtain l where l: "m \<le> l" "cs_tasks (\<sigma> l) ! i = Draining" "cs_tasks (\<sigma> (Suc l)) ! i \<noteq> Draining"
      using change_point [of m m' "\<lambda>l. cs_tasks (\<sigma> l) ! i" Draining] i(2) by auto
    from closed have "cs_tasks (\<sigma> (Suc l)) ! i = CloseDone True"
    proof (cases rule: run_cases [of \<sigma> l])
      case 1
      then obtain j sh pc where t: "\<sigma> (Suc l) = \<lparr>cs_shared = sh, cs_tasks = (cs_tasks (\<sigma> l))[j := pc]\<rparr>"
        "j < length (cs_tasks (\<sigma> l))" "tstep (cs_shared (\<sigma> l)) (cs_tasks (\<sigma> l) ! j) sh pc"
        by (auto elim: stepE)
      with l quiet [of l] m show ?thesis by (cases "i = j") auto
    qed (use l in simp)
    with l(1) show ?thesis by (meson le_imp_less_Suc)
  qed
  with quiet rest steps_left_0 show ?thesis by (intro exI [of _ n]) blast
qed

text \<open>One task in flight while another closes the pool: it lands, gives its permit back, and \<open>close\<close> ends.\<close>

definition closing :: shared where
  "closing = on_pool (p_closed_update (\<lambda>_. True)) (on_pool enter_flight (on_pool leave_wait (take_permit (on_pool enter_wait
     \<lparr>sh_pool = first_pool, sh_permits = 256, sh_cancelled = 0\<rparr>))))"

fun draining_run :: "nat \<Rightarrow> conc" where
  "draining_run 0 = \<lparr>cs_shared = closing, cs_tasks = [Flying (StandaloneConn 0), Draining]\<rparr>"
| "draining_run (Suc 0) = \<lparr>cs_shared = on_pool leave_flight closing, cs_tasks = [Dropped, Draining]\<rparr>"
| "draining_run (Suc (Suc 0)) =
     \<lparr>cs_shared = give_permit (on_pool leave_flight closing), cs_tasks = [Finished None, Draining]\<rparr>"
| "draining_run (Suc (Suc (Suc n))) =
     \<lparr>cs_shared = give_permit (on_pool leave_flight closing), cs_tasks = [Finished None, CloseDone True]\<rparr>"

lemma closing_reachable: "reach (conc_init default_config (StandaloneConn 0) 2) step (draining_run 0)"
proof -
  let ?b = "StandaloneConn 0"
  let ?sh0 = "\<lparr>sh_pool = first_pool, sh_permits = 256, sh_cancelled = 0\<rparr>"
  let ?sh1 = "on_pool enter_wait ?sh0"
  let ?sh2 = "take_permit ?sh1"
  let ?sh3 = "on_pool leave_wait ?sh2"
  let ?r = "\<lambda>sh ts. reach (conc_init default_config ?b 2) step \<lparr>cs_shared = sh, cs_tasks = ts\<rparr>"
  have "?r ?sh0 [Idle, Idle]" using conc_start_reach [of 2] by (simp add: conc_start_def numeral_2_eq_2)
  then have "?r ?sh0 [Entered ?b, Idle]"
    by (rule one_step [of 0, rotated -1]) (auto intro!: look simp: first_pool_fields)
  then have "?r ?sh1 [Waiting ?b, Idle]" by (rule one_step [of 0, rotated -1]) (auto intro!: queue)
  then have "?r ?sh2 [Granted ?b, Idle]" by (rule one_step [of 0, rotated -1]) (auto intro!: grant)
  then have "?r ?sh3 [HasPermit ?b, Idle]" by (rule one_step [of 0, rotated -1]) (auto intro!: leave_granted)
  then have "?r ?sh3 [Cleared ?b, Idle]"
    by (rule one_step [of 0, rotated -1]) (auto intro!: still_open simp: first_pool_fields)
  then have "?r (on_pool enter_flight ?sh3) [Flying ?b, Idle]" by (rule one_step [of 0, rotated -1]) (auto intro!: fly)
  then have "?r closing [Flying ?b, Draining]"
    unfolding closing_def by (rule one_step [of 1, rotated -1]) (auto intro!: tstep.shut)
  then show ?thesis by simp
qed

lemma draining_run_is_run: "is_run draining_run"
proof -
  have "step (draining_run 0) (draining_run 1)"
    using step.task [of 0 "draining_run 0" "on_pool leave_flight closing" Dropped] by (simp add: tstep.land)
  moreover have "step (draining_run 1) (draining_run 2)"
    using step.task [of 0 "draining_run 1" "give_permit (on_pool leave_flight closing)" "Finished None"]
    by (simp add: tstep.free numeral_2_eq_2)
  moreover have "p_in_flight (sh_pool (give_permit (on_pool leave_flight closing))) = 0"
    by (simp add: closing_def first_pool_fields pool_simps)
  then have "step (draining_run 2) (draining_run 3)"
    using step.task [of 1 "draining_run 2" "give_permit (on_pool leave_flight closing)" "CloseDone True"]
    by (simp add: numeral_2_eq_2 numeral_3_eq_3)
  ultimately have "step (draining_run n) (draining_run (Suc n)) \<or> draining_run (Suc n) = draining_run n" for n
    by (cases n rule: draining_run.cases) (simp_all add: numeral_2_eq_2 numeral_3_eq_3)
  then show ?thesis by (simp add: is_run_def)
qed

lemma draining_run_fair: "fair draining_run"
  unfolding fair_def
proof (intro allI impI; elim conjE)
  fix n i assume i: "i < length (cs_tasks (draining_run n))" "\<not> resting (cs_tasks (draining_run n) ! i)"
  then have "i = 0 \<or> i = 1" by (cases n rule: draining_run.cases) auto
  with i show "\<exists>m > n. cs_tasks (draining_run m) ! i \<noteq> cs_tasks (draining_run n) ! i"
    by (cases n rule: draining_run.cases)
      (auto simp: numeral_3_eq_3 intro: exI [of _ "3 :: nat"] exI [of _ "Suc 0"] exI [of _ "Suc (Suc 0)"])
qed

theorem closed_pool_drains_witness:
  "\<exists>n. p_in_flight (sh_pool (cs_shared (draining_run n))) = 0 \<and> sh_permits (cs_shared (draining_run n)) = 256"
proof -
  have "p_closed (sh_pool (cs_shared (draining_run 0)))" by (simp add: closing_def)
  from closed_pool_drains [OF closing_reachable this draining_run_is_run draining_run_fair]
  show ?thesis by (auto simp: default_config_def)
qed

end
