(* ===== verification/Server.thy ===== *)
theory Server
  imports Client
begin

text \<open>
  What a call through a client does to a server that executes its requests: the link between a single
  command of the library and an abstract store, for the commands on data (\<open>Store\<close>, \<open>Data_Store\<close>,
  \<open>Batch_Store\<close>) and the lock (\<open>Lock_Store\<close>, \<open>Lock_Conc\<close>).
\<close>

section \<open>Servers that execute what they are asked\<close>

text \<open>
  An exchange with an honest server is executed at one moment when it is answered; when it fails or is
  given up it may have been executed or not. \<open>stp\<close> and \<open>ans\<close> say what a request does to the part \<open>obs\<close>
  of the world and how it is answered, for the requests in \<open>Q\<close>: of others nothing is known. \<open>D\<close> says what
  else may happen to it meanwhile.
\<close>

definition honest ::
    "(request \<Rightarrow> bool) \<Rightarrow> ('o \<Rightarrow> 'o \<Rightarrow> bool) \<Rightarrow> ('w \<Rightarrow> 'o) \<Rightarrow> (request \<Rightarrow> 'o \<Rightarrow> 'o) \<Rightarrow> (request \<Rightarrow> 'o \<Rightarrow> reply_value \<Rightarrow> bool) \<Rightarrow>
     'w exchange \<Rightarrow> bool" where
  "honest Q D obs stp ans x \<longleftrightarrow>
     (\<forall>req budget w m w'. Q req \<longrightarrow> x req budget w = (m, w') \<longrightarrow>
        (case m of
           Some (Inr v, _) \<Rightarrow> \<exists>a. D (obs w) a \<and> ans req a v \<and> D (stp req a) (obs w')
         | _ \<Rightarrow> D (obs w) (obs w') \<or> (\<exists>a. D (obs w) a \<and> D (stp req a) (obs w'))))"

definition honest_runtime ::
    "(request \<Rightarrow> bool) \<Rightarrow> ('o \<Rightarrow> 'o \<Rightarrow> bool) \<Rightarrow> ('w \<Rightarrow> 'o) \<Rightarrow> (request \<Rightarrow> 'o \<Rightarrow> 'o) \<Rightarrow> (request \<Rightarrow> 'o \<Rightarrow> reply_value \<Rightarrow> bool) \<Rightarrow>
     'w runtime \<Rightarrow> bool" where
  "honest_runtime Q D obs stp ans r \<longleftrightarrow>
     drifts D obs r \<and> (\<forall>h. honest Q D obs stp ans (rt_manager r h)) \<and> (\<forall>h. honest Q D obs stp ans (rt_cluster r h))"

lemma honest_drifts: "honest_runtime Q D obs stp ans r \<Longrightarrow> drifts D obs r"
  by (simp add: honest_runtime_def)

lemma honest_backend: "honest_runtime Q D obs stp ans r \<Longrightarrow> honest Q D obs stp ans (backend_send r conn)"
  by (cases conn) (simp_all add: honest_runtime_def)

lemma run_ask:
  assumes "honest_runtime Q D obs stp ans r" and "Q req" and "run_job r conn (ask conv req k) budget w = (m, w')"
  shows "(\<exists>v a. m = Some (and_then (map_redis_result (conv v)) k) \<and> D (obs w) a \<and> ans req a v \<and> D (stp req a) (obs w')) \<or>
    (\<forall>x. m \<noteq> Some (Inr x)) \<and> (D (obs w) (obs w') \<or> (\<exists>a. D (obs w) a \<and> D (stp req a) (obs w')))"
proof -
  obtain x w1 where x: "backend_send r conn req budget w = (x, w1)" by force
  have l: "case x of
           Some (Inr v, _) \<Rightarrow> \<exists>a. D (obs w) a \<and> ans req a v \<and> D (stp req a) (obs w1)
         | _ \<Rightarrow> D (obs w) (obs w1) \<or> (\<exists>a. D (obs w) a \<and> D (stp req a) (obs w1))"
    using honest_backend [OF assms(1), of conn] x assms(2) unfolding honest_def by blast
  show ?thesis
  proof (cases x)
    case None
    with x l assms(3) show ?thesis by (auto simp: ask_def)
  next
    case (Some rl)
    obtain reply left where rl: "rl = (reply, left)" by force
    with Some x assms(3) have m: "w' = w1" "m = Some (and_then (map_redis_result (and_then reply conv)) k)"
      by (auto simp: ask_def)
    with Some rl l show ?thesis by (cases reply) auto
  qed
qed

lemma ran_asked:
  assumes "honest_runtime Q D obs stp ans (rt env)" and "Q req" and "ran_once D obs env (ask conv req k) s r s'"
  shows "(\<exists>v a. r = and_then (map_redis_result (conv v)) k \<and> D (obs (world s)) a \<and> ans req a v \<and>
      D (stp req a) (obs (world s'))) \<or>
    (\<exists>e. r = Inl e) \<and>
      (D (obs (world s)) (obs (world s')) \<or> (\<exists>a. D (obs (world s)) a \<and> D (stp req a) (obs (world s'))))"
proof -
  note trans = drift_trans [OF honest_drifts [OF assms(1)]]
  from assms(3) consider
      "\<exists>e. r = Inl e" "D (obs (world s)) (obs (world s'))"
    | conn budget w1 m w2 where "D (obs (world s)) (obs w1)"
        "run_job (rt env) conn (ask conv req k) budget w1 = (m, w2)" "D (obs w2) (obs (world s'))"
        "m = Some r \<or> m = None \<and> (\<exists>e. r = Inl e)"
    unfolding ran_once_def by blast
  then show ?thesis
  proof cases
    case (2 conn budget w1 m w2)
    from run_ask [OF assms(1,2) 2(2)] show ?thesis
    proof (elim disjE exE conjE)
      fix v a assume v: "m = Some (and_then (map_redis_result (conv v)) k)" "D (obs w1) a" "ans req a v" "D (stp req a) (obs w2)"
      then have "D (obs (world s)) a" "D (stp req a) (obs (world s'))" using 2(1,3) trans by blast+
      with v 2(4) show ?thesis by auto
    next
      assume "\<forall>x. m \<noteq> Some (Inr x)" "D (obs w1) (obs w2)"
      moreover from this(2) have "D (obs (world s)) (obs (world s'))" using 2(1,3) trans by blast
      ultimately show ?thesis using 2(4) by (cases r) auto
    next
      fix a assume "\<forall>x. m \<noteq> Some (Inr x)" "D (obs w1) a" "D (stp req a) (obs w2)"
      moreover from this(2,3) have "D (obs (world s)) a" "D (stp req a) (obs (world s'))" using 2(1,3) trans by blast+
      ultimately show ?thesis using 2(4) by (cases r) auto
    qed
  qed blast
qed

text \<open>On a server on which nothing else happens.\<close>

lemma asked_once:
  assumes "honest_runtime Q (=) obs stp ans (rt env)" and "Q req" and "with_pool_conn env cl (ask conv req k) s = (r, s')"
  shows "(\<exists>v. r = and_then (map_redis_result (conv v)) k \<and> ans req (obs (world s)) v \<and>
      obs (world s') = stp req (obs (world s))) \<or>
    (\<exists>e. r = Inl e) \<and> (obs (world s') = obs (world s) \<or> obs (world s') = stp req (obs (world s)))"
  using ran_asked [OF assms(1,2) with_pool_conn_ran [OF honest_drifts [OF assms(1)] assms(3)]] by auto

section \<open>Operations of an abstract store\<close>

text \<open>\<open>op m r m'\<close>: on the store \<open>m\<close> the operation gives the result \<open>r\<close> and leaves \<open>m'\<close>.\<close>

type_synonym ('m, 'a) store_op = "'m \<Rightarrow> 'a res \<Rightarrow> 'm \<Rightarrow> bool"

text \<open>
  A call implements an operation: it takes place at one moment of the call and has the result of the
  call, or the call fails and it took place at one moment or not at all.
\<close>

definition implements :: "('m \<Rightarrow> 'm \<Rightarrow> bool) \<Rightarrow> ('m, 'a) store_op \<Rightarrow> 'm \<Rightarrow> 'a res \<Rightarrow> 'm \<Rightarrow> bool" where
  "implements D op m r m' \<longleftrightarrow>
     (\<exists>a b. D m a \<and> op a r b \<and> D b m') \<or>
     (\<exists>e. r = Inl e) \<and> (D m m' \<or> (\<exists>a r0 b. D m a \<and> op a r0 b \<and> D b m'))"

lemma implements_Inr: "implements D op m (Inr x) m' \<longleftrightarrow> (\<exists>a b. D m a \<and> op a (Inr x) b \<and> D b m')"
  by (simp add: implements_def)

lemma implements_alone:
  "implements (=) op m r m' \<longleftrightarrow> op m r m' \<or> (\<exists>e. r = Inl e) \<and> (m' = m \<or> (\<exists>r0. op m r0 m'))"
  by (auto simp: implements_def)

lemma implements_within:
  assumes "implements D op m1 r m2" and "D m m1" and "D m2 m'" and d: "drifts D obs rtm"
  shows "implements D op m r m'"
proof -
  note trans = drift_trans [OF d]
  have early: "D m a" if "D m1 a" for a using trans [OF assms(2) that] .
  have late: "D b m'" if "D b m2" for b using trans [OF that assms(3)] .
  from assms(1) consider a b where "D m1 a" "op a r b" "D b m2"
    | e where "r = Inl e" "D m1 m2" | e a r0 b where "r = Inl e" "D m1 a" "op a r0 b" "D b m2"
    unfolding implements_def by blast
  then show ?thesis
  proof cases
    case (1 a b)
    have "D m a" "D b m'" by (rule early [OF 1(1)], rule late [OF 1(3)])
    with 1(2) show ?thesis unfolding implements_def by blast
  next
    case 2
    have "D m m'" by (rule trans [OF early [OF 2(2)] assms(3)])
    with 2(1) show ?thesis unfolding implements_def by blast
  next
    case (3 e a r0 b)
    have "D m a" "D b m'" by (rule early [OF 3(2)], rule late [OF 3(4)])
    with 3(1,3) show ?thesis unfolding implements_def by blast
  qed
qed

lemma implements_here:
  assumes "op m r m'" and "drifts D obs rtm"
  shows "implements D op m r m'"
proof -
  have "D m m" and "D m' m'" by (rule drift_refl [OF assms(2)])+
  with assms(1) show ?thesis unfolding implements_def by blast
qed

lemma implements_mono:
  "implements D op m r m' \<Longrightarrow> (\<And>a r b. op a r b \<Longrightarrow> op' a r b) \<Longrightarrow> implements D op' m r m'"
  unfolding implements_def by blast

lemma reads_only_drift:
  assumes "implements D op m r m'" and reads: "\<And>a r b. op a r b \<Longrightarrow> b = a" and "drifts D obs rtm"
  shows "D m m'"
proof -
  have "D m m'" if "D m a" "op a r0 b" "D b m'" for a r0 b
    using drift_trans [OF assms(3) that(1)] reads [OF that(2)] that(3) by simp
  with assms(1) show ?thesis unfolding implements_def by blast
qed

subsection \<open>Single attempts\<close>

lemma ran_implements:
  assumes "honest_runtime Q D obs stp ans (rt env)" and "ran_once D obs env (ask conv req k) s r s'"
    and "Q req" and sound: "\<And>m v. ans req m v \<Longrightarrow> op m (and_then (map_redis_result (conv v)) k) (stp req m)"
    and unheard: "\<And>m. stp req m = m \<or> (\<exists>r0. op m r0 (stp req m))"
  shows "implements D op (obs (world s)) r (obs (world s'))"
  using ran_asked [OF assms(1,3,2)]
proof (elim disjE exE conjE)
  fix v a assume "r = and_then (map_redis_result (conv v)) k" "D (obs (world s)) a" "ans req a v"
    "D (stp req a) (obs (world s'))"
  then show ?thesis using sound unfolding implements_def by blast
next
  fix a e assume a: "D (obs (world s)) a" "D (stp req a) (obs (world s'))" and "r = Inl e"
  from unheard [of a] show ?thesis
  proof
    assume "stp req a = a"
    with a drift_trans [OF honest_drifts [OF assms(1)]] have "D (obs (world s)) (obs (world s'))" by metis
    with \<open>r = Inl e\<close> show ?thesis by (simp add: implements_def)
  qed (use a \<open>r = Inl e\<close> in \<open>auto simp: implements_def\<close>)
qed (auto simp: implements_def)

lemma ask_implements:
  assumes "honest_runtime Q D obs stp ans (rt env)" and "with_pool_conn env cl (ask conv req k) s = (r, s')"
    and "Q req" and "\<And>m v. ans req m v \<Longrightarrow> op m (and_then (map_redis_result (conv v)) k) (stp req m)"
    and "\<And>m. stp req m = m \<or> (\<exists>r0. op m r0 (stp req m))"
  shows "implements D op (obs (world s)) r (obs (world s'))"
  using ran_implements [where op = op, OF assms(1) with_pool_conn_ran [OF honest_drifts [OF assms(1)] assms(2)]] assms(3-5)
  by blast

lemma done_implements:
  assumes "honest_runtime Q D obs stp ans (rt env)" and "with_pool_conn env cl (Done (Inl e)) s = (r, s')"
  shows "implements D op (obs (world s)) r (obs (world s'))"
proof -
  note drifts = honest_drifts [OF assms(1)]
  from with_pool_conn_ran [OF drifts assms(2)] have "(\<exists>e. r = Inl e) \<and> D (obs (world s)) (obs (world s'))"
    using drift_trans [OF drifts] by (auto simp: ran_once_def)
  then show ?thesis by (simp add: implements_def)
qed

subsection \<open>Retries\<close>

lemma retry_loop_implements:
  assumes d: "drifts D obs rtm" and reads: "\<And>a r b. op a r b \<Longrightarrow> b = a"
    and once: "\<And>u r u'. f u = (r, u') \<Longrightarrow> implements D op (view u) r (view u')"
    and read: "\<And>u. D (view u) (view (snd (now u)))" and wait: "\<And>d u. D (view u) (view (sleep d u))"
  shows "retry_loop now sleep c name f start attempt s = Some (r, s') \<Longrightarrow> implements D op (view s) r (view s')"
proof (induction attempt s rule: retry_induct [of c])
  case (Round attempt s)
  note trans = drift_trans [OF d] and refl = drift_refl [OF d]
  have same: "D (view u) (view u')" if "f u = (x, u')" for u x u'
    by (rule reads_only_drift [OF once [OF that] reads d])
  have read': "D (view u) (view u')" if "now u = (t, u')" for u t u' using read [of u] that by simp
  from Round.prems show ?case
  proof (cases rule: retry_loop_cases)
    case Done
    then show ?thesis using once by blast
  next
    case (Exhausted s1 t)
    then show ?thesis
      using implements_within [OF once [OF Exhausted(1)] refl read' [OF Exhausted(3)] d] by simp
  next
    case (Expired r1 s1 t s2 t2 deadline)
    have "D (view s) (view s')"
      using same [OF Expired(1)] read' [OF Expired(3)] read' [OF Expired(6)] trans by blast
    with Expired show ?thesis by (simp add: implements_def)
  next
    case (Again r1 s1 t s2 s3 d')
    have "D (view s) (view s2)" using same [OF Again(1)] read' [OF Again(3)] trans by blast
    moreover have "D (view s2) (view s3)"
      using Again(6) read' [of s2] refl by (auto split: option.splits)
    moreover have "D (view s3) (view (pause sleep d' s3))" using wait refl by (simp add: pause_def)
    ultimately have "D (view s) (view (pause sleep d' s3))" using trans by blast
    from implements_within [OF Round.IH [OF Again(5) should_continue_less [OF Again(4)] Again(7)] this refl d]
    show ?thesis .
  qed
qed

lemma routed_implements:
  assumes server: "honest_runtime Q D obs stp ans (rt env)" and reads: "\<And>a r b. op a r b \<Longrightarrow> b = a"
    and once: "\<And>u r u'. f u = (r, u') \<Longrightarrow> implements D op (obs (world u)) r (obs (world u'))"
    and run: "route_with_safety env cl safety name f s = Some (r, s')"
  shows "implements D op (obs (world s)) r (obs (world s'))"
proof -
  note d = honest_drifts [OF server]
  have read: "D (obs (world u)) (obs (world (snd (read_clock env u))))" for u
    by (rule drift_read_clock [OF d surjective_pairing])
  have loop: "implements D op (obs (world s)) r (obs (world s'))"
    if "with_retry (read_clock env) (sleep_await env) c name f s = Some (r, s')" for c
  proof -
    obtain t u where c: "read_clock env s = (t, u)" by force
    with that have "retry_loop (read_clock env) (sleep_await env) c name f t 0 u = Some (r, s')"
      by (simp add: with_retry_def)
    from retry_loop_implements [where view = "\<lambda>u. obs (world u)", OF d reads once read drift_sleep [OF d] this]
    have "implements D op (obs (world u)) r (obs (world s'))" .
    from implements_within [OF this _ drift_refl [OF d] d] read [of s] c show ?thesis by simp
  qed
  show ?thesis
    using run once loop by (auto simp: route_with_safety_def split: option.splits if_splits)
qed

end
