(* ===== verification/Ext.thy ===== *)
theory Ext
  imports Server
begin

text \<open>
  \<open>src/ext.rs\<close>: Lua scripts, the pipelined batch \<open>SET\<close>, and the lock with its ownership token and
  fencing number.
\<close>

section \<open>Tokens\<close>

record redis_lock =
  lk_key :: string
  lk_token :: string
  lk_fence :: nat

definition lock_key :: "redis_lock \<Rightarrow> string" where "lock_key l = lk_key l"
definition lock_token :: "redis_lock \<Rightarrow> string" where "lock_token l = lk_token l"
definition lock_fence :: "redis_lock \<Rightarrow> nat" where "lock_fence l = lk_fence l"

text \<open>\<open>for (a, b) in left.iter().zip(right) { diff |= a ^ b; }\<close> on bytes.\<close>

fun xor_bytes :: "8 word \<Rightarrow> string \<Rightarrow> string \<Rightarrow> 8 word" where
  "xor_bytes diff (a # left) (b # right) =
     xor_bytes (or diff (xor (of_nat (byte_of a)) (of_nat (byte_of b)))) left right"
| "xor_bytes diff _ _ = diff"

definition constant_time_eq :: "string \<Rightarrow> string \<Rightarrow> bool" where
  "constant_time_eq left right =
     (if length left \<noteq> length right then False else xor_bytes 0 left right = 0)"

definition lock_token_matches :: "string \<Rightarrow> string \<Rightarrow> bool" where
  "lock_token_matches expected candidate = constant_time_eq expected candidate"

definition verify_token :: "redis_lock \<Rightarrow> string \<Rightarrow> bool" where
  "verify_token lock candidate = lock_token_matches (lk_token lock) candidate"

text \<open>The \<open>x\<close> format of an unsigned number.\<close>

definition hex_char :: "nat \<Rightarrow> char" where
  "hex_char d = (if d < 10 then char_of (48 + d) else char_of (87 + d))"

fun show_hex :: "nat \<Rightarrow> string" where
  "show_hex n = (if n < 16 then [hex_char n] else show_hex (n div 16) @ [hex_char (n mod 16)])"

declare show_hex.simps [simp del]

text \<open>
  \<open>generate_lock_token\<close>: the process-wide counter is read and incremented, the clock is the
  nanoseconds since the epoch, if it is not before it. Gives the token and the new counter.
\<close>

definition generate_lock_token :: "nat option \<Rightarrow> nat \<Rightarrow> 64 word \<Rightarrow> string \<times> 64 word" where
  "generate_lock_token nanos pid counter =
     (''lk-'' @ show_hex (case nanos of Some n \<Rightarrow> n | None \<Rightarrow> 0) @ ''-'' @ show_hex pid @ ''-'' @
        show_hex (unat counter), counter + 1)"

section \<open>Lua scripts\<close>

definition unlines :: "string list \<Rightarrow> string" where
  "unlines ls = concat (map (\<lambda>l. l @ [CHR 0x0A]) ls)"

definition RELEASE_LUA :: string where
  "RELEASE_LUA = [CHR 0x0A] @ unlines
     [''if redis.call('GET', KEYS[1]) == ARGV[1] then'',
      ''  return redis.call('DEL', KEYS[1])'',
      ''else'',
      ''  return 0'',
      ''end'']"

definition EXTEND_LUA :: string where
  "EXTEND_LUA = [CHR 0x0A] @ unlines
     [''if redis.call('GET', KEYS[1]) == ARGV[1] then'',
      ''  return redis.call('PEXPIRE', KEYS[1], ARGV[2])'',
      ''else'',
      ''  return 0'',
      ''end'']"

text \<open>The reply as it is.\<close>

definition as_value :: "reply_value from_value" where
  "as_value v = Inr v"

definition script_job :: "string \<Rightarrow> string list \<Rightarrow> bytes list \<Rightarrow> reply_value job" where
  "script_job script keys args = ask as_value (Invoke script keys args) Inr"

definition eval_script ::
    "'w env \<Rightarrow> client \<Rightarrow> string \<Rightarrow> string list \<Rightarrow> bytes list \<Rightarrow> 'w sys \<Rightarrow> reply_value res \<times> 'w sys" where
  "eval_script env cl script keys args s =
     (if blank script then (Inl (Config (Msg ''Lua script empty'' [])), s)
      else with_pool_conn env cl (script_job script keys args) s)"

definition eval_sha_job :: "string \<Rightarrow> string list \<Rightarrow> bytes list \<Rightarrow> reply_value job" where
  "eval_sha_job sha keys args =
     ask as_value (Command ''EVALSHA''
       ([Text sha, Number (int (length keys))] @ map Text keys @ map Bytes args)) Inr"

definition eval_sha ::
    "'w env \<Rightarrow> client \<Rightarrow> string \<Rightarrow> string list \<Rightarrow> bytes list \<Rightarrow> 'w sys \<Rightarrow> reply_value res \<times> 'w sys" where
  "eval_sha env cl sha keys args s =
     (if blank sha then (Inl (Config (Msg ''EVALSHA sha empty'' [])), s)
      else with_pool_conn env cl (eval_sha_job sha keys args) s)"

definition script_load_job :: "conversions \<Rightarrow> string \<Rightarrow> string job" where
  "script_load_job cv script = ask (as_string cv) (Command ''SCRIPT'' [Text ''LOAD'', Text script]) Inr"

definition script_load_and_eval ::
    "'w env \<Rightarrow> conversions \<Rightarrow> client \<Rightarrow> string \<Rightarrow> string list \<Rightarrow> bytes list \<Rightarrow> 'w sys \<Rightarrow>
     (string \<times> reply_value) res \<times> 'w sys" where
  "script_load_and_eval env cv cl script keys args s =
     (if blank script then (Inl (Config (Msg ''Lua script empty'' [])), s)
      else
        case with_pool_conn env cl (script_load_job cv script) s of
          (Inl e, s) \<Rightarrow> (Inl e, s)
        | (Inr sha, s) \<Rightarrow>
            let (r, s) = eval_sha env cl sha keys args s
            in (map_ok (\<lambda>v. (sha, v)) r, s))"

section \<open>Pipelined SET\<close>

definition pipeline_cmd :: "nat option \<Rightarrow> string \<times> bytes \<Rightarrow> string \<times> arg list \<times> bool" where
  "pipeline_cmd ttl_ms item =
     (case ttl_ms of
        Some ms \<Rightarrow> (''PSETEX'', [Text (fst item), Number (int ms), Bytes (snd item)], True)
      | None \<Rightarrow> (''SET'', [Text (fst item), Bytes (snd item)], True))"

definition pipeline_job :: "conversions \<Rightarrow> nat option \<Rightarrow> (string \<times> bytes) list \<Rightarrow> unit job" where
  "pipeline_job cv ttl_ms items =
     ask (as_unit cv) (Pipe True (map (pipeline_cmd ttl_ms) items)) (\<lambda>_. Inr ())"

definition ttl_millis_or :: "string \<Rightarrow> string \<Rightarrow> duration \<Rightarrow> nat res" where
  "ttl_millis_or short_tag long_tag ttl =
     (if ttl = 0 \<or> as_millis ttl = 0 then Inl (Config (Msg short_tag []))
      else ok_or (Config (Msg long_tag [])) (try_u64 (as_millis ttl)))"

definition pipeline_set ::
    "'w env \<Rightarrow> conversions \<Rightarrow> client \<Rightarrow> (string \<times> bytes) list \<Rightarrow> duration option \<Rightarrow> 'w sys \<Rightarrow> unit res \<times> 'w sys" where
  "pipeline_set env cv cl items ttl s =
     (if items = [] then (Inr (), s)
      else
        case (case ttl of
                None \<Rightarrow> Inr None
              | Some d \<Rightarrow> map_ok Some (ttl_millis_or ''pipeline TTL 0 or below 1ms'' ''TTL too large'' d)) of
          Inl e \<Rightarrow> (Inl e, s)
        | Inr ttl_ms \<Rightarrow> with_pool_conn env cl (pipeline_job cv ttl_ms items) s)"

section \<open>Integer replies of scripts\<close>

text \<open>\<open>std::str::from_utf8\<close> accepts exactly the well-formed byte sequences.\<close>

fun cont_byte :: "char \<Rightarrow> bool" where
  "cont_byte c = (128 \<le> byte_of c \<and> byte_of c < 192)"

fun utf8 :: "string \<Rightarrow> bool" where
  "utf8 [] = True"
| "utf8 (a # s) =
     (if byte_of a < 128 then utf8 s
      else case s of
        b # s2 \<Rightarrow>
          if 194 \<le> byte_of a \<and> byte_of a < 224 then cont_byte b \<and> utf8 s2
          else (case s2 of
            c # s3 \<Rightarrow>
              if 224 \<le> byte_of a \<and> byte_of a < 240
              then cont_byte b \<and> cont_byte c \<and> (byte_of a = 224 \<longrightarrow> 160 \<le> byte_of b) \<and>
                (byte_of a = 237 \<longrightarrow> byte_of b < 160) \<and> utf8 s3
              else (case s3 of
                d # s4 \<Rightarrow> 240 \<le> byte_of a \<and> byte_of a < 245 \<and> cont_byte b \<and> cont_byte c \<and> cont_byte d \<and>
                  (byte_of a = 240 \<longrightarrow> 144 \<le> byte_of b) \<and> (byte_of a = 244 \<longrightarrow> byte_of b < 144) \<and> utf8 s4
              | [] \<Rightarrow> False)
          | [] \<Rightarrow> False)
      | [] \<Rightarrow> False)"

fun redis_value_as_i64 :: "reply_value \<Rightarrow> int res" where
  "redis_value_as_i64 (IntValue n) = Inr n"
| "redis_value_as_i64 OkayValue = Inr 1"
| "redis_value_as_i64 NilValue = Inr 0"
| "redis_value_as_i64 (BulkString bs) =
     (if utf8 bs then map_err (\<lambda>_. Internal (Msg ''Lua reply is no integer'' [])) (parse_i64 bs)
      else Inl (Internal (Msg ''Lua reply is no integer'' [])))"
| "redis_value_as_i64 (SimpleString txt) =
     map_err (\<lambda>_. Internal (Msg ''Lua status is no integer'' [txt])) (parse_i64 txt)"
| "redis_value_as_i64 (OtherValue _) = Inl (Internal (Msg ''Lua reply of another type'' []))"

section \<open>The lock\<close>

definition lock_set_job :: "conversions \<Rightarrow> string \<Rightarrow> string \<Rightarrow> nat \<Rightarrow> bool job" where
  "lock_set_job cv key token millis =
     ask (as_opt_string cv)
       (Command ''SET'' [Text key, Text token, Text ''NX'', Text ''PX'', Number (int millis)])
       (\<lambda>reply. Inr (reply \<noteq> None))"

definition fence_job :: "conversions \<Rightarrow> string \<Rightarrow> int job" where
  "fence_job cv fence_key = ask (as_int cv) (Method ''incr'' [Text fence_key, Number 1]) Inr"

definition lock_acquire ::
    "'w env \<Rightarrow> conversions \<Rightarrow> client \<Rightarrow> nat option \<Rightarrow> nat \<Rightarrow> 64 word \<Rightarrow> string \<Rightarrow> duration \<Rightarrow> 'w sys \<Rightarrow>
     redis_lock res \<times> 'w sys" where
  "lock_acquire env cv cl nanos pid counter key ttl s =
     (if key = [] then (Inl (Config (Msg ''lock key empty'' [])), s)
      else
        case ttl_millis_or ''lock TTL 0 or below 1ms'' ''lock TTL too large'' ttl of
          Inl e \<Rightarrow> (Inl e, s)
        | Inr millis \<Rightarrow>
            let token = fst (generate_lock_token nanos pid counter);
                fence_key = ''fence:'' @ key
            in case with_pool_conn env cl (lock_set_job cv key token millis) s of
                 (Inl e, s) \<Rightarrow> (Inl e, s)
               | (Inr acquired, s) \<Rightarrow>
                   if \<not> acquired then (Inl (Conflict (Msg ''lock contention'' [key])), s)
                   else case with_pool_conn env cl (fence_job cv fence_key) s of
                     (Inl e, s) \<Rightarrow> (Inl e, s)
                   | (Inr fence, s) \<Rightarrow>
                       if fence < 0 then (Inl (Internal (Msg ''bad fence'' [show_int fence])), s)
                       else (Inr \<lparr>lk_key = key, lk_token = token, lk_fence = nat \<bar>fence\<bar>\<rparr>, s))"

definition positive_reply :: "reply_value res \<times> 'w sys \<Rightarrow> bool res \<times> 'w sys" where
  "positive_reply rs =
     (and_then (fst rs) (\<lambda>v. map_ok (\<lambda>n. 0 < n) (redis_value_as_i64 v)), snd rs)"

definition lock_release :: "'w env \<Rightarrow> client \<Rightarrow> redis_lock \<Rightarrow> 'w sys \<Rightarrow> bool res \<times> 'w sys" where
  "lock_release env cl lock s =
     positive_reply (eval_script env cl RELEASE_LUA [lk_key lock] [lk_token lock] s)"

definition lock_extend :: "'w env \<Rightarrow> client \<Rightarrow> redis_lock \<Rightarrow> duration \<Rightarrow> 'w sys \<Rightarrow> bool res \<times> 'w sys" where
  "lock_extend env cl lock ttl s =
     (case ttl_millis_or ''extend TTL 0 or below 1ms'' ''extend TTL too large'' ttl of
        Inl e \<Rightarrow> (Inl e, s)
      | Inr millis \<Rightarrow>
          positive_reply (eval_script env cl EXTEND_LUA [lk_key lock] [lk_token lock, show_nat millis] s))"

section \<open>Facts on tokens\<close>

lemma byte_of_lt: "byte_of c < 256"
  by (simp add: byte_of_def)

lemma byte_word_eq_iff: "(of_nat (byte_of a) :: 8 word) = of_nat (byte_of b) \<longleftrightarrow> a = b"
proof
  assume "(of_nat (byte_of a) :: 8 word) = of_nat (byte_of b)"
  then have "unat (of_nat (byte_of a) :: 8 word) = unat (of_nat (byte_of b) :: 8 word)" by simp
  then have "byte_of a = byte_of b" using byte_of_lt [of a] byte_of_lt [of b] by (simp add: unat_of_nat)
  then show "a = b" by (rule byte_of_inject)
qed simp

lemma or_eq_0: "or x y = 0 \<longleftrightarrow> x = 0 \<and> y = 0" for x y :: "8 word"
  by (metis or.left_neutral or.right_neutral or_eq_0_iff)

lemma xor_eq_0: "xor x y = 0 \<longleftrightarrow> x = y" for x y :: "8 word"
  by (metis bit.xor_self bit.xor_left_self xor.right_neutral)

lemma xor_bytes_zero:
  "length l = length r \<Longrightarrow> xor_bytes diff l r = 0 \<longleftrightarrow> diff = 0 \<and> l = r"
  by (induction diff l r rule: xor_bytes.induct) (auto simp: or_eq_0 xor_eq_0 byte_word_eq_iff)

lemma hex_char_byte: "d < 16 \<Longrightarrow> byte_of (hex_char d) = (if d < 10 then 48 + d else 87 + d)"
  by (simp add: hex_char_def byte_of_def)

lemma hex_char_inject: "d < 16 \<Longrightarrow> e < 16 \<Longrightarrow> hex_char d = hex_char e \<Longrightarrow> d = e"
proof -
  assume de: "d < 16" "e < 16" and "hex_char d = hex_char e"
  then have "byte_of (hex_char d) = byte_of (hex_char e)" by simp
  then have "(if d < 10 then 48 + d else 87 + d) = (if e < 10 then 48 + e else 87 + e)"
    by (simp only: hex_char_byte de)
  then show "d = e" by (simp split: if_splits)
qed

lemma show_hex_digits: "c \<in> set (show_hex n) \<Longrightarrow> \<exists>d < 16. c = hex_char d"
proof (induction n rule: show_hex.induct)
  case (1 n)
  have "\<exists>d < 16. hex_char (n mod 16) = hex_char d" by (intro exI [of _ "n mod 16"]) simp
  with 1 show ?case by (cases "n < 16") (auto simp: show_hex.simps [of n])
qed

lemma show_hex_no_dash: "CHR ''-'' \<notin> set (show_hex n)"
proof
  assume "CHR ''-'' \<in> set (show_hex n)"
  then obtain d where "d < 16" "CHR ''-'' = hex_char d" using show_hex_digits by blast
  then have "byte_of CHR ''-'' = (if d < 10 then 48 + d else 87 + d)" using hex_char_byte by metis
  then show False by (simp add: byte_of_def split: if_splits)
qed

lemma show_hex_ne: "show_hex n \<noteq> []"
  by (subst show_hex.simps) simp

lemma show_hex_inject: "show_hex m = show_hex n \<Longrightarrow> m = n"
proof (induction m arbitrary: n rule: show_hex.induct)
  case (1 m)
  show ?case
  proof (cases "m < 16")
    case True
    then have m: "show_hex m = [hex_char m]" by (simp add: show_hex.simps [of m])
    show ?thesis
    proof (cases "n < 16")
      case True
      with m 1(2) \<open>m < 16\<close> hex_char_inject show ?thesis by (simp add: show_hex.simps [of n])
    next
      case False
      with m 1(2) show_hex_ne [of "n div 16"] show ?thesis by (simp add: show_hex.simps [of n])
    qed
  next
    case False
    then have m: "show_hex m = show_hex (m div 16) @ [hex_char (m mod 16)]" by (simp add: show_hex.simps [of m])
    show ?thesis
    proof (cases "n < 16")
      case True
      with m 1(2) show_hex_ne [of "m div 16"] show ?thesis by (simp add: show_hex.simps [of n])
    next
      case n: False
      with m 1(2) have "show_hex (m div 16) = show_hex (n div 16)" "hex_char (m mod 16) = hex_char (n mod 16)"
        by (simp_all add: show_hex.simps [of n])
      then have "m div 16 = n div 16" "m mod 16 = n mod 16"
        using 1(1) [OF False] hex_char_inject [of "m mod 16" "n mod 16"] by simp_all
      then show ?thesis by (metis mult_div_mod_eq)
    qed
  qed
qed

lemma dash_split:
  assumes "a @ CHR ''-'' # b = a' @ CHR ''-'' # b'" and "CHR ''-'' \<notin> set a" and "CHR ''-'' \<notin> set a'"
  shows "a = a' \<and> b = b'"
  using assms
proof (induction a arbitrary: a')
  case Nil
  then show ?case by (cases a') auto
next
  case (Cons x xs)
  then show ?case by (cases a') auto
qed

lemma token_inject:
  assumes "fst (generate_lock_token a p c) = fst (generate_lock_token a' p' c')"
  shows "(case a of Some n \<Rightarrow> n | None \<Rightarrow> 0) = (case a' of Some n \<Rightarrow> n | None \<Rightarrow> 0) \<and> p = p' \<and> c = c'"
proof -
  have *: "show_hex (case a of Some n \<Rightarrow> n | None \<Rightarrow> 0) @ CHR ''-'' # (show_hex p @ CHR ''-'' # show_hex (unat c)) =
      show_hex (case a' of Some n \<Rightarrow> n | None \<Rightarrow> 0) @ CHR ''-'' # (show_hex p' @ CHR ''-'' # show_hex (unat c'))"
    using assms by (simp add: generate_lock_token_def)
  from dash_split [OF * show_hex_no_dash show_hex_no_dash]
  have a: "show_hex (case a of Some n \<Rightarrow> n | None \<Rightarrow> 0) = show_hex (case a' of Some n \<Rightarrow> n | None \<Rightarrow> 0)"
    and r: "show_hex p @ CHR ''-'' # show_hex (unat c) = show_hex p' @ CHR ''-'' # show_hex (unat c')" by blast+
  from dash_split [OF r show_hex_no_dash show_hex_no_dash]
  have "show_hex p = show_hex p'" "show_hex (unat c) = show_hex (unat c')" by blast+
  with a show ?thesis by (simp add: show_hex_inject word_unat_eq_iff)
qed

lemma utf8_ascii: "(\<And>c. c \<in> set s \<Longrightarrow> byte_of c < 128) \<Longrightarrow> utf8 s"
  by (induction s) simp_all

lemma ascii_show_nat: "c \<in> set (show_nat n) \<Longrightarrow> byte_of c < 128"
  by (auto dest!: show_nat_digits simp: byte_of_digit_char)

section \<open>What the lock relies on\<close>

text \<open>
  The lock keys of a server by themselves, and what the lock's requests do to them: \<open>SET NX PX\<close> stores
  only on a free key, the release script deletes only for the token it finds.
\<close>

fun lock_step :: "request \<Rightarrow> (string \<rightharpoonup> string) \<Rightarrow> (string \<rightharpoonup> string)" where
  "lock_step (Command name [Text k, Text t, Text nx, Text px, Number _]) m =
     (if name = ''SET'' \<and> nx = ''NX'' \<and> m k = None then m(k \<mapsto> t) else m)"
| "lock_step (Invoke script [k] [t]) m = (if script = RELEASE_LUA \<and> m k = Some t then m(k := None) else m)"
| "lock_step _ m = m"

definition lock_answer :: "request \<Rightarrow> (string \<rightharpoonup> string) \<Rightarrow> reply_value \<Rightarrow> bool" where
  "lock_answer req m v \<longleftrightarrow>
     (\<forall>k t n. req = Command ''SET'' [Text k, Text t, Text ''NX'', Text ''PX'', Number n] \<longrightarrow>
        v = (if m k = None then OkayValue else NilValue)) \<and>
     (\<forall>k t. req = Invoke RELEASE_LUA [k] [t] \<longrightarrow> v = IntValue (if m k = Some t then 1 else 0))"

lemma lock_step_incr [simp]: "lock_step (Method n as) m = m"
  by simp

lemma ws_line_feed: "ws_head (CHR 0x0A # s) = 1" "ws_last (CHR 0x0A # s) = 1"
  by (cases "CHR 0x0A # s" rule: ws_head.cases; simp add: ws1_def byte_of_def)
    (cases "CHR 0x0A # s" rule: ws_last.cases; simp add: ws1_def byte_of_def)

lemma framed_not_blank:
  assumes "solid a" and "solid b"
  shows "\<not> blank (CHR 0x0A # a # mid @ [b, CHR 0x0A])"
proof -
  have start: "trim_start (CHR 0x0A # a # t) = a # t" for t
    using ws_head_solid [OF assms(1)] by (subst trim_start.simps) (simp add: ws_line_feed)
  have last: "trim_last (CHR 0x0A # b # t) = b # t" for t
    using ws_last_solid [OF assms(2)] by (subst trim_last.simps) (simp add: ws_line_feed)
  show ?thesis by (simp add: blank_def trim_def trim_end_def start last)
qed

lemma script_not_blank: "\<not> blank RELEASE_LUA" "\<not> blank EXTEND_LUA"
proof -
  have solid: "solid CHR ''i''" "solid CHR ''d''" by (simp_all add: solid_def ws1_def byte_of_def)
  have "RELEASE_LUA = CHR 0x0A # CHR ''i'' # butlast (butlast (drop 2 RELEASE_LUA)) @ [CHR ''d'', CHR 0x0A]"
    by (simp add: RELEASE_LUA_def unlines_def)
  then show "\<not> blank RELEASE_LUA" using framed_not_blank [OF solid] by metis
  have "EXTEND_LUA = CHR 0x0A # CHR ''i'' # butlast (butlast (drop 2 EXTEND_LUA)) @ [CHR ''d'', CHR 0x0A]"
    by (simp add: EXTEND_LUA_def unlines_def)
  then show "\<not> blank EXTEND_LUA" using framed_not_blank [OF solid] by metis
qed

lemma acquire_guards:
  assumes "lock_acquire env cv cl nanos pid counter key ttl s = (r, s')"
  obtains (early) e where "r = Inl e" and "s' = s"
    | (called) ms where "key \<noteq> []" and "ttl_millis_or ''lock TTL 0 or below 1ms'' ''lock TTL too large'' ttl = Inr ms"
  using assms by (cases "ttl_millis_or ''lock TTL 0 or below 1ms'' ''lock TTL too large'' ttl")
    (auto simp: lock_acquire_def split: if_splits)

section \<open>Properties\<close>

text \<open>
  The constant-time comparison of lock tokens is equality: it accepts the candidate that is the
  token, and no other text, longer, shorter or different in a single bit.
\<close>

theorem token_comparison_is_equality:
  "verify_token lock candidate \<longleftrightarrow> candidate = lk_token lock"
  by (auto simp: verify_token_def lock_token_matches_def constant_time_eq_def xor_bytes_zero)

text \<open>
  C34. Lock tokens are unique: tokens made from different clock readings, process ids or counter
  values are different, so two calls in one process never share one before the 64-bit counter has
  gone around; the counter moves by one with each token.
\<close>

theorem lock_tokens_are_unique:
  "(fst (generate_lock_token (Some n1) pid1 c1) = fst (generate_lock_token (Some n2) pid2 c2) \<longleftrightarrow>
      n1 = n2 \<and> pid1 = pid2 \<and> c1 = c2) \<and>
   snd (generate_lock_token nanos pid c1) = c1 + 1 \<and>
   (0 < k \<and> k < 2 ^ 64 \<longrightarrow>
      fst (generate_lock_token nanos pid c1) \<noteq> fst (generate_lock_token nanos pid (c1 + of_nat k)))"
proof -
  have "0 < k \<and> k < 2 ^ 64 \<Longrightarrow> (of_nat k :: 64 word) \<noteq> 0"
    by (simp add: of_nat_eq_0_iff word_of_nat_eq_0_iff nat_dvd_not_less)
  then show ?thesis
    using token_inject [of "Some n1" pid1 c1 "Some n2" pid2 c2] token_inject [of nanos pid c1 nanos pid "c1 + of_nat k"]
    by (auto simp: generate_lock_token_def)
qed

theorem lock_tokens_are_unique_witness:
  "fst (generate_lock_token (Some 5) 7 0) \<noteq> fst (generate_lock_token (Some 5) 7 1)"
  using lock_tokens_are_unique [of 5 7 0 5 7 1 "Some 5" 7 1] by simp

text \<open>
  Integer replies of a script read back: the decimal text of every 64-bit number, as a bulk or a
  simple string, gives that number, an integer reply gives itself, OK gives 1 and a nil 0; an integer
  that is read is never out of range when it came as text, and failures are internal errors.
\<close>

theorem script_reply_roundtrip:
  "(- (2 ^ 63) \<le> n \<and> n < 2 ^ 63 \<longrightarrow>
      redis_value_as_i64 (BulkString (show_int n)) = Inr n \<and> redis_value_as_i64 (SimpleString (show_int n)) = Inr n) \<and>
   redis_value_as_i64 (IntValue n) = Inr n \<and> redis_value_as_i64 OkayValue = Inr 1 \<and> redis_value_as_i64 NilValue = Inr 0 \<and>
   (case redis_value_as_i64 v of Inl e \<Rightarrow> label e = ''internal'' \<and> \<not> is_retryable e | Inr _ \<Rightarrow> True)"
proof -
  have "utf8 (show_int n)"
    by (rule utf8_ascii) (auto simp: show_int_def byte_of_def [of "CHR ''-''"] dest: ascii_show_nat split: if_splits)
  moreover have "- (2 ^ 63) \<le> n \<Longrightarrow> n < 2 ^ 63 \<Longrightarrow> parse_i64 (show_int n) = Inr n"
    by (rule parse_i64_show_int) simp_all
  moreover have "case redis_value_as_i64 v of Inl e \<Rightarrow> label e = ''internal'' \<and> \<not> is_retryable e | Inr _ \<Rightarrow> True"
    by (cases v) (auto split: sum.split simp: map_err_def)
  ultimately show ?thesis by simp
qed

theorem script_reply_roundtrip_witness:
  "redis_value_as_i64 (BulkString (show_int (- 42))) = Inr (- 42)"
  using script_reply_roundtrip [of "- 42" NilValue] by simp

end
