(* ===== verification/Lock_Conc.thy ===== *)
theory Lock_Conc
  imports Ext
begin

text \<open>
  The lock of \<open>src/ext.rs\<close> under concurrent clients: any number of calls of \<open>lock_acquire\<close> and
  \<open>lock_release\<close> in any number of processes, interleaved at every request they send. A request may be
  executed although its answer never comes, and a lock may lapse when its time to live is over.
\<close>

section \<open>The server and the calls\<close>

text \<open>
  What the calls share: the lock keys of the server, its fence counters, and for each process the
  number of tokens it has made (the static counter of \<open>generate_lock_token\<close>).
\<close>

record lock_world =
  lw_store :: "string \<rightharpoonup> string"
  lw_fences :: "string \<Rightarrow> nat"
  lw_drawn :: "nat \<Rightarrow> nat"

text \<open>Where a call stands: outside, with its key stored and no fence yet, or with its \<open>RedisLock\<close>.\<close>

datatype lock_pc =
    Outside
  | Claimed string string
  | Locked redis_lock

definition fence_key :: "string \<Rightarrow> string" where "fence_key key = ''fence:'' @ key"

definition set_nx :: "string \<Rightarrow> string \<Rightarrow> nat \<Rightarrow> request" where
  "set_nx key token millis =
     Command ''SET'' [Text key, Text token, Text ''NX'', Text ''PX'', Number (int millis)]"

definition serve :: "request \<Rightarrow> lock_world \<Rightarrow> lock_world" where
  "serve req w = w\<lparr>lw_store := lock_step req (lw_store w)\<rparr>"

definition draw :: "nat \<Rightarrow> lock_world \<Rightarrow> lock_world" where
  "draw p w = w\<lparr>lw_drawn := (lw_drawn w)(p := Suc (lw_drawn w p))\<rparr>"

definition number_next :: "string \<Rightarrow> lock_world \<Rightarrow> lock_world" where
  "number_next key w = w\<lparr>lw_fences := (lw_fences w)(fence_key key := Suc (lw_fences w (fence_key key)))\<rparr>"

definition token_at :: "nat option \<Rightarrow> nat \<Rightarrow> lock_world \<Rightarrow> string" where
  "token_at nanos p w = fst (generate_lock_token nanos p (of_nat (lw_drawn w p)))"

text \<open>
  One request of a call in process \<open>p\<close>. The counter of tokens is below 2 to the 64; \<open>INCR\<close> gives
  numbers of 64 bits and fails beyond them.
\<close>

inductive lstep :: "nat \<Rightarrow> lock_world \<Rightarrow> lock_pc \<Rightarrow> lock_world \<Rightarrow> lock_pc \<Rightarrow> bool" where
  claim: "key \<noteq> [] \<Longrightarrow> lw_drawn w p < 2 ^ 64 \<Longrightarrow> req = set_nx key (token_at nanos p w) millis \<Longrightarrow>
    lock_answer req (lw_store w) OkayValue \<Longrightarrow>
    lstep p w Outside (serve req (draw p w)) (Claimed key (token_at nanos p w))"
| contended: "lw_drawn w p < 2 ^ 64 \<Longrightarrow> req = set_nx key (token_at nanos p w) millis \<Longrightarrow>
    lock_answer req (lw_store w) NilValue \<Longrightarrow> lstep p w Outside (serve req (draw p w)) Outside"
| claim_failed: "lw_drawn w p < 2 ^ 64 \<Longrightarrow> lstep p w Outside (draw p w) Outside"
| claim_unanswered: "lw_drawn w p < 2 ^ 64 \<Longrightarrow> req = set_nx key (token_at nanos p w) millis \<Longrightarrow>
    lstep p w Outside (serve req (draw p w)) Outside"
| numbered: "Suc (lw_fences w (fence_key key)) < 2 ^ 63 \<Longrightarrow>
    lstep p w (Claimed key token) (number_next key w)
      (Locked \<lparr>lk_key = key, lk_token = token, lk_fence = Suc (lw_fences w (fence_key key))\<rparr>)"
| number_failed: "lstep p w (Claimed key token) w Outside"
| number_unanswered: "lstep p w (Claimed key token) (number_next key w) Outside"
| release: "lstep p w (Locked l) (serve (Invoke RELEASE_LUA [lk_key l] [lk_token l]) w) Outside"
| release_failed: "lstep p w (Locked l) w (Locked l)"
| release_unanswered: "lstep p w (Locked l) (serve (Invoke RELEASE_LUA [lk_key l] [lk_token l]) w) (Locked l)"

inductive_cases lstepE: "lstep p w pc w' pc'"

text \<open>
  All calls together; call \<open>t\<close> belongs to process \<open>pid t\<close>. With \<open>lapses\<close> a stored lock may disappear
  between two requests.
\<close>

type_synonym locking = "lock_world \<times> (nat \<Rightarrow> lock_pc)"

inductive locking_step :: "(nat \<Rightarrow> nat) \<Rightarrow> bool \<Rightarrow> locking \<Rightarrow> locking \<Rightarrow> bool" for pid lapses where
  call: "lstep (pid t) w (ts t) w' pc \<Longrightarrow> locking_step pid lapses (w, ts) (w', ts(t := pc))"
| lapse: "lapses \<Longrightarrow>
    locking_step pid lapses (w, ts) (w\<lparr>lw_store := (lw_store w)(key := None)\<rparr>, ts)"

inductive_cases locking_stepE: "locking_step pid lapses s s'"

definition locking_init :: "locking \<Rightarrow> bool" where
  "locking_init s \<longleftrightarrow>
     s = (\<lparr>lw_store = Map.empty, lw_fences = (\<lambda>_. 0), lw_drawn = (\<lambda>_. 0)\<rparr>, \<lambda>_. Outside)"

abbreviation locking_reach :: "(nat \<Rightarrow> nat) \<Rightarrow> bool \<Rightarrow> locking \<Rightarrow> bool" where
  "locking_reach pid lapses \<equiv> reach locking_init (locking_step pid lapses)"

section \<open>Invariants\<close>

fun token_of :: "lock_pc \<Rightarrow> string option" where
  "token_of Outside = None"
| "token_of (Claimed key token) = Some token"
| "token_of (Locked l) = Some (lk_token l)"

definition issued :: "nat \<Rightarrow> lock_world \<Rightarrow> string \<Rightarrow> bool" where
  "issued p w token \<longleftrightarrow>
     (\<exists>nanos n. n < lw_drawn w p \<and> n < 2 ^ 64 \<and> token = fst (generate_lock_token nanos p (of_nat n)))"

definition fence_fits :: "lock_world \<Rightarrow> lock_pc \<Rightarrow> bool" where
  "fence_fits w pc \<longleftrightarrow> (\<forall>l. pc = Locked l \<longrightarrow> lk_fence l \<le> lw_fences w (fence_key (lk_key l)))"

definition apart :: "lock_pc \<Rightarrow> lock_pc \<Rightarrow> bool" where
  "apart a b \<longleftrightarrow>
     (\<forall>x. token_of a = Some x \<longrightarrow> token_of b \<noteq> Some x) \<and>
     (\<forall>l l'. a = Locked l \<longrightarrow> b = Locked l' \<longrightarrow> lk_key l = lk_key l' \<longrightarrow> lk_fence l \<noteq> lk_fence l')"

text \<open>With or without lapses: tokens and fences are handed out once.\<close>

definition once_only :: "(nat \<Rightarrow> nat) \<Rightarrow> locking \<Rightarrow> bool" where
  "once_only pid s \<longleftrightarrow>
     (\<forall>t x. token_of (snd s t) = Some x \<longrightarrow> issued (pid t) (fst s) x) \<and>
     (\<forall>t. fence_fits (fst s) (snd s t)) \<and> (\<forall>t u. t \<noteq> u \<longrightarrow> apart (snd s t) (snd s u))"

text \<open>Without lapses: a claimed key is stored, and the owner of a key has the last number given out.\<close>

definition owned :: "lock_world \<Rightarrow> lock_pc \<Rightarrow> bool" where
  "owned w pc \<longleftrightarrow>
     (case pc of
        Outside \<Rightarrow> True
      | Claimed key token \<Rightarrow> lw_store w key = Some token
      | Locked l \<Rightarrow> lw_store w (lk_key l) = Some (lk_token l) \<longrightarrow> lk_fence l = lw_fences w (fence_key (lk_key l)))"

definition owners_ahead :: "(nat \<Rightarrow> nat) \<Rightarrow> locking \<Rightarrow> bool" where
  "owners_ahead pid s \<longleftrightarrow> once_only pid s \<and> (\<forall>t. owned (fst s) (snd s t))"

lemma fence_key_eq [simp]: "fence_key k = fence_key k' \<longleftrightarrow> k = k'"
  by (simp add: fence_key_def)

lemma world_simps [simp]:
  "lw_store (draw p w) = lw_store w" "lw_fences (draw p w) = lw_fences w"
  "lw_drawn (draw p w) = (lw_drawn w)(p := Suc (lw_drawn w p))"
  "lw_store (serve req w) = lock_step req (lw_store w)" "lw_fences (serve req w) = lw_fences w"
  "lw_drawn (serve req w) = lw_drawn w" "lw_store (number_next key w) = lw_store w"
  "lw_drawn (number_next key w) = lw_drawn w"
  "lw_fences (number_next key w) = (lw_fences w)(fence_key key := Suc (lw_fences w (fence_key key)))"
  by (simp_all add: draw_def serve_def number_next_def)


lemma token_at_fresh:
  assumes "issued q w x" and "lw_drawn w p < 2 ^ 64"
  shows "x \<noteq> token_at nanos p w"
proof
  assume eq: "x = token_at nanos p w"
  from assms(1) obtain a n where n: "n < lw_drawn w q" "n < 2 ^ 64"
      "x = fst (generate_lock_token a q (of_nat n))" by (auto simp: issued_def)
  have "q = p" and "(of_nat n :: 64 word) = of_nat (lw_drawn w p)"
    using token_inject [of a q "of_nat n" nanos p "of_nat (lw_drawn w p)"] eq n(3)
    by (simp_all add: token_at_def)
  moreover have "unat (of_nat n :: 64 word) = n" "unat (of_nat (lw_drawn w p) :: 64 word) = lw_drawn w p"
    using n(2) assms(2) by (simp_all add: unat_of_nat)
  ultimately have "n = lw_drawn w q" by metis
  with n(1) show False by simp
qed

lemma token_at_issued: "lw_drawn w p < 2 ^ 64 \<Longrightarrow> issued p (serve req (draw p w)) (token_at nanos p w)"
  by (auto simp: issued_def token_at_def)

lemma issued_grows:
  assumes "issued p w x" and "lw_drawn w p \<le> lw_drawn w' p"
  shows "issued p w' x"
proof -
  from assms(1) obtain a n where "n < lw_drawn w p" "n < 2 ^ 64" "x = fst (generate_lock_token a p (of_nat n))"
    by (auto simp: issued_def)
  with assms(2) show ?thesis unfolding issued_def by (intro exI [of _ a] exI [of _ n]) simp
qed

text \<open>What one request can do to the counters, and where a token and a fence come from.\<close>

lemma lstep_counters:
  assumes "lstep p w pc w' pc'"
  shows "lw_drawn w q \<le> lw_drawn w' q" and "lw_fences w f \<le> lw_fences w' f"
  using assms by (auto elim!: lstepE)

lemma lstep_token:
  assumes "lstep p w pc w' pc'" and "token_of pc' = Some x"
  shows "token_of pc = Some x \<or> issued p w' x \<and> (\<forall>q. \<not> issued q w x)"
  using assms by (cases rule: lstepE) (auto simp: token_at_issued dest: token_at_fresh)

lemma lstep_fence:
  assumes "lstep p w pc w' (Locked l)"
  shows "pc = Locked l \<or> lk_fence l = lw_fences w' (fence_key (lk_key l)) \<and>
    lw_fences w (fence_key (lk_key l)) < lk_fence l"
  using assms by (auto elim!: lstepE)

lemma once_only_step:
  assumes "once_only pid s" and "locking_step pid lapses s s'"
  shows "once_only pid s'"
  using assms(2)
proof (cases rule: locking_step.cases)
  case (call t w ts w' pc)
  have old: "\<And>u x. token_of (ts u) = Some x \<Longrightarrow> issued (pid u) w x" "\<And>u. fence_fits w (ts u)"
    "\<And>u v. u \<noteq> v \<Longrightarrow> apart (ts u) (ts v)"
    using assms(1) call(1) by (auto simp: once_only_def)
  note up = lstep_counters [OF call(3)]
  have tok: "token_of pc = Some x \<Longrightarrow> issued (pid t) w' x" for x
    using lstep_token [OF call(3)] issued_grows [OF old(1) up(1)] by blast
  have fence: "lk_fence l = lw_fences w' (fence_key (lk_key l)) \<or> ts t = Locked l" if "pc = Locked l" for l
    using lstep_fence call(3) that by blast
  have fits: "fence_fits w' (ts u)" for u
    using old(2) [of u] up(2) by (auto simp: fence_fits_def intro: order_trans)
  have pc_fits: "fence_fits w' pc"
    using fence fits [of t] by (auto simp: fence_fits_def)
  have away: "apart pc (ts u) \<and> apart (ts u) pc" if u: "u \<noteq> t" for u
  proof -
    have "token_of (ts u) \<noteq> Some x" if x: "token_of pc = Some x" for x
      using lstep_token [OF call(3) x] old(1) [of u x] old(3) [of t u] u by (auto simp: apart_def)
    moreover have "lk_fence l \<noteq> lk_fence l'" if "pc = Locked l" "ts u = Locked l'" "lk_key l = lk_key l'" for l l'
    proof -
      have "lstep (pid t) w (ts t) w' (Locked l)" using call(3) that(1) by simp
      from lstep_fence [OF this] show ?thesis
        using old(2) [of u] old(3) [of t u] u that by (auto simp: fence_fits_def apart_def)
    qed
    ultimately show ?thesis by (auto simp: apart_def) (metis | fastforce)+
  qed
  show ?thesis
    unfolding once_only_def call(2)
    using tok issued_grows [OF old(1) up(1)] fits pc_fits away old(3) by auto
next
  case (lapse w ts key)
  then show ?thesis using assms(1) by (auto simp: once_only_def issued_def fence_fits_def)
qed

lemma owned_self:
  assumes "lstep p w pc w' pc'" and "owned w pc"
  shows "owned w' pc'"
  using assms by (auto elim!: lstepE simp: owned_def lock_answer_def set_nx_def split: if_splits)

lemma owned_other:
  assumes "lstep p w pc w' pc'" and "owned w pc" and "owned w other" and "apart pc other"
    and "\<And>x. token_of other = Some x \<Longrightarrow> issued q w x"
  shows "owned w' other"
proof (cases other)
  case Outside
  then show ?thesis by (simp add: owned_def)
next
  case (Claimed key token)
  then have "lw_store w key = Some token" "token_of pc \<noteq> Some token"
    using assms(3,4) by (auto simp: owned_def apart_def)
  with assms(1) have "lw_store w' key = Some token"
    by (cases rule: lstepE) (auto simp: set_nx_def)
  with Claimed show ?thesis by (simp add: owned_def)
next
  case (Locked l)
  then have "token_of pc \<noteq> Some (lk_token l)" and new: "\<not> (lw_drawn w p < 2 ^ 64 \<and> token_at nanos p w = lk_token l)" for nanos
    using assms(4) assms(5) [of "lk_token l"] token_at_fresh [of q w "lk_token l" p nanos] by (auto simp: apart_def)
  with assms(1-3) Locked show ?thesis
    by (cases rule: lstepE) (auto simp: owned_def set_nx_def lock_answer_def split: if_splits)
qed

lemma owners_ahead_step:
  assumes "owners_ahead pid s" and "locking_step pid False s s'"
  shows "owners_ahead pid s'"
  using assms(2)
proof (cases rule: locking_step.cases)
  case (call t w ts w' pc)
  have old: "owned w (ts u)" "token_of (ts u) = Some x \<Longrightarrow> issued (pid u) w x"
    "t \<noteq> u \<Longrightarrow> apart (ts t) (ts u)" for u x
    using assms(1) call(1) by (auto simp: owners_ahead_def once_only_def)
  have "owned w' (ts u)" if "u \<noteq> t" for u
    by (rule owned_other [OF call(3) old(1) old(1), where q = "pid u"]) (use old that in auto)
  then show ?thesis
    using once_only_step [OF _ assms(2)] assms(1) owned_self [OF call(3) old(1)]
    unfolding owners_ahead_def call(2) by simp
qed simp

lemma once_only_init: "locking_init s \<Longrightarrow> owners_ahead pid s \<and> once_only pid s"
  by (simp add: locking_init_def owners_ahead_def once_only_def owned_def apart_def fence_fits_def)

interpretation handed_out: invariant_system locking_init "locking_step pid lapses" "once_only pid" for pid lapses
  by unfold_locales (auto dest: once_only_init once_only_step)

interpretation ahead: invariant_system locking_init "locking_step pid False" "owners_ahead pid" for pid
  by unfold_locales (auto dest: once_only_init owners_ahead_step)

section \<open>One call is a run\<close>

text \<open>
  The server as a single call sees it: lock keys and fence counters, with \<open>INCR\<close> beside the requests
  of \<open>lock_step\<close>. No lock has the key of a fence counter.
\<close>

fun fenced_step :: "request \<Rightarrow> (string \<rightharpoonup> string) \<times> (string \<Rightarrow> nat) \<Rightarrow> (string \<rightharpoonup> string) \<times> (string \<Rightarrow> nat)" where
  "fenced_step (Method name [Text k, Number d]) (m, f) =
     (m, if name = ''incr'' \<and> d = 1 then f(k := Suc (f k)) else f)"
| "fenced_step req (m, f) = (lock_step req m, f)"

definition fenced_answer :: "request \<Rightarrow> (string \<rightharpoonup> string) \<times> (string \<Rightarrow> nat) \<Rightarrow> reply_value \<Rightarrow> bool" where
  "fenced_answer req mf v \<longleftrightarrow>
     lock_answer req (fst mf) v \<and>
     (\<forall>k. req = Method ''incr'' [Text k, Number 1] \<longrightarrow> v = IntValue (int (Suc (snd mf k))) \<and> Suc (snd mf k) < 2 ^ 63)"

fun fenced_request :: "request \<Rightarrow> bool" where
  "fenced_request (Command name [Text k, Text t, Text nx, Text px, Number n]) \<longleftrightarrow> name = ''SET'' \<and> nx = ''NX'' \<and> px = ''PX''"
| "fenced_request (Method name [Text k, Number d]) \<longleftrightarrow> name = ''incr'' \<and> d = 1"
| "fenced_request (Invoke script [k] [t]) \<longleftrightarrow> script = RELEASE_LUA"
| "fenced_request _ \<longleftrightarrow> False"

definition fenced_server ::
    "('w \<Rightarrow> (string \<rightharpoonup> string) \<times> (string \<Rightarrow> nat)) \<Rightarrow> conversions \<Rightarrow> 'w runtime \<Rightarrow> bool" where
  "fenced_server obs cv r \<longleftrightarrow>
     honest_runtime fenced_request (=) obs fenced_step fenced_answer r \<and>
     as_opt_string cv NilValue = Inr None \<and> as_opt_string cv OkayValue = Inr (Some ''OK'') \<and>
     (\<forall>n. as_int cv (IntValue n) = Inr n)"

abbreviation view :: "lock_world \<Rightarrow> (string \<rightharpoonup> string) \<times> (string \<Rightarrow> nat)" where
  "view w \<equiv> (lw_store w, lw_fences w)"

inductive lrun :: "nat \<Rightarrow> lock_world \<Rightarrow> lock_pc \<Rightarrow> lock_world \<Rightarrow> lock_pc \<Rightarrow> bool" for p where
  stay: "lrun p w pc w pc"
| move: "lstep p w pc w1 pc1 \<Longrightarrow> lrun p w1 pc1 w' pc' \<Longrightarrow> lrun p w pc w' pc'"

lemma lrun_step: "lstep p w pc w' pc' \<Longrightarrow> lrun p w pc w' pc'"
  by (rule lrun.move [OF _ lrun.stay])

text \<open>The first request of an acquisition.\<close>

lemma claim_run:
  assumes "fenced_server obs cv (rt env)" and "obs (world s) = view w" and "lw_drawn w p < 2 ^ 64" and "key \<noteq> []"
    and "with_pool_conn env cl (lock_set_job cv key (token_at nanos p w) ms) s = (a, s1)"
  shows "\<exists>w1 pc1. lstep p w Outside w1 pc1 \<and> obs (world s1) = view w1 \<and>
    (case a of Inr True \<Rightarrow> pc1 = Claimed key (token_at nanos p w) | _ \<Rightarrow> pc1 = Outside)"
proof -
  let ?req = "set_nx key (token_at nanos p w) ms"
  have h: "honest_runtime fenced_request (=) obs fenced_step fenced_answer (rt env)" using assms(1) by (simp add: fenced_server_def)
  have step: "fenced_step ?req (view w) = view (serve ?req (draw p w))" by (simp add: set_nx_def)
  have set_request: "fenced_request (Command ''SET'' [Text k, Text t, Text ''NX'', Text ''PX'', Number n])" for k t n by simp
  note asked = asked_once [OF h set_request assms(5) [unfolded lock_set_job_def], folded set_nx_def, unfolded assms(2) step]
  from asked consider (yes) "a = Inr True" "lock_answer ?req (lw_store w) OkayValue" "obs (world s1) = view (serve ?req (draw p w))"
    | (no) "a = Inr False" "lock_answer ?req (lw_store w) NilValue" "obs (world s1) = view (serve ?req (draw p w))"
    | (lost) e where "a = Inl e" "obs (world s1) = view w \<or> obs (world s1) = view (serve ?req (draw p w))"
    using assms(1) by (auto simp: fenced_server_def fenced_answer_def lock_answer_def set_nx_def split: if_splits)
  then show ?thesis
  proof cases
    case yes
    then show ?thesis using claim [OF assms(4,3) refl] by fastforce
  next
    case no
    then show ?thesis using contended [OF assms(3) refl] by fastforce
  next
    case lost
    have "view w = view (draw p w)" by simp
    with lost(2) have "\<exists>w1. lstep p w Outside w1 Outside \<and> obs (world s1) = view w1"
      using claim_failed [OF assms(3)] claim_unanswered [OF assms(3) refl, of key nanos ms] by metis
    with lost(1) show ?thesis by auto
  qed
qed

text \<open>The second.\<close>

lemma number_run:
  assumes "fenced_server obs cv (rt env)" and "obs (world s) = view w"
    and "with_pool_conn env cl (fence_job cv (fence_key key)) s = (f, s1)"
  shows "\<exists>w1 pc1. lstep p w (Claimed key token) w1 pc1 \<and> obs (world s1) = view w1 \<and>
    (case f of
       Inr n \<Rightarrow> 0 \<le> n \<and> pc1 = Locked \<lparr>lk_key = key, lk_token = token, lk_fence = nat n\<rparr>
     | Inl _ \<Rightarrow> pc1 = Outside)"
proof -
  have h: "honest_runtime fenced_request (=) obs fenced_step fenced_answer (rt env)" using assms(1) by (simp add: fenced_server_def)
  have step: "fenced_step (Method ''incr'' [Text (fence_key key), Number 1]) (view w) = view (number_next key w)"
    by simp
  have incr: "fenced_request (Method ''incr'' [Text k, Number 1])" for k by simp
  note asked = asked_once [OF h incr assms(3) [unfolded fence_job_def], unfolded assms(2) step]
  from asked consider (yes) "f = Inr (int (Suc (lw_fences w (fence_key key))))" "Suc (lw_fences w (fence_key key)) < 2 ^ 63"
      "obs (world s1) = view (number_next key w)"
    | (lost) e where "f = Inl e" "obs (world s1) = view w \<or> obs (world s1) = view (number_next key w)"
    using assms(1) by (auto simp: fenced_server_def fenced_answer_def)
  then show ?thesis
  proof cases
    case yes
    then show ?thesis using numbered [OF yes(2), of p token]
      by (intro exI [of _ "number_next key w"] exI) (auto simp del: of_nat_Suc)
  next
    case lost
    from lost(2) have "\<exists>w1. lstep p w (Claimed key token) w1 Outside \<and> obs (world s1) = view w1"
      using number_failed number_unanswered by blast
    with lost(1) show ?thesis by auto
  qed
qed

lemma lock_acquire_run:
  assumes "fenced_server obs cv (rt env)" and "obs (world s) = view w" and "lw_drawn w p < 2 ^ 64"
    and "lock_acquire env cv cl nanos p (of_nat (lw_drawn w p)) key ttl s = (r, s')"
  shows "\<exists>w' pc. lrun p w Outside w' pc \<and> obs (world s') = view w' \<and>
    (case r of Inr l \<Rightarrow> pc = Locked l | Inl _ \<Rightarrow> pc = Outside)"
proof -
  let ?tok = "token_at nanos p w"
  from assms(4) show ?thesis
  proof (cases rule: acquire_guards)
    case early
    then show ?thesis using assms(2) lrun.stay [of p w Outside] by (auto intro!: exI [of _ w])
  next
    case (called ms)
    obtain a s1 where a: "with_pool_conn env cl (lock_set_job cv key ?tok ms) s = (a, s1)" by force
    from claim_run [OF assms(1-3) called(1) a] obtain w1 pc1 where one: "lstep p w Outside w1 pc1" "obs (world s1) = view w1"
      "case a of Inr True \<Rightarrow> pc1 = Claimed key ?tok | _ \<Rightarrow> pc1 = Outside" by blast
    show ?thesis
    proof (cases "a = Inr True")
      case False
      then have "\<exists>e. r = Inl e" "s' = s1"
        using assms(4) called a by (auto simp: lock_acquire_def Let_def token_at_def split: sum.splits if_splits)
      moreover have "pc1 = Outside" using one(3) False by (auto split: sum.splits bool.splits)
      ultimately show ?thesis using lrun_step [OF one(1)] one(2) by auto
    next
      case True
      obtain f s2 where f: "with_pool_conn env cl (fence_job cv (fence_key key)) s1 = (f, s2)" by force
      from number_run [OF assms(1) one(2) f] obtain w2 pc2 where two: "lstep p w1 (Claimed key ?tok) w2 pc2"
        "obs (world s2) = view w2"
        "case f of Inr n \<Rightarrow> 0 \<le> n \<and> pc2 = Locked \<lparr>lk_key = key, lk_token = ?tok, lk_fence = nat n\<rparr> | Inl _ \<Rightarrow> pc2 = Outside"
        by blast
      have "s' = s2 \<and> (case f of
          Inr n \<Rightarrow> r = Inr \<lparr>lk_key = key, lk_token = ?tok, lk_fence = nat n\<rparr> | Inl e \<Rightarrow> r = Inl e)"
        using assms(4) called a f True two(3)
        by (auto simp: lock_acquire_def Let_def token_at_def fence_key_def split: sum.splits if_splits)
      moreover have "lrun p w Outside w2 pc2"
        using lrun.move [OF one(1)] lrun_step [OF two(1)] one(3) True by auto
      ultimately show ?thesis using two by (intro exI [of _ w2] exI [of _ pc2]) (auto split: sum.splits)
    qed
  qed
qed

lemma lock_release_run:
  assumes "fenced_server obs cv (rt env)" and "obs (world s) = view w" and "lock_release env cl l s = (b, s')"
  shows "\<exists>w' pc. lstep p w (Locked l) w' pc \<and> obs (world s') = view w' \<and>
    (case b of Inr _ \<Rightarrow> pc = Outside | Inl _ \<Rightarrow> pc = Locked l)"
proof -
  let ?req = "Invoke RELEASE_LUA [lk_key l] [lk_token l]"
  obtain v s1 where c: "with_pool_conn env cl (script_job RELEASE_LUA [lk_key l] [lk_token l]) s = (v, s1)" by force
  then have b: "b = and_then v (\<lambda>v. map_ok (\<lambda>n. 0 < n) (redis_value_as_i64 v))" "s' = s1"
    using assms(3) script_not_blank by (auto simp: lock_release_def eval_script_def positive_reply_def)
  have h: "honest_runtime fenced_request (=) obs fenced_step fenced_answer (rt env)" using assms(1) by (simp add: fenced_server_def)
  have step: "fenced_step ?req (view w) = view (serve ?req w)" by simp
  have script: "fenced_request (Invoke RELEASE_LUA [k] [t])" for k t by simp
  from asked_once [OF h script c [unfolded script_job_def], unfolded assms(2) step] b
  consider "\<exists>held. b = Inr held" "obs (world s') = view (serve ?req w)"
    | "\<exists>e. b = Inl e" "obs (world s') = view w \<or> obs (world s') = view (serve ?req w)"
    by (auto simp: as_value_def fenced_answer_def lock_answer_def)
  then show ?thesis
  proof cases
    case 1
    then show ?thesis using release [of p w l] by (intro exI [of _ "serve ?req w"]) auto
  next
    case 2
    then have "\<exists>w'. lstep p w (Locked l) w' (Locked l) \<and> obs (world s') = view w'"
      using release_failed release_unanswered by blast
    with 2(1) show ?thesis by auto
  qed
qed

section \<open>Properties\<close>

text \<open>
  C18. The calls of the library are runs of the interleaved model: against a server with lock keys and
  fence counters, \<open>lock_acquire\<close> takes at most its two requests' steps, ends with its lock exactly when
  it returns one, and outside otherwise; \<open>lock_release\<close> is one step of the holder.
\<close>

theorem lock_calls_are_runs:
  assumes "fenced_server obs cv (rt env)" and "obs (world s) = view w" and "lw_drawn w p < 2 ^ 64"
  shows "(lock_acquire env cv cl nanos p (of_nat (lw_drawn w p)) key ttl s = (r, s') \<longrightarrow>
      (\<exists>w' pc. lrun p w Outside w' pc \<and> obs (world s') = view w' \<and>
         (case r of Inr l \<Rightarrow> pc = Locked l | Inl _ \<Rightarrow> pc = Outside))) \<and>
    (lock_release env cl l s = (b, s') \<longrightarrow>
      (\<exists>w' pc. lstep p w (Locked l) w' pc \<and> obs (world s') = view w' \<and>
         (case b of Inr _ \<Rightarrow> pc = Outside | Inl _ \<Rightarrow> pc = Locked l)))"
  using lock_acquire_run [OF assms] lock_release_run [OF assms(1,2)] by blast

text \<open>A server that does as it should, over the bare stores.\<close>

fun lock_reply :: "request \<Rightarrow> (string \<rightharpoonup> string) \<Rightarrow> reply_value" where
  "lock_reply (Command _ [Text k, Text _, Text _, Text _, Number _]) m = (if m k = None then OkayValue else NilValue)"
| "lock_reply (Invoke _ [k] [t]) m = IntValue (if m k = Some t then 1 else 0)"
| "lock_reply _ m = IntValue 1"

fun fenced_reply :: "request \<Rightarrow> (string \<rightharpoonup> string) \<times> (string \<Rightarrow> nat) \<Rightarrow> driver_error + reply_value" where
  "fenced_reply (Method _ [Text k, Number _]) mf =
     (if Suc (snd mf k) < 2 ^ 63 then Inr (IntValue (int (Suc (snd mf k)))) else Inl bad_reply)"
| "fenced_reply req mf = Inr (lock_reply req (fst mf))"

definition fenced_env :: "((string \<rightharpoonup> string) \<times> (string \<Rightarrow> nat)) env" where
  "fenced_env =
     \<lparr>rt = \<lparr>rt_now = (\<lambda>m. (0, m)), rt_sleep = (\<lambda>_ m. m), rt_acquire = (\<lambda>_ m. (Permit, m)), rt_release = (\<lambda>m. m),
        rt_manager = (\<lambda>_ req budget m. (Some (fenced_reply req m, budget), fenced_step req m)),
        rt_cluster = (\<lambda>_ req budget m. (Some (fenced_reply req m, budget), fenced_step req m))\<rparr>,
      others = (\<lambda>_ p. p)\<rparr>"

lemma fenced_env_server: "fenced_server (\<lambda>m. m) sample_conversions (rt fenced_env)"
  by (auto simp: fenced_server_def honest_runtime_def fenced_env_def inert_iff [unfolded inert_def] honest_def fenced_answer_def
      lock_answer_def sample_conversions_def split: sum.splits if_splits)

theorem lock_calls_are_runs_witness:
  "\<exists>r s' w' pc. lock_acquire fenced_env sample_conversions from_pool (Some 9) 7 0 ''job'' (from_secs 5)
      \<lparr>world = (Map.empty, \<lambda>_. 0), pool = sample_pool\<rparr> = (r, s') \<and>
    lrun 7 \<lparr>lw_store = Map.empty, lw_fences = (\<lambda>_. 0), lw_drawn = (\<lambda>_. 0)\<rparr> Outside w' pc \<and> world s' = view w' \<and>
    (case r of Inr l \<Rightarrow> pc = Locked l | Inl _ \<Rightarrow> pc = Outside)"
proof -
  let ?s = "\<lparr>world = (Map.empty :: string \<rightharpoonup> string, \<lambda>_ :: string. 0 :: nat), pool = sample_pool\<rparr>"
  obtain r s' where run: "lock_acquire fenced_env sample_conversions from_pool (Some 9) 7 0 ''job'' (from_secs 5) ?s = (r, s')"
    by force
  with lock_calls_are_runs [OF fenced_env_server, of ?s "\<lparr>lw_store = Map.empty, lw_fences = (\<lambda>_. 0), lw_drawn = (\<lambda>_. 0)\<rparr>" 7
      from_pool "Some 9" "''job''" "from_secs 5" r s']
  show ?thesis by fastforce
qed

text \<open>
  C10. Fences order the owners of a lock. Two calls never get the same token for a key nor the same fence, so
  at most one of two locks of one key is the stored one; and as long as no lock lapses, the lock that
  is stored has a larger fence than every other lock of its key that was handed out.
\<close>

theorem fences_order_owners:
  assumes "locking_reach pid lapses (w, ts)" and "t \<noteq> u" and "ts t = Locked l" and "ts u = Locked l'"
    and "lk_key l = lk_key l'"
  shows "lk_token l \<noteq> lk_token l' \<and> lk_fence l \<noteq> lk_fence l' \<and>
    (\<not> lapses \<longrightarrow> lw_store w (lk_key l) = Some (lk_token l) \<longrightarrow> lk_fence l' < lk_fence l)"
proof -
  have once: "once_only pid (w, ts)" by (rule handed_out.invariant [OF assms(1)])
  then have "apart (ts t) (ts u)" "fence_fits w (ts u)" using assms(2) by (auto simp: once_only_def)
  then have differ: "lk_token l \<noteq> lk_token l'" "lk_fence l \<noteq> lk_fence l'"
    and "lk_fence l' \<le> lw_fences w (fence_key (lk_key l))"
    using assms(3-5) by (auto simp: apart_def fence_fits_def)
  moreover have "lk_fence l = lw_fences w (fence_key (lk_key l))"
    if "\<not> lapses" "lw_store w (lk_key l) = Some (lk_token l)"
  proof -
    have "owners_ahead pid (w, ts)" using ahead.invariant assms(1) that(1) by simp
    then have "owned w (ts t)" by (simp add: owners_ahead_def)
    with assms(3) that(2) show ?thesis by (simp add: owned_def)
  qed
  ultimately show ?thesis by fastforce
qed

text \<open>Steps of the two runs below, all in one process.\<close>

lemma one_more:
  "locking_reach pid lapses (w, ts) \<Longrightarrow> lstep (pid t) w (ts t) w' pc \<Longrightarrow> locking_reach pid lapses (w', ts(t := pc))"
  by (rule reach.more) (auto intro: locking_step.call)

lemma run_claim:
  assumes "locking_reach (\<lambda>_. 7) lapses (w, ts)" and "ts t = Outside" and "lw_store w ''k'' = None" and "lw_drawn w 7 < 2 ^ 64"
  shows "\<exists>w' x. locking_reach (\<lambda>_. 7) lapses (w', ts(t := Claimed ''k'' x)) \<and> lw_store w' ''k'' = Some x \<and>
    lw_fences w' = lw_fences w \<and> lw_drawn w' 7 = Suc (lw_drawn w 7)"
proof -
  have "lock_answer (set_nx ''k'' (token_at None 7 w) 1) (lw_store w) OkayValue"
    using assms(3) by (simp add: lock_answer_def set_nx_def)
  from claim [OF _ assms(4) refl this] have
    "lstep 7 w (ts t) (serve (set_nx ''k'' (token_at None 7 w) 1) (draw 7 w)) (Claimed ''k'' (token_at None 7 w))"
    using assms(2) by simp
  from one_more [OF assms(1), of t, OF this] show ?thesis
    using assms(3) by (force simp: set_nx_def)
qed

lemma run_number:
  assumes "locking_reach (\<lambda>_. 7) lapses (w, ts)" and "ts t = Claimed ''k'' x" and "Suc (lw_fences w (fence_key ''k'')) < 2 ^ 63"
  shows "locking_reach (\<lambda>_. 7) lapses (number_next ''k'' w,
    ts(t := Locked \<lparr>lk_key = ''k'', lk_token = x, lk_fence = Suc (lw_fences w (fence_key ''k''))\<rparr>))"
  by (rule one_more [OF assms(1)]) (use numbered [OF assms(3), of 7 x] assms(2) in simp)

lemma run_start:
  "\<exists>w ts x. locking_reach (\<lambda>_. 7) lapses (w, ts) \<and> ts = (\<lambda>_. Outside)(0 := Claimed ''k'' x) \<and> lw_store w ''k'' = Some x \<and>
     lw_fences w = (\<lambda>_. 0) \<and> lw_drawn w 7 = 1"
proof -
  have "locking_reach (\<lambda>_. 7) lapses (\<lparr>lw_store = Map.empty, lw_fences = (\<lambda>_. 0), lw_drawn = (\<lambda>_. 0)\<rparr>, \<lambda>_. Outside)"
    by (rule reach.base) (simp add: locking_init_def)
  from run_claim [OF this, of 0] obtain w x where "locking_reach (\<lambda>_. 7) lapses (w, (\<lambda>_. Outside)(0 := Claimed ''k'' x))"
    "lw_store w ''k'' = Some x" "lw_fences w = (\<lambda>_. 0)" "lw_drawn w 7 = 1" by auto
  then show ?thesis by blast
qed

lemma handover:
  "\<exists>w ts l l'. locking_reach (\<lambda>_. 7) False (w, ts) \<and> ts 0 = Locked l \<and> ts 1 = Locked l' \<and>
     lk_key l = ''k'' \<and> lk_key l' = ''k'' \<and> lw_store w ''k'' = Some (lk_token l')"
proof -
  let ?r = "locking_reach (\<lambda>_. 7) False"
  obtain w1 ts1 x where 1: "?r (w1, ts1)" "ts1 = (\<lambda>_. Outside)(0 := Claimed ''k'' x)" "lw_store w1 ''k'' = Some x"
    "lw_fences w1 = (\<lambda>_. 0)" "lw_drawn w1 7 = 1" using run_start by metis
  let ?l = "\<lparr>lk_key = ''k'', lk_token = x, lk_fence = 1\<rparr>"
  have 2: "?r (number_next ''k'' w1, ts1(0 := Locked ?l))"
    using run_number [OF 1(1), of 0] 1 by simp
  have 3: "?r (serve (Invoke RELEASE_LUA [''k''] [x]) (number_next ''k'' w1), ts1(0 := Locked ?l))"
    using one_more [OF 2, of 0 "serve (Invoke RELEASE_LUA [''k''] [x]) (number_next ''k'' w1)" "Locked ?l"]
      release_unanswered [of 7 "number_next ''k'' w1" ?l] by simp
  obtain w4 y where 4: "?r (w4, ts1(0 := Locked ?l, 1 := Claimed ''k'' y))" "lw_store w4 ''k'' = Some y"
    "lw_fences w4 (fence_key ''k'') = 1"
    using run_claim [OF 3, of 1] 1 by auto
  let ?l' = "\<lparr>lk_key = ''k'', lk_token = y, lk_fence = Suc 1\<rparr>"
  have "?r (number_next ''k'' w4, ts1(0 := Locked ?l, 1 := Locked ?l'))"
    using run_number [OF 4(1), of 1 y] 4(3) by simp
  with 4(2) show ?thesis
    by (intro exI [of _ "number_next ''k'' w4"] exI [of _ "ts1(0 := Locked ?l, 1 := Locked ?l')"]
        exI [of _ ?l] exI [of _ ?l']) simp
qed

lemma overtaken:
  "\<exists>w ts l l'. locking_reach (\<lambda>_. 7) True (w, ts) \<and> ts 0 = Locked l \<and> ts 1 = Locked l' \<and>
     lk_key l = ''k'' \<and> lk_key l' = ''k'' \<and> lw_store w ''k'' = Some (lk_token l') \<and> lk_fence l' < lk_fence l"
proof -
  let ?r = "locking_reach (\<lambda>_. 7) True"
  obtain w1 ts1 x where 1: "?r (w1, ts1)" "ts1 = (\<lambda>_. Outside)(0 := Claimed ''k'' x)" "lw_store w1 ''k'' = Some x"
    "lw_fences w1 = (\<lambda>_. 0)" "lw_drawn w1 7 = 1" using run_start by metis
  have 2: "?r (w1\<lparr>lw_store := (lw_store w1)(''k'' := None)\<rparr>, ts1)"
    by (rule reach.more [OF 1(1)]) (simp add: locking_step.lapse)
  obtain w3 y where 3: "?r (w3, ts1(1 := Claimed ''k'' y))" "lw_store w3 ''k'' = Some y" "lw_fences w3 = (\<lambda>_. 0)"
    using run_claim [OF 2, of 1] 1 by auto
  let ?l' = "\<lparr>lk_key = ''k'', lk_token = y, lk_fence = 1\<rparr>"
  have 4: "?r (number_next ''k'' w3, ts1(1 := Locked ?l'))"
    using run_number [OF 3(1), of 1 y] 3 by simp
  let ?l = "\<lparr>lk_key = ''k'', lk_token = x, lk_fence = Suc 1\<rparr>"
  have "?r (number_next ''k'' (number_next ''k'' w3), ts1(1 := Locked ?l', 0 := Locked ?l))"
    using run_number [OF 4, of 0 x] 1(2) 3(3) by simp
  with 3(2) show ?thesis
    by (intro exI [of _ "number_next ''k'' (number_next ''k'' w3)"] exI [of _ "ts1(1 := Locked ?l', 0 := Locked ?l)"]
        exI [of _ ?l] exI [of _ ?l']) simp
qed

theorem fences_order_owners_witness:
  "\<exists>w ts l l'. locking_reach (\<lambda>_. 7) False (w, ts) \<and> ts 0 = Locked l \<and> ts 1 = Locked l' \<and>
     lk_token l \<noteq> lk_token l' \<and> lk_fence l < lk_fence l'"
proof -
  obtain w ts l l' where run: "locking_reach (\<lambda>_. 7) False (w, ts)" "ts 0 = Locked l" "ts 1 = Locked l'"
    "lk_key l = ''k''" "lk_key l' = ''k''" "lw_store w ''k'' = Some (lk_token l')" using handover by blast
  from fences_order_owners [OF run(1) _ run(3,2)] run show ?thesis by fastforce
qed

text \<open>
  C24. A fence can overtake. When a lock lapses between the two requests of an acquisition, another
  call can acquire it and get its fence first: the call that has lost the lock then comes back with
  the larger fence, and the stored lock has the smaller one.
\<close>

theorem stale_fence_overtakes:
  "\<exists>w ts l l'. locking_reach (\<lambda>_. 7) True (w, ts) \<and> ts 0 = Locked l \<and> ts 1 = Locked l' \<and>
     lk_key l = lk_key l' \<and> lw_store w (lk_key l) = Some (lk_token l') \<and> lk_token l \<noteq> lk_token l' \<and>
     lk_fence l' < lk_fence l"
proof -
  obtain w ts l l' where run: "locking_reach (\<lambda>_. 7) True (w, ts)" "ts 0 = Locked l" "ts 1 = Locked l'"
    "lk_key l = ''k''" "lk_key l' = ''k''" "lw_store w ''k'' = Some (lk_token l')" "lk_fence l' < lk_fence l"
    using overtaken by blast
  have "apart (ts 0) (ts 1)" using handed_out.invariant [OF run(1)] by (simp add: once_only_def)
  with run have "lk_token l \<noteq> lk_token l'" by (simp add: apart_def)
  with run show ?thesis by (intro exI [of _ w] exI [of _ ts] exI [of _ l] exI [of _ l']) simp
qed

end
