(* ===== verification/Blocking.thy ===== *)
theory Blocking
  imports Streams Connect
begin

text \<open>
  Blocking commands (\<open>src/structures.rs\<close>, \<open>src/streams.rs\<close>) on the connections that
  \<open>src/pool/backend.rs\<close> and \<open>src/pool/connect.rs\<close> set up: the budget of the call is stretched to the block,
  the response time-out given to the driver is not.
\<close>

section \<open>The driver's response time-out\<close>

text \<open>The time a request asks the server to block.\<close>

fun asked_block :: "request \<Rightarrow> duration option" where
  "asked_block (Command name (Text word # Number n # args)) =
     (if name = ''BLPOP'' \<and> args = [] then Some (from_secs (nat n))
      else if name = ''XREAD'' \<and> word = ''BLOCK'' then Some (from_millis (nat n))
      else None)"
| "asked_block _ = None"

text \<open>
  A connection with response time-out \<open>d\<close>, on a server that has nothing to deliver: a request that
  blocks for longer is not answered any more, it fails or is given up.
\<close>

definition cut_off :: "duration \<Rightarrow> 'w exchange \<Rightarrow> bool" where
  "cut_off d x \<longleftrightarrow>
     (\<forall>req block budget w v left w'. asked_block req = Some block \<and> d < block \<longrightarrow>
        x req budget w \<noteq> (Some (Inr v, left), w'))"

lemma run_cut_off:
  assumes "\<And>conn. cut_off d (backend_send (rt env) conn)" and "asked_block req = Some block" and "d < block"
    and "run env b (ask conv req k) s = (r, s')"
  shows "\<exists>e. r = Inl e"
proof -
  have "drifts (=) (\<lambda>_. ()) (rt env)" by (simp add: drifts_def)
  from run_ran [OF this assms(4)] consider "\<exists>e. r = Inl e"
    | conn budget w m w' where "run_job (rt env) conn (ask conv req k) budget w = (m, w')" "m = Some r"
    unfolding ran_once_def by blast
  then show ?thesis
  proof cases
    case (2 conn budget w m w')
    obtain a w1 where x: "backend_send (rt env) conn req budget w = (a, w1)" by force
    then have "a \<noteq> Some (Inr v, left)" for v left using assms(1-3) by (auto simp: cut_off_def)
    then consider "a = None" | e left where "a = Some (Inl e, left)"
      by (cases a) (auto, metis sumE)
    then show ?thesis using x 2 by cases (auto simp: ask_def map_redis_result_def)
  qed
qed

section \<open>Properties\<close>

text \<open>
  C39. Blocks longer than the command timeout are cut off. A connection is made with the command timeout as
  its response time-out, in every topology; the budgets of \<open>BLPOP\<close> and \<open>XREAD BLOCK\<close> exceed the block, but
  if the block exceeds the command timeout and nothing arrives, the call returns an error, never the
  documented empty result.
\<close>

theorem long_blocks_are_cut_off:
  assumes "\<And>conn. cut_off (mc_response_timeout (connection_manager_config c)) (backend_send (rt env) conn)"
    and "p_command_timeout (pool s) = c_command_timeout c"
  shows "(c_command_timeout c < from_secs (blpop_seconds timeout) \<and> timeout + 1000000000 \<le> dur_max \<longrightarrow>
      (\<exists>budget e s'. blocking_budget (pool s) timeout = Some budget \<and> from_secs (blpop_seconds timeout) \<le> budget \<and>
         blpop env cv key timeout s = Some (Inl e, s'))) \<and>
    (c_command_timeout c < from_millis (block_millis block) \<and> block + 1000000000 \<le> dur_max \<longrightarrow>
      (\<exists>budget e s'. blocking_budget (pool s) block = Some budget \<and> from_millis (block_millis block) \<le> budget \<and>
         xread_block env cv key last_id block count s = Some (Inl e, s'))) \<and>
    (cluster_settings uenv c = Inr settings \<longrightarrow> cp_response_timeout settings = c_command_timeout c)"
proof (intro conjI impI)
  have d: "mc_response_timeout (connection_manager_config c) = c_command_timeout c"
    by (simp add: connection_manager_config_def)
  note cut = run_cut_off [OF assms(1) [unfolded d]]
  show "\<exists>budget e s'. blocking_budget (pool s) timeout = Some budget \<and> from_secs (blpop_seconds timeout) \<le> budget \<and>
         blpop env cv key timeout s = Some (Inl e, s')"
    if "c_command_timeout c < from_secs (blpop_seconds timeout) \<and> timeout + 1000000000 \<le> dur_max"
  proof -
    let ?b = "max (p_command_timeout (pool s)) (timeout + 1000000000)"
    have b: "blocking_budget (pool s) timeout = Some ?b" "from_secs (blpop_seconds timeout) \<le> ?b"
      using blpop_seconds_le [of timeout] that by (simp_all add: blocking_budget_Some le_max_iff_disj)
    obtain r s' where run: "run env (Some ?b) (blpop_job cv key timeout) s = (r, s')" by force
    have "\<exists>e. r = Inl e"
      by (rule cut [OF _ that [THEN conjunct1] run [unfolded blpop_job_def]]) simp
    with b run show ?thesis by (auto simp: blpop_def with_conn_budget_def)
  qed
  show "\<exists>budget e s'. blocking_budget (pool s) block = Some budget \<and> from_millis (block_millis block) \<le> budget \<and>
         xread_block env cv key last_id block count s = Some (Inl e, s')"
    if "c_command_timeout c < from_millis (block_millis block) \<and> block + 1000000000 \<le> dur_max"
  proof -
    let ?b = "max (p_command_timeout (pool s)) (block + 1000000000)"
    have b: "blocking_budget (pool s) block = Some ?b" "from_millis (block_millis block) \<le> ?b"
      using block_millis_le [of block] that by (simp_all add: blocking_budget_Some le_max_iff_disj)
    obtain r s' where run: "run env (Some ?b) (xread_block_job cv key last_id block count) s = (r, s')" by force
    have "\<exists>e. r = Inl e"
      by (rule cut [OF _ that [THEN conjunct1] run [unfolded xread_block_job_def parse_xread_single_def]]) simp
    with b run show ?thesis by (auto simp: xread_block_def with_conn_budget_def)
  qed
  show "cp_response_timeout settings = c_command_timeout c" if "cluster_settings uenv c = Inr settings"
    using that by (auto simp: cluster_settings_def map_ok_eq_Inr)
qed

text \<open>A server on which nothing ever arrives, behind connections that give up after 3 seconds.\<close>

definition quiet_exchange :: "unit exchange" where
  "quiet_exchange req budget w =
     (Some (case asked_block req of
              Some block \<Rightarrow> if from_secs 3 < block then Inl \<lparr>kind = IoError, shown = ''timed out''\<rparr> else Inr NilValue
            | None \<Rightarrow> Inr NilValue, budget), w)"

definition quiet_env :: "unit env" where
  "quiet_env =
     \<lparr>rt = \<lparr>rt_now = (\<lambda>w. (0, w)), rt_sleep = (\<lambda>_ w. w), rt_acquire = (\<lambda>_ w. (Permit, w)), rt_release = (\<lambda>w. w),
        rt_manager = (\<lambda>_. quiet_exchange), rt_cluster = (\<lambda>_. quiet_exchange)\<rparr>,
      others = (\<lambda>_ p. p)\<rparr>"

lemma quiet_env_cut_off: "cut_off (from_secs 3) (backend_send (rt quiet_env) conn)"
  by (cases conn) (auto simp: cut_off_def quiet_env_def quiet_exchange_def)

theorem long_blocks_are_cut_off_witness:
  "\<exists>e s'. blpop quiet_env sample_conversions ''q'' (c_blocking_timeout default_config) \<lparr>world = (), pool = sample_pool\<rparr>
     = Some (Inl e, s')"
proof -
  let ?s = "\<lparr>world = (), pool = sample_pool\<rparr>"
  have d: "c_command_timeout default_config = from_secs 3" "c_blocking_timeout default_config = from_secs 5"
    by (simp_all add: default_config_def)
  have cut: "cut_off (mc_response_timeout (connection_manager_config default_config)) (backend_send (rt quiet_env) conn)" for conn
    using quiet_env_cut_off by (simp add: connection_manager_config_def d)
  have "p_command_timeout (pool ?s) = c_command_timeout default_config"
    by (simp add: sample_pool_def d from_secs_def)
  from long_blocks_are_cut_off [OF cut this, THEN conjunct1, of "c_blocking_timeout default_config"]
  show ?thesis by (auto simp: d from_secs_def blpop_seconds_def as_secs_def max_def)
qed

end
