(* ===== verification/Requests.thy ===== *)
theory Requests
  imports Streams Transaction Ext
begin

text \<open>
  What reaches the server, and how often: the backend keeps a list of the requests it was handed, and
  every operation of the library is compared with it. A write is handed over at most once, whatever
  the retry policy; a read that is retried hands over copies of one request.
\<close>

section \<open>A backend that keeps a record\<close>

definition records :: "('w \<Rightarrow> request list) \<Rightarrow> 'w exchange \<Rightarrow> bool" where
  "records seen x \<longleftrightarrow> (\<forall>req budget w m w'. x req budget w = (m, w') \<longrightarrow> seen w' = seen w @ [req])"

definition recorder :: "('w \<Rightarrow> request list) \<Rightarrow> 'w runtime \<Rightarrow> bool" where
  "recorder seen r \<longleftrightarrow>
     inert seen r \<and> (\<forall>h. records seen (rt_manager r h)) \<and> (\<forall>h. records seen (rt_cluster r h))"

text \<open>The requests were handed over once, or not at all and the call failed.\<close>

definition sends_once :: "request list \<Rightarrow> 'a res \<Rightarrow> request list \<Rightarrow> request list \<Rightarrow> bool" where
  "sends_once reqs r before after \<longleftrightarrow> after = before @ reqs \<or> (\<exists>e. r = Inl e) \<and> after = before"

definition sends_upto :: "nat \<Rightarrow> request list \<Rightarrow> request list \<Rightarrow> request list \<Rightarrow> bool" where
  "sends_upto n reqs before after \<longleftrightarrow> (\<exists>k \<le> n. after = before @ concat (replicate k reqs))"

lemma sends_upto_0 [simp]: "sends_upto n reqs before before"
  by (auto simp: sends_upto_def intro: exI [of _ 0])

lemma sends_once_upto: "sends_once reqs r before after \<Longrightarrow> sends_upto 1 reqs before after"
  by (auto simp: sends_once_def sends_upto_def intro: exI [of _ 0] exI [of _ 1])

lemma sends_upto_more:
  assumes "sends_upto n reqs before mid" and "sends_upto 1 reqs mid after"
  shows "sends_upto (Suc n) reqs before after"
proof -
  obtain k where k: "k \<le> n" "mid = before @ concat (replicate k reqs)" using assms(1) by (auto simp: sends_upto_def)
  obtain j where j: "j \<le> 1" "after = mid @ concat (replicate j reqs)" using assms(2) by (auto simp: sends_upto_def)
  have "after = before @ concat (replicate (k + j) reqs)" using k(2) j(2) by (simp add: replicate_add)
  with k(1) j(1) show ?thesis unfolding sends_upto_def by (intro exI [of _ "k + j"]) simp
qed

lemma sends_upto_mono: "sends_upto n reqs before after \<Longrightarrow> n \<le> k \<Longrightarrow> sends_upto k reqs before after"
  unfolding sends_upto_def using le_trans by blast

section \<open>Single calls\<close>

lemma recorder_inert: "recorder seen r \<Longrightarrow> inert seen r" "recorder seen r \<Longrightarrow> drifts (=) seen r"
  by (simp_all add: recorder_def inert_def)

lemma recorder_backend: "recorder seen r \<Longrightarrow> records seen (backend_send r conn)"
  by (cases conn) (simp_all add: recorder_def)

lemma ran_sends:
  assumes "recorder seen (rt env)" and "single_query job" and "ran_once (=) seen env job s r s'"
  shows "sends_once (sent job []) r (seen (world s)) (seen (world s'))"
proof -
  from assms(3) consider "\<exists>e. r = Inl e" "seen (world s') = seen (world s)"
    | conn budget w1 m w2 where "seen w1 = seen (world s)" "run_job (rt env) conn job budget w1 = (m, w2)"
        "seen (world s') = seen w2"
    unfolding ran_once_def by metis
  then show ?thesis
  proof cases
    case (2 conn budget w1 m w2)
    show ?thesis
    proof (cases job)
      case (Done x)
      with 2 show ?thesis by (simp add: sends_once_def)
    next
      case (Query req k)
      obtain a w3 where x: "backend_send (rt env) conn req budget w1 = (a, w3)" by force
      then have "seen w3 = seen w1 @ [req]" using recorder_backend [OF assms(1)] by (auto simp: records_def)
      moreover have "w2 = w3"
      proof (cases a)
        case (Some rl)
        obtain d where "k (fst rl) = Done d" using assms(2) Query by auto
        with Some x 2(2) Query show ?thesis by (cases rl) simp
      qed (use x 2(2) Query in simp)
      ultimately show ?thesis using 2 Query by (simp add: sends_once_def)
    qed
  qed (simp add: sends_once_def)
qed

lemma call_sends:
  assumes "recorder seen (rt env)" and "single_query job" and "with_pool_conn env cl job s = (r, s')"
  shows "sends_once (sent job []) r (seen (world s)) (seen (world s'))"
  using ran_sends [OF assms(1,2) with_pool_conn_ran [OF recorder_inert(2) [OF assms(1)] assms(3)]] .

lemma budget_call_sends:
  assumes "recorder seen (rt env)" and "single_query job" and "with_conn_budget env b job s = (r, s')"
  shows "sends_once (sent job []) r (seen (world s)) (seen (world s'))"
proof -
  from assms(3) have "run env (Some b) job s = (r, s')" by (simp add: with_conn_budget_def)
  from ran_sends [OF assms(1,2) run_ran [OF recorder_inert(2) [OF assms(1)] this]] show ?thesis .
qed

section \<open>Retried calls\<close>

definition attempts :: "client \<Rightarrow> nat" where
  "attempts cl = (case cl_retry cl of None \<Rightarrow> 1 | Some c \<Rightarrow> unat (rc_max_attempts c))"

lemma routed_sends:
  fixes seen :: "'w \<Rightarrow> request list"
  assumes rec: "recorder seen (rt env)" and "\<forall>c. cl_retry cl = Some c \<longrightarrow> 1 \<le> rc_max_attempts c"
    and once: "\<And>u r u'. f u = (r, u') \<Longrightarrow> sends_upto 1 reqs (seen (world u)) (seen (world u'))"
    and run: "route_with_safety env cl safety name f s = Some (r, s')"
  shows "sends_upto (attempts cl) reqs (seen (world s)) (seen (world s'))"
proof -
  have loop: "sends_upto (unat (rc_max_attempts c)) reqs (seen (world s)) (seen (world s'))"
    if run_c: "with_retry (read_clock env) (sleep_await env) c name f s = Some (r, s')"
      and at_least: "1 \<le> rc_max_attempts c" for c
  proof -
    define I where "I n u = sends_upto n reqs (seen (world s)) (seen (world u))" for n and u :: "'w sys"
    note inert = recorder_inert(1) [OF rec]
    have step: "I (Suc n) (snd (f u))" if "I n u" for n u
      using that once [of u "fst (f u)" "snd (f u)"] sends_upto_more unfolding I_def by simp
    have read: "I n (snd (read_clock env u))" if "I n u" for n u
      using that obs_read_clock [OF inert surjective_pairing, of u] by (simp add: I_def)
    have wait: "I n (sleep_await env d u)" if "I n u" for n d u
      using that obs_sleep [OF inert, of d u] by (simp add: I_def)
    obtain t u where c: "read_clock env s = (t, u)" by force
    have "I 0 u" using read [of 0 s] c by (simp add: I_def)
    moreover have "retry_loop (read_clock env) (sleep_await env) c name f t 0 u = Some (r, s')"
      using run_c c by (simp add: with_retry_def)
    ultimately obtain n where "n \<le> unat (rc_max_attempts c)" "I n s'"
      using retry_loop_counts [of I f "read_clock env" "sleep_await env", OF step read wait _ one_le_pos [OF at_least]]
      by fastforce
    then show ?thesis unfolding I_def by (auto intro: sends_upto_mono)
  qed
  show ?thesis
  proof (cases "cl_retry cl")
    case None
    with run once show ?thesis by (simp add: route_with_safety_def attempts_def)
  next
    case (Some c)
    then have c: "1 \<le> rc_max_attempts c" using assms(2) by simp
    then have one: "1 \<le> unat (rc_max_attempts c)" using one_le_pos [OF c] by (simp add: word_less_nat_alt)
    show ?thesis
    proof (cases "safety = ReadOnly \<or> safety = Idempotent")
      case True
      with Some c run loop show ?thesis by (simp add: route_with_safety_def attempts_def)
    next
      case False
      with Some run have "f s = (r, s')" by (simp add: route_with_safety_def)
      from once [OF this] one Some show ?thesis by (auto simp: attempts_def intro: sends_upto_mono)
    qed
  qed
qed

section \<open>Properties\<close>

lemmas body_defs = hset_job_def hget_job_def hdel_job_def lpush_job_def rpush_job_def lpop_job_def blpop_job_def
  sadd_job_def srem_job_def zadd_job_def zrem_job_def xadd_job_def xdel_job_def xack_job_def mset_job_def mget_job_def
  multi_job_def pipeline_job_def script_job_def eval_sha_job_def xread_block_job_def parse_xread_single_def

lemma body_single_query:
  "single_query (hset_job cv key f v)" "single_query (hdel_job cv key fs)" "single_query (lpush_job cv key v)"
  "single_query (rpush_job cv key v)" "single_query (lpop_job cv key)" "single_query (blpop_job cv key d)"
  "single_query (sadd_job cv key v)" "single_query (srem_job cv key v)" "single_query (zadd_job cv key v x)"
  "single_query (zrem_job cv key v)" "single_query (xadd_job cv key sid fds)" "single_query (xdel_job cv key ids)"
  "single_query (xack_job cv key grp ids)" "single_query (mset_job cv items)" "single_query (mget_job cv keys)"
  "single_query (multi_job cv cmds)" "single_query (pipeline_job cv ms items)" "single_query (script_job script keys args)"
  "single_query (eval_sha_job sha keys args)"
  by (simp_all add: body_defs)

lemma failed_sends [simp]: "sends_once reqs (Inl e) before before"
  by (simp add: sends_once_def)

lemma sends_once_map_ok: "sends_once reqs (map_ok f r) before after \<longleftrightarrow> sends_once reqs r before after"
  by (cases r) (auto simp: sends_once_def)

lemma key_writes_sent:
  assumes "recorder seen (rt env)"
  shows "client_set env cv cl key v s = Some (r1, s') \<Longrightarrow> sends_once (sent (kv_set cv key v) []) r1 (seen (world s)) (seen (world s'))"
    and "client_set_ex env cv cl key v ttl s = Some (r1, s') \<Longrightarrow> sends_once (sent (kv_set_ex cv key v ttl) []) r1 (seen (world s)) (seen (world s'))"
    and "client_del env cv cl key s = Some (r2, s') \<Longrightarrow> sends_once (sent (kv_del cv key) []) r2 (seen (world s)) (seen (world s'))"
    and "client_incr env cv cl key d s = Some (r3, s') \<Longrightarrow> sends_once (sent (kv_incr cv key d) []) r3 (seen (world s)) (seen (world s'))"
    and "client_expire env cv cl key ttl s = Some (r2, s') \<Longrightarrow> sends_once (sent (kv_expire cv key ttl) []) r2 (seen (world s)) (seen (world s'))"
    and "client_mset env cv cl items s = Some (r1, s') \<and> items \<noteq> [] \<Longrightarrow> sends_once (sent (mset_job cv items) []) r1 (seen (world s)) (seen (world s'))"
  using call_sends [OF assms kv_single_query(2), of cl cv key v s r1 s'] call_sends [OF assms kv_single_query(3), of cl cv key v ttl s r1 s']
    call_sends [OF assms kv_single_query(4), of cl cv key s r2 s'] call_sends [OF assms kv_single_query(6), of cl cv key d s r3 s']
    call_sends [OF assms kv_single_query(7), of cl cv key ttl s r2 s'] call_sends [OF assms body_single_query(14), of cl cv items s r1 s']
  by (simp_all only: writes_are_one_call option.inject split: if_splits)

lemma structure_writes_sent:
  assumes "recorder seen (rt env)"
  shows "hset env cv cl key f v s = (r2, s') \<Longrightarrow> sends_once (sent (hset_job cv key f v) []) r2 (seen (world s)) (seen (world s'))"
    and "hdel env cv cl key fs s = (r3, s') \<and> fs \<noteq> [] \<Longrightarrow> sends_once (sent (hdel_job cv key fs) []) r3 (seen (world s)) (seen (world s'))"
    and "lpush env cv cl key v s = (r3, s') \<Longrightarrow> sends_once (sent (lpush_job cv key v) []) r3 (seen (world s)) (seen (world s'))"
    and "rpush env cv cl key v s = (r3, s') \<Longrightarrow> sends_once (sent (rpush_job cv key v) []) r3 (seen (world s)) (seen (world s'))"
    and "lpop env cv cl key s = (r4, s') \<Longrightarrow> sends_once (sent (lpop_job cv key) []) r4 (seen (world s)) (seen (world s'))"
    and "blpop env cv key timeout s = Some (r5, s') \<Longrightarrow> sends_once (sent (blpop_job cv key timeout) []) r5 (seen (world s)) (seen (world s'))"
    and "sadd env cv cl key v s = (r3, s') \<Longrightarrow> sends_once (sent (sadd_job cv key v) []) r3 (seen (world s)) (seen (world s'))"
    and "srem env cv cl key v s = (r3, s') \<Longrightarrow> sends_once (sent (srem_job cv key v) []) r3 (seen (world s)) (seen (world s'))"
    and "zadd env cv cl key v x s = (r3, s') \<Longrightarrow> sends_once (sent (zadd_job cv key v x) []) r3 (seen (world s)) (seen (world s'))"
    and "zrem env cv cl key v s = (r3, s') \<Longrightarrow> sends_once (sent (zrem_job cv key v) []) r3 (seen (world s)) (seen (world s'))"
    and "xadd_with_id env cv cl key sid fds s = (r6, s') \<Longrightarrow> sends_once (sent (xadd_job cv key sid fds) []) r6 (seen (world s)) (seen (world s'))"
    and "xdel env cv cl key ids s = (r3, s') \<and> ids \<noteq> [] \<Longrightarrow> sends_once (sent (xdel_job cv key ids) []) r3 (seen (world s)) (seen (world s'))"
    and "xack env cv cl key grp ids s = (r3, s') \<and> ids \<noteq> [] \<Longrightarrow> sends_once (sent (xack_job cv key grp ids) []) r3 (seen (world s)) (seen (world s'))"
proof -
  note once = body_single_query [THEN call_sends [OF assms]]
  show "hset env cv cl key f v s = (r2, s') \<Longrightarrow> sends_once (sent (hset_job cv key f v) []) r2 (seen (world s)) (seen (world s'))"
    unfolding hset_def by (rule once)
  show "hdel env cv cl key fs s = (r3, s') \<and> fs \<noteq> [] \<Longrightarrow> sends_once (sent (hdel_job cv key fs) []) r3 (seen (world s)) (seen (world s'))"
    unfolding hdel_def by (auto split: if_splits intro: once)
  show "lpush env cv cl key v s = (r3, s') \<Longrightarrow> sends_once (sent (lpush_job cv key v) []) r3 (seen (world s)) (seen (world s'))"
    unfolding lpush_def by (rule once)
  show "rpush env cv cl key v s = (r3, s') \<Longrightarrow> sends_once (sent (rpush_job cv key v) []) r3 (seen (world s)) (seen (world s'))"
    unfolding rpush_def by (rule once)
  show "lpop env cv cl key s = (r4, s') \<Longrightarrow> sends_once (sent (lpop_job cv key) []) r4 (seen (world s)) (seen (world s'))"
    unfolding lpop_def by (rule once)
  show "blpop env cv key timeout s = Some (r5, s') \<Longrightarrow> sends_once (sent (blpop_job cv key timeout) []) r5 (seen (world s)) (seen (world s'))"
    by (auto simp: blpop_def intro: budget_call_sends [OF assms body_single_query(6)])
  show "sadd env cv cl key v s = (r3, s') \<Longrightarrow> sends_once (sent (sadd_job cv key v) []) r3 (seen (world s)) (seen (world s'))"
    unfolding sadd_def by (rule once)
  show "srem env cv cl key v s = (r3, s') \<Longrightarrow> sends_once (sent (srem_job cv key v) []) r3 (seen (world s)) (seen (world s'))"
    unfolding srem_def by (rule once)
  show "zadd env cv cl key v x s = (r3, s') \<Longrightarrow> sends_once (sent (zadd_job cv key v x) []) r3 (seen (world s)) (seen (world s'))"
    unfolding zadd_def by (rule once)
  show "zrem env cv cl key v s = (r3, s') \<Longrightarrow> sends_once (sent (zrem_job cv key v) []) r3 (seen (world s)) (seen (world s'))"
    unfolding zrem_def by (rule once)
  show "xadd_with_id env cv cl key sid fds s = (r6, s') \<Longrightarrow> sends_once (sent (xadd_job cv key sid fds) []) r6 (seen (world s)) (seen (world s'))"
    unfolding xadd_with_id_def by (auto split: if_splits intro: once)
  show "xdel env cv cl key ids s = (r3, s') \<and> ids \<noteq> [] \<Longrightarrow> sends_once (sent (xdel_job cv key ids) []) r3 (seen (world s)) (seen (world s'))"
    unfolding xdel_def by (auto split: if_splits intro: once)
  show "xack env cv cl key grp ids s = (r3, s') \<and> ids \<noteq> [] \<Longrightarrow> sends_once (sent (xack_job cv key grp ids) []) r3 (seen (world s)) (seen (world s'))"
    unfolding xack_def by (auto split: if_splits intro: once)
qed

lemma batch_writes_sent:
  assumes "recorder seen (rt env)"
  shows "multi_exec env cv cl cmds s = (r7, s') \<Longrightarrow> sends_once (sent (multi_job cv cmds) []) r7 (seen (world s)) (seen (world s'))"
    and "multi_set env cv cl items s = (r1, s') \<and> items \<noteq> [] \<Longrightarrow>
       sends_once (sent (multi_job cv (map (\<lambda>(k, x). TxSet k x) items)) []) r1 (seen (world s)) (seen (world s'))"
    and "pipeline_set env cv cl items life s = (r1, s') \<and> items \<noteq> [] \<Longrightarrow>
       \<exists>ms. sends_once (sent (pipeline_job cv ms items) []) r1 (seen (world s)) (seen (world s'))"
    and "eval_script env cl script keys args s = (r8, s') \<Longrightarrow> sends_once (sent (script_job script keys args) []) r8 (seen (world s)) (seen (world s'))"
    and "eval_sha env cl sha keys args s = (r8, s') \<Longrightarrow> sends_once (sent (eval_sha_job sha keys args) []) r8 (seen (world s)) (seen (world s'))"
proof -
  note once = body_single_query [THEN call_sends [OF assms]]
  have multi: "multi_exec env cv cl cs s = (r, s') \<Longrightarrow> sends_once (sent (multi_job cv cs) []) r (seen (world s)) (seen (world s'))"
    for cs r
    unfolding multi_exec_def by (auto split: if_splits intro: once)
  show "multi_exec env cv cl cmds s = (r7, s') \<Longrightarrow> sends_once (sent (multi_job cv cmds) []) r7 (seen (world s)) (seen (world s'))"
    by (rule multi)
  show "multi_set env cv cl items s = (r1, s') \<and> items \<noteq> [] \<Longrightarrow>
       sends_once (sent (multi_job cv (map (\<lambda>(k, x). TxSet k x) items)) []) r1 (seen (world s)) (seen (world s'))"
    unfolding multi_set_def by (auto simp: sends_once_map_ok split: prod.splits dest!: multi)
  show "pipeline_set env cv cl items life s = (r1, s') \<and> items \<noteq> [] \<Longrightarrow>
       \<exists>ms. sends_once (sent (pipeline_job cv ms items) []) r1 (seen (world s)) (seen (world s'))"
  proof (elim conjE)
    assume "pipeline_set env cv cl items life s = (r1, s')" "items \<noteq> []"
    then consider e where "r1 = Inl e" "s' = s" | ms where "with_pool_conn env cl (pipeline_job cv ms items) s = (r1, s')"
      by (auto simp: pipeline_set_def split: option.splits sum.splits)
    then show ?thesis by cases (simp, blast intro: once(17))
  qed
  show "eval_script env cl script keys args s = (r8, s') \<Longrightarrow> sends_once (sent (script_job script keys args) []) r8 (seen (world s)) (seen (world s'))"
    unfolding eval_script_def by (auto split: if_splits intro: once)
  show "eval_sha env cl sha keys args s = (r8, s') \<Longrightarrow> sends_once (sent (eval_sha_job sha keys args) []) r8 (seen (world s)) (seen (world s'))"
    unfolding eval_sha_def by (auto split: if_splits intro: once)
qed

text \<open>
  C3. No write is sent twice. Whatever retry policy and deadline a client has, a call of a writing command
  hands the server its one request, or fails and hands it nothing: the key-value writes of the client,
  the writes to hashes, lists, sets, sorted sets and streams, the blocking pop, transactions, the
  batched and the pipelined \<open>SET\<close> and scripts. A write that succeeds was sent exactly once. (Batches
  of nothing send nothing.)
\<close>

theorem writes_are_sent_once:
  assumes "recorder seen (rt env)"
  shows "(client_set env cv cl key v s = Some (r1, s') \<longrightarrow> sends_once (sent (kv_set cv key v) []) r1 (seen (world s)) (seen (world s'))) \<and>
    (client_set_ex env cv cl key v ttl s = Some (r1, s') \<longrightarrow> sends_once (sent (kv_set_ex cv key v ttl) []) r1 (seen (world s)) (seen (world s'))) \<and>
    (client_del env cv cl key s = Some (r2, s') \<longrightarrow> sends_once (sent (kv_del cv key) []) r2 (seen (world s)) (seen (world s'))) \<and>
    (client_incr env cv cl key d s = Some (r3, s') \<longrightarrow> sends_once (sent (kv_incr cv key d) []) r3 (seen (world s)) (seen (world s'))) \<and>
    (client_expire env cv cl key ttl s = Some (r2, s') \<longrightarrow> sends_once (sent (kv_expire cv key ttl) []) r2 (seen (world s)) (seen (world s'))) \<and>
    (client_mset env cv cl items s = Some (r1, s') \<and> items \<noteq> [] \<longrightarrow> sends_once (sent (mset_job cv items) []) r1 (seen (world s)) (seen (world s'))) \<and>
    (hset env cv cl key f v s = (r2, s') \<longrightarrow> sends_once (sent (hset_job cv key f v) []) r2 (seen (world s)) (seen (world s'))) \<and>
    (hdel env cv cl key fs s = (r3, s') \<and> fs \<noteq> [] \<longrightarrow> sends_once (sent (hdel_job cv key fs) []) r3 (seen (world s)) (seen (world s'))) \<and>
    (lpush env cv cl key v s = (r3, s') \<longrightarrow> sends_once (sent (lpush_job cv key v) []) r3 (seen (world s)) (seen (world s'))) \<and>
    (rpush env cv cl key v s = (r3, s') \<longrightarrow> sends_once (sent (rpush_job cv key v) []) r3 (seen (world s)) (seen (world s'))) \<and>
    (lpop env cv cl key s = (r4, s') \<longrightarrow> sends_once (sent (lpop_job cv key) []) r4 (seen (world s)) (seen (world s'))) \<and>
    (blpop env cv key timeout s = Some (r5, s') \<longrightarrow> sends_once (sent (blpop_job cv key timeout) []) r5 (seen (world s)) (seen (world s'))) \<and>
    (sadd env cv cl key v s = (r3, s') \<longrightarrow> sends_once (sent (sadd_job cv key v) []) r3 (seen (world s)) (seen (world s'))) \<and>
    (srem env cv cl key v s = (r3, s') \<longrightarrow> sends_once (sent (srem_job cv key v) []) r3 (seen (world s)) (seen (world s'))) \<and>
    (zadd env cv cl key v x s = (r3, s') \<longrightarrow> sends_once (sent (zadd_job cv key v x) []) r3 (seen (world s)) (seen (world s'))) \<and>
    (zrem env cv cl key v s = (r3, s') \<longrightarrow> sends_once (sent (zrem_job cv key v) []) r3 (seen (world s)) (seen (world s'))) \<and>
    (xadd_with_id env cv cl key sid fds s = (r6, s') \<longrightarrow> sends_once (sent (xadd_job cv key sid fds) []) r6 (seen (world s)) (seen (world s'))) \<and>
    (xdel env cv cl key ids s = (r3, s') \<and> ids \<noteq> [] \<longrightarrow> sends_once (sent (xdel_job cv key ids) []) r3 (seen (world s)) (seen (world s'))) \<and>
    (xack env cv cl key grp ids s = (r3, s') \<and> ids \<noteq> [] \<longrightarrow> sends_once (sent (xack_job cv key grp ids) []) r3 (seen (world s)) (seen (world s'))) \<and>
    (multi_exec env cv cl cmds s = (r7, s') \<longrightarrow> sends_once (sent (multi_job cv cmds) []) r7 (seen (world s)) (seen (world s'))) \<and>
    (multi_set env cv cl items s = (r1, s') \<and> items \<noteq> [] \<longrightarrow>
       sends_once (sent (multi_job cv (map (\<lambda>(k, x). TxSet k x) items)) []) r1 (seen (world s)) (seen (world s'))) \<and>
    (pipeline_set env cv cl items life s = (r1, s') \<and> items \<noteq> [] \<longrightarrow>
       (\<exists>ms. sends_once (sent (pipeline_job cv ms items) []) r1 (seen (world s)) (seen (world s')))) \<and>
    (eval_script env cl script keys args s = (r8, s') \<longrightarrow> sends_once (sent (script_job script keys args) []) r8 (seen (world s)) (seen (world s'))) \<and>
    (eval_sha env cl sha keys args s = (r8, s') \<longrightarrow> sends_once (sent (eval_sha_job sha keys args) []) r8 (seen (world s)) (seen (world s')))"
  by (intro conjI impI) (fact key_writes_sent [OF assms] structure_writes_sent [OF assms] batch_writes_sent [OF assms])+

text \<open>A world that is the record of the requests; every reply is the same.\<close>

definition noting :: "reply_value \<Rightarrow> request list exchange" where
  "noting v req budget w = (Some (Inr v, budget), w @ [req])"

definition noting_env :: "reply_value \<Rightarrow> request list env" where
  "noting_env v =
     \<lparr>rt = \<lparr>rt_now = (\<lambda>w. (0, w)), rt_sleep = (\<lambda>_ w. w), rt_acquire = (\<lambda>_ w. (Permit, w)), rt_release = (\<lambda>w. w),
        rt_manager = (\<lambda>_. noting v), rt_cluster = (\<lambda>_. noting v)\<rparr>,
      others = (\<lambda>_ p. p)\<rparr>"

lemma noting_env_recorder: "recorder (\<lambda>w. w) (rt (noting_env v))"
  by (auto simp: recorder_def records_def inert_iff noting_env_def noting_def)

theorem writes_are_sent_once_witness:
  "\<exists>r s'. client_incr (noting_env NilValue) sample_conversions (client_with_retry default_retry from_pool) ''n'' 3
      \<lparr>world = [], pool = sample_pool\<rparr> = Some (r, s') \<and>
    sends_once [Method ''incr'' [Text ''n'', Number 3]] r [] (world s')"
proof -
  let ?cl = "client_with_retry default_retry from_pool"
  let ?s = "\<lparr>world = [], pool = sample_pool\<rparr>"
  obtain r s' where run: "client_incr (noting_env NilValue) sample_conversions ?cl ''n'' 3 ?s = Some (r, s')"
    by (cases "with_pool_conn (noting_env NilValue) ?cl (kv_incr sample_conversions ''n'' 3) ?s") (simp add: writes_are_one_call)
  then have "sends_once (sent (kv_incr sample_conversions ''n'' 3) []) r (world ?s) (world s')"
    by (rule writes_are_sent_once [OF noting_env_recorder, THEN conjunct2, THEN conjunct2, THEN conjunct2, THEN conjunct1, rule_format])
  with run show ?thesis by (simp add: kv_incr_def)
qed

text \<open>
  C14. Retried reads repeat one request. A read of a client hands the server copies of one request, at most
  as many as its policy has attempts, and one without a policy; the reads of structures and streams,
  which are not routed, one. Nothing else is sent: a read never writes.
\<close>

theorem reads_repeat_one_request:
  assumes "recorder seen (rt env)" and "\<forall>c. cl_retry cl = Some c \<longrightarrow> 1 \<le> rc_max_attempts c"
  shows "(client_get env cv cl key s = Some (r1, s') \<longrightarrow>
      sends_upto (attempts cl) [Method ''get'' [Text key]] (seen (world s)) (seen (world s'))) \<and>
    (client_exists env cv cl key s = Some (r2, s') \<longrightarrow>
      sends_upto (attempts cl) [Method ''exists'' [Text key]] (seen (world s)) (seen (world s'))) \<and>
    (client_ttl env cv cl key s = Some (r3, s') \<longrightarrow>
      sends_upto (attempts cl) [Command ''PTTL'' [Text key]] (seen (world s)) (seen (world s'))) \<and>
    (client_mget env cv cl keys s = Some (r4, s') \<longrightarrow>
      sends_upto (attempts cl) [Method ''get'' [Many (map Text keys)]] (seen (world s)) (seen (world s'))) \<and>
    (hget env cv cl key f s = (r1, s') \<longrightarrow>
      sends_upto 1 [Method ''hget'' [Text key, Text f]] (seen (world s)) (seen (world s'))) \<and>
    (xrange env cv cl key start stop count s = (r5, s') \<longrightarrow>
      sends_upto 1 (sent (xrange_job cv key start stop count) []) (seen (world s)) (seen (world s'))) \<and>
    (xread_block env cv key last_id block count s = Some (r5, s') \<longrightarrow>
      sends_upto 1 (sent (xread_block_job cv key last_id block count) []) (seen (world s)) (seen (world s')))"
proof (intro conjI impI)
  note once = call_sends [OF assms(1), THEN sends_once_upto] and routed = routed_sends [OF assms]
  show "sends_upto (attempts cl) [Method ''get'' [Text key]] (seen (world s)) (seen (world s'))"
    if "client_get env cv cl key s = Some (r1, s')"
    using that once [OF kv_single_query(1), of _ cv key] unfolding client_get_def route_def get_once_def [abs_def]
    by (intro routed) (auto simp: kv_get_def)
  show "sends_upto (attempts cl) [Method ''exists'' [Text key]] (seen (world s)) (seen (world s'))"
    if "client_exists env cv cl key s = Some (r2, s')"
    using that once [OF kv_single_query(5), of _ cv key] unfolding client_exists_def route_def exists_once_def [abs_def]
    by (intro routed) (auto simp: kv_exists_def)
  show "sends_upto (attempts cl) [Command ''PTTL'' [Text key]] (seen (world s)) (seen (world s'))"
    if "client_ttl env cv cl key s = Some (r3, s')"
    using that once [OF kv_single_query(8), of _ cv key] unfolding client_ttl_def route_def ttl_once_def [abs_def]
    by (intro routed) (auto simp: kv_ttl_def)
  show "sends_upto (attempts cl) [Method ''get'' [Many (map Text keys)]] (seen (world s)) (seen (world s'))"
    if "client_mget env cv cl keys s = Some (r4, s')"
  proof (cases "keys = []")
    case False
    have "sends_upto 1 [Method ''get'' [Many (map Text keys)]] (seen (world u)) (seen (world u'))"
      if "mget_once env cv cl keys u = (r, u')" for u r u'
      using that False once [OF body_single_query(15), of cl cv keys u r u'] by (simp add: mget_once_def mget_job_def)
    from routed [OF this] that False show ?thesis by (simp add: client_mget_def route_def)
  qed (use that in \<open>simp add: client_mget_def\<close>)
  show "sends_upto 1 [Method ''hget'' [Text key, Text f]] (seen (world s)) (seen (world s'))" if "hget env cv cl key f s = (r1, s')"
    using that once [of "hget_job cv key f"] unfolding hget_def by (auto simp: hget_job_def)
  show "sends_upto 1 (sent (xrange_job cv key start stop count) []) (seen (world s)) (seen (world s'))"
    if "xrange env cv cl key start stop count s = (r5, s')"
    using that once [of "xrange_job cv key start stop count"] unfolding xrange_def by (auto simp: xrange_job_def)
  show "sends_upto 1 (sent (xread_block_job cv key last_id block count) []) (seen (world s)) (seen (world s'))"
    if run: "xread_block env cv key last_id block count s = Some (r5, s')"
  proof -
    have single: "single_query (xread_block_job cv key last_id block count)" by (simp add: body_defs)
    obtain b where "with_conn_budget env b (xread_block_job cv key last_id block count) s = (r5, s')"
      using run by (auto simp: xread_block_def)
    from sends_once_upto [OF budget_call_sends [OF assms(1) single this]] show ?thesis .
  qed
qed

theorem reads_repeat_one_request_witness:
  "\<exists>r s'. client_get (noting_env OkayValue) sample_conversions (client_with_retry (fixed 3 (from_millis 20)) from_pool) ''k''
      \<lparr>world = [], pool = sample_pool\<rparr> = Some (r, s') \<and> sends_upto 3 [Method ''get'' [Text ''k'']] [] (world s')"
proof -
  let ?c = "fixed 3 (from_millis 20)"
  let ?cl = "client_with_retry ?c from_pool"
  let ?s = "\<lparr>world = [], pool = sample_pool\<rparr>"
  have c: "cl_retry ?cl = Some ?c" "1 \<le> rc_max_attempts ?c" "rc_max_backoff ?c \<le> 2 ^ 48"
    by (simp_all add: client_with_retry_def fixed_def from_millis_def max_def)
  obtain r s' where run: "client_get (noting_env OkayValue) sample_conversions ?cl ''k'' ?s = Some (r, s')"
    using routed_returns [OF c] unfolding client_get_def route_def by blast
  have "\<forall>x. cl_retry ?cl = Some x \<longrightarrow> 1 \<le> rc_max_attempts x" using c by simp
  from reads_repeat_one_request [OF noting_env_recorder this, THEN conjunct1, rule_format, OF run]
  have "sends_upto (attempts ?cl) [Method ''get'' [Text ''k'']] [] (world s')" by simp
  moreover have "attempts ?cl = 3" by (simp add: attempts_def client_with_retry_def fixed_def)
  ultimately show ?thesis using run by auto
qed

end
