(* ===== verification/Database.thy ===== *)
theory Database
  imports Server Ext
begin

text \<open>
  A server's keyspace: what every request of the client, the structures, the transactions, the pipelined
  batch and the lock does to the data, and how it is answered. This is documented behaviour of the server
  and of the driver's conversions, the hypothesis (\<open>db_server\<close>) under which \<open>Store\<close>, \<open>Data_Store\<close>,
  \<open>Batch_Store\<close> and \<open>Lock_Store\<close> say what the commands of the library mean. What else happens to the keyspace while a call
  runs, the writes of other clients, keys that expire, a request that arrives after its caller has given
  up, is the relation \<open>D\<close> of these theorems. Commands on several keys are meant on one node: a cluster
  driver may split those whose keys lie in different slots.
\<close>

section \<open>Data\<close>

datatype datum =
    Str bytes
  | Hash "string \<rightharpoonup> bytes"
  | Lst "bytes list"
  | Members "bytes set"
  | Scores "bytes \<rightharpoonup> f64"
  | Other string  \<comment> \<open>streams and whatever else\<close>

text \<open>A datum, and whether its key has a time to live.\<close>

type_synonym db = "string \<rightharpoonup> datum \<times> bool"

definition volatile :: "db \<Rightarrow> string \<Rightarrow> bool" where
  "volatile m k \<longleftrightarrow> (case m k of None \<Rightarrow> False | Some (_, e) \<Rightarrow> e)"

text \<open>
  The datum of a key at each type, \<open>None\<close> where the key holds another (\<open>WRONGTYPE\<close>); a missing key is
  the empty collection. A collection that becomes empty is removed with its key.
\<close>

definition text_at :: "db \<Rightarrow> string \<Rightarrow> bytes option option" where
  "text_at m k = (case m k of None \<Rightarrow> Some None | Some (Str b, _) \<Rightarrow> Some (Some b) | _ \<Rightarrow> None)"

definition hash_at :: "db \<Rightarrow> string \<Rightarrow> (string \<rightharpoonup> bytes) option" where
  "hash_at m k = (case m k of None \<Rightarrow> Some Map.empty | Some (Hash h, _) \<Rightarrow> Some h | _ \<Rightarrow> None)"
definition put_hash :: "string \<Rightarrow> (string \<rightharpoonup> bytes) \<Rightarrow> db \<Rightarrow> db" where
  "put_hash k h m = (if h = Map.empty then m(k := None) else m(k \<mapsto> (Hash h, volatile m k)))"

definition list_at :: "db \<Rightarrow> string \<Rightarrow> bytes list option" where
  "list_at m k = (case m k of None \<Rightarrow> Some [] | Some (Lst xs, _) \<Rightarrow> Some xs | _ \<Rightarrow> None)"
definition put_list :: "string \<Rightarrow> bytes list \<Rightarrow> db \<Rightarrow> db" where
  "put_list k xs m = (if xs = [] then m(k := None) else m(k \<mapsto> (Lst xs, volatile m k)))"

definition set_at :: "db \<Rightarrow> string \<Rightarrow> bytes set option" where
  "set_at m k = (case m k of None \<Rightarrow> Some {} | Some (Members A, _) \<Rightarrow> Some A | _ \<Rightarrow> None)"
definition put_set :: "string \<Rightarrow> bytes set \<Rightarrow> db \<Rightarrow> db" where
  "put_set k A m = (if A = {} then m(k := None) else m(k \<mapsto> (Members A, volatile m k)))"

definition scores_at :: "db \<Rightarrow> string \<Rightarrow> (bytes \<rightharpoonup> f64) option" where
  "scores_at m k = (case m k of None \<Rightarrow> Some Map.empty | Some (Scores z, _) \<Rightarrow> Some z | _ \<Rightarrow> None)"
definition put_scores :: "string \<Rightarrow> (bytes \<rightharpoonup> f64) \<Rightarrow> db \<Rightarrow> db" where
  "put_scores k z m = (if z = Map.empty then m(k := None) else m(k \<mapsto> (Scores z, volatile m k)))"

lemmas at_defs = hash_at_def list_at_def set_at_def scores_at_def
lemmas put_defs = put_hash_def put_list_def put_set_def put_scores_def

text \<open>A write to a collection: nothing where the key holds another type.\<close>

definition on :: "(db \<Rightarrow> string \<Rightarrow> 't option) \<Rightarrow> (string \<Rightarrow> 't \<Rightarrow> db \<Rightarrow> db) \<Rightarrow> string \<Rightarrow> ('t \<Rightarrow> 't) \<Rightarrow> db \<Rightarrow> db" where
  "on look put k f m = (case look m k of None \<Rightarrow> m | Some t \<Rightarrow> put k (f t) m)"

abbreviation "on_hash \<equiv> on hash_at put_hash"
abbreviation "on_list \<equiv> on list_at put_list"
abbreviation "on_set \<equiv> on set_at put_set"
abbreviation "on_scores \<equiv> on scores_at put_scores"

section \<open>Text values\<close>

text \<open>The integer a counter key holds, in the form \<open>INCRBY\<close> accepts and writes; a missing key is 0.\<close>

definition counter :: "db \<Rightarrow> string \<Rightarrow> int option" where
  "counter m k =
     (case text_at m k of
        None \<Rightarrow> None
      | Some None \<Rightarrow> Some 0
      | Some (Some b) \<Rightarrow> (case parse_i64 b of Inl _ \<Rightarrow> None | Inr n \<Rightarrow> if show_int n = b then Some n else None))"

definition add_to :: "string \<Rightarrow> int \<Rightarrow> db \<Rightarrow> db" where
  "add_to k d m =
     (case counter m k of
        Some n \<Rightarrow> if fits_i64 (n + d) then m(k \<mapsto> (Str (show_int (n + d)), volatile m k)) else m
      | None \<Rightarrow> m)"

fun put_all :: "(string \<times> bytes) list \<Rightarrow> db \<Rightarrow> db" where
  "put_all [] m = m"
| "put_all ((k, v) # items) m = put_all items (m(k \<mapsto> (Str v, False)))"

definition touch :: "string \<Rightarrow> db \<Rightarrow> db" where
  "touch k m = (case m k of None \<Rightarrow> m | Some (v, _) \<Rightarrow> m(k \<mapsto> (v, True)))"

definition front :: "'x list \<Rightarrow> 'x option" where
  "front xs = (case xs of [] \<Rightarrow> None | x # _ \<Rightarrow> Some x)"

text \<open>What \<open>MGET\<close> says of a key: nothing also where it holds another type.\<close>

definition text_or_nil :: "db \<Rightarrow> string \<Rightarrow> bytes option" where
  "text_or_nil m k = (case text_at m k of Some found \<Rightarrow> found | None \<Rightarrow> None)"

fun pair_of :: "arg \<Rightarrow> string \<times> bytes" where
  "pair_of (Many [Text k, Bytes v]) = (k, v)"
| "pair_of _ = ([], [])"

fun text_of :: "arg \<Rightarrow> string" where
  "text_of (Text k) = k"
| "text_of _ = []"

text \<open>\<open>LRANGE\<close>: both ends included, negative positions count from the end, what is outside is cut off.\<close>

definition list_slice :: "int \<Rightarrow> int \<Rightarrow> 'x list \<Rightarrow> 'x list" where
  "list_slice start stop xs =
     (let place = \<lambda>i. if i < 0 then i + int (length xs) else i
      in drop (nat (place start)) (take (nat (place stop + 1)) xs))"

section \<open>What requests do\<close>

text \<open>A command of a transaction; the flag says that its reply is dropped.\<close>

fun cmd_step :: "string \<times> arg list \<times> bool \<Rightarrow> db \<Rightarrow> db" where
  "cmd_step (name, [Text k, Bytes v], _) m = (if name = ''SET'' then m(k \<mapsto> (Str v, False)) else m)"
| "cmd_step (name, [Text k], _) m =
     (if name = ''DEL'' then m(k := None) else if name = ''INCR'' then add_to k 1 m else m)"
| "cmd_step (name, [Text k, Number n, Bytes v], _) m = (if name = ''PSETEX'' then m(k \<mapsto> (Str v, True)) else m)"
| "cmd_step _ m = m"

text \<open>
  A method on the key \<open>k\<close> with further arguments, a request on the keyspace. The reads leave the data
  alone; of requests that are not in \<open>db_request\<close> nothing is known.
\<close>

fun key_step :: "string \<Rightarrow> string \<Rightarrow> arg list \<Rightarrow> db \<Rightarrow> db" where
  "key_step name k [] m =
     (if name = ''del'' then m(k := None) else if name = ''lpop'' then on_list k tl m else m)"
| "key_step name k [Bytes v] m =
     (if name = ''set'' then m(k \<mapsto> (Str v, False))
      else if name = ''lpush'' then on_list k ((#) v) m
      else if name = ''rpush'' then on_list k (\<lambda>xs. xs @ [v]) m
      else if name = ''sadd'' then on_set k (insert v) m
      else if name = ''srem'' then on_set k (\<lambda>A. A - {v}) m
      else if name = ''zrem'' then on_scores k (\<lambda>z. z(v := None)) m
      else m)"
| "key_step name k [Bytes v, Number n] m = (if name = ''pset_ex'' then m(k \<mapsto> (Str v, True)) else m)"
| "key_step name k [Bytes v, Float x] m =
     (if name = ''zadd'' \<and> x \<noteq> NaN then on_scores k (\<lambda>z. z(v \<mapsto> x)) m else m)"
| "key_step name k [Text f, Bytes v] m = (if name = ''hset'' then on_hash k (\<lambda>h. h(f \<mapsto> v)) m else m)"
| "key_step name k [Many fs] m = (if name = ''hdel'' then on_hash k (\<lambda>h. h |` (- set (map text_of fs))) m else m)"
| "key_step name k [Number d] m = (if name = ''incr'' then add_to k d m else m)"
| "key_step _ _ _ m = m"

text \<open>A command on the key \<open>k\<close>.\<close>

fun command_step :: "string \<Rightarrow> string \<Rightarrow> arg list \<Rightarrow> db \<Rightarrow> db" where
  "command_step name k [Number n] m =
     (if name = ''PEXPIRE'' then touch k m else if name = ''BLPOP'' then on_list k tl m else m)"
| "command_step name k [Text t, nx, px, ms] m =
     (if name = ''SET'' \<and> nx = Text ''NX'' \<and> m k = None then m(k \<mapsto> (Str t, True)) else m)"
| "command_step _ _ _ m = m"

text \<open>A script on the key \<open>k\<close> that compares its text with the first argument.\<close>

definition script_step :: "string \<Rightarrow> string \<Rightarrow> bytes \<Rightarrow> db \<Rightarrow> db" where
  "script_step script k t m =
     (if text_at m k \<noteq> Some (Some t) then m
      else if script = RELEASE_LUA then m(k := None)
      else if script = EXTEND_LUA then touch k m
      else m)"

fun db_step :: "request \<Rightarrow> db \<Rightarrow> db" where
  "db_step (Method name (Text k # args)) m = key_step name k args m"
| "db_step (Method name [Many items]) m = (if name = ''mset'' then put_all (map pair_of items) m else m)"
| "db_step (Command name (Text k # args)) m = command_step name k args m"
| "db_step (Invoke script [k] (t # args)) m = script_step script k t m"
| "db_step (Pipe atomic cmds) m = (if atomic then fold cmd_step cmds m else m)"
| "db_step _ m = m"

text \<open>The requests of which this is said.\<close>

fun cmd_request :: "string \<times> arg list \<times> bool \<Rightarrow> bool" where
  "cmd_request (name, [Text k, Bytes v], _) \<longleftrightarrow> name = ''SET''"
| "cmd_request (name, [Text k], _) \<longleftrightarrow> name \<in> {''DEL'', ''INCR''}"
| "cmd_request (name, [Text k, Number n, Bytes v], _) \<longleftrightarrow> name = ''PSETEX''"
| "cmd_request _ \<longleftrightarrow> False"

definition key_methods :: "string set" where
  "key_methods =
     {''get'', ''set'', ''pset_ex'', ''del'', ''exists'', ''incr'', ''hset'', ''hget'', ''hdel'', ''hgetall'',
      ''lpush'', ''rpush'', ''lpop'', ''lrange'', ''sadd'', ''sismember'', ''srem'', ''zadd'', ''zscore'', ''zrem''}"

lemma key_methods [simp]:
  "''get'' \<in> key_methods" "''set'' \<in> key_methods" "''pset_ex'' \<in> key_methods" "''del'' \<in> key_methods"
  "''exists'' \<in> key_methods" "''incr'' \<in> key_methods" "''hset'' \<in> key_methods" "''hget'' \<in> key_methods"
  "''hdel'' \<in> key_methods" "''hgetall'' \<in> key_methods" "''lpush'' \<in> key_methods" "''rpush'' \<in> key_methods"
  "''lpop'' \<in> key_methods" "''lrange'' \<in> key_methods" "''sadd'' \<in> key_methods" "''sismember'' \<in> key_methods"
  "''srem'' \<in> key_methods" "''zadd'' \<in> key_methods" "''zscore'' \<in> key_methods" "''zrem'' \<in> key_methods"
  by (simp_all add: key_methods_def)

fun command_request :: "string \<Rightarrow> arg list \<Rightarrow> bool" where
  "command_request name [] \<longleftrightarrow> name = ''PTTL''"
| "command_request name [Number n] \<longleftrightarrow> name \<in> {''PEXPIRE'', ''BLPOP''}"
| "command_request name [Text t, nx, px, ms] \<longleftrightarrow> name = ''SET'' \<and> nx = Text ''NX'' \<and> px = Text ''PX''"
| "command_request _ _ \<longleftrightarrow> False"

fun db_request :: "request \<Rightarrow> bool" where
  "db_request (Method name (Text k # args)) \<longleftrightarrow> name \<in> key_methods"
| "db_request (Method name [Many items]) \<longleftrightarrow> name \<in> {''get'', ''mset''}"
| "db_request (Command name (Text k # args)) \<longleftrightarrow> command_request name args"
| "db_request (Invoke script [k] (t # args)) \<longleftrightarrow> script \<in> {RELEASE_LUA, EXTEND_LUA}"
| "db_request (Pipe atomic cmds) \<longleftrightarrow> atomic \<and> list_all cmd_request cmds"
| "db_request _ \<longleftrightarrow> False"

section \<open>How they are answered\<close>

text \<open>The key holds the right type, and what is there is as it should be.\<close>

definition holds :: "'t option \<Rightarrow> ('t \<Rightarrow> bool) \<Rightarrow> bool" where
  "holds t P \<longleftrightarrow> (case t of None \<Rightarrow> False | Some x \<Rightarrow> P x)"

lemma holds_simps [simp]: "holds (Some x) P = P x" "\<not> holds None P"
  by (simp_all add: holds_def)

lemma holdsE: "holds t P \<Longrightarrow> (\<And>x. t = Some x \<Longrightarrow> P x \<Longrightarrow> thesis) \<Longrightarrow> thesis"
  by (cases t) simp_all

fun cmd_answer :: "conversions \<Rightarrow> string \<times> arg list \<times> bool \<Rightarrow> db \<Rightarrow> reply_value \<Rightarrow> bool" where
  "cmd_answer cv (name, [Text k], _) m v \<longleftrightarrow>
     (name = ''DEL'' \<longrightarrow> as_int cv v = Inr (of_bool (m k \<noteq> None))) \<and>
     (name = ''INCR'' \<longrightarrow> (\<forall>n. counter m k = Some n \<and> fits_i64 (n + 1) \<longrightarrow> as_int cv v = Inr (n + 1)))"
| "cmd_answer cv _ m v \<longleftrightarrow> True"

text \<open>One reply for each command that does not drop its reply, in order, each on what the earlier commands left.\<close>

fun cmds_answer :: "conversions \<Rightarrow> (string \<times> arg list \<times> bool) list \<Rightarrow> db \<Rightarrow> reply_value list \<Rightarrow> bool" where
  "cmds_answer cv [] m vs \<longleftrightarrow> vs = []"
| "cmds_answer cv (c # cmds) m vs \<longleftrightarrow>
     (if snd (snd c) then cmds_answer cv cmds (cmd_step c m) vs
      else case vs of
        [] \<Rightarrow> False
      | v # rest \<Rightarrow> cmd_answer cv c m v \<and> cmds_answer cv cmds (cmd_step c m) rest)"

text \<open>
  A single key given to the driver's \<open>get\<close> as a list is asked for with \<open>GET\<close>: its missing value may be
  read as the empty list.
\<close>

definition many_answer :: "bytes option list \<Rightarrow> bytes option list \<Rightarrow> bool" where
  "many_answer found given \<longleftrightarrow> given = found \<or> found = [None] \<and> given = []"

fun key_answer :: "conversions \<Rightarrow> string \<Rightarrow> string \<Rightarrow> arg list \<Rightarrow> db \<Rightarrow> reply_value \<Rightarrow> bool" where
  "key_answer cv name k [] m v \<longleftrightarrow>
     (name = ''get'' \<longrightarrow> holds (text_at m k) (\<lambda>found. as_opt_bytes cv v = Inr found)) \<and>
     (name = ''del'' \<or> name = ''exists'' \<longrightarrow> as_int cv v = Inr (of_bool (m k \<noteq> None))) \<and>
     (name = ''lpop'' \<longrightarrow> holds (list_at m k) (\<lambda>xs. as_opt_bytes cv v = Inr (front xs))) \<and>
     (name = ''hgetall'' \<longrightarrow> holds (hash_at m k) (\<lambda>h. \<exists>pairs. as_pairs cv v = Inr pairs \<and>
        distinct (map fst pairs) \<and> map_of pairs = h))"
| "key_answer cv name k [Bytes x] m v \<longleftrightarrow>
     (name = ''lpush'' \<or> name = ''rpush'' \<longrightarrow> holds (list_at m k) (\<lambda>xs. as_int cv v = Inr (int (length xs) + 1))) \<and>
     (name = ''sadd'' \<longrightarrow> holds (set_at m k) (\<lambda>A. as_int cv v = Inr (of_bool (x \<notin> A)))) \<and>
     (name = ''sismember'' \<longrightarrow> holds (set_at m k) (\<lambda>A. as_bool cv v = Inr (x \<in> A))) \<and>
     (name = ''srem'' \<longrightarrow> holds (set_at m k) (\<lambda>A. as_int cv v = Inr (of_bool (x \<in> A)))) \<and>
     (name = ''zscore'' \<longrightarrow> holds (scores_at m k) (\<lambda>z. as_opt_float cv v = Inr (z x))) \<and>
     (name = ''zrem'' \<longrightarrow> holds (scores_at m k) (\<lambda>z. as_int cv v = Inr (of_bool (z x \<noteq> None))))"
| "key_answer cv name k [Bytes x, Float score] m v \<longleftrightarrow>
     (name = ''zadd'' \<longrightarrow> score \<noteq> NaN \<and>
        holds (scores_at m k) (\<lambda>z. as_int cv v = Inr (of_bool (z x = None))))"
| "key_answer cv name k [Text f] m v \<longleftrightarrow>
     (name = ''hget'' \<longrightarrow> holds (hash_at m k) (\<lambda>h. as_opt_bytes cv v = Inr (h f)))"
| "key_answer cv name k [Text f, Bytes x] m v \<longleftrightarrow>
     (name = ''hset'' \<longrightarrow> holds (hash_at m k) (\<lambda>h. as_int cv v = Inr (of_bool (h f = None))))"
| "key_answer cv name k [Many fs] m v \<longleftrightarrow>
     (name = ''hdel'' \<longrightarrow> holds (hash_at m k) (\<lambda>h. as_int cv v = Inr (int (card (dom h \<inter> set (map text_of fs))))))"
| "key_answer cv name k [Number a, Number b] m v \<longleftrightarrow>
     (name = ''lrange'' \<longrightarrow> holds (list_at m k) (\<lambda>xs. as_bytes_list cv v = Inr (list_slice a b xs)))"
| "key_answer cv name k [Number d] m v \<longleftrightarrow>
     (name = ''incr'' \<longrightarrow> holds (counter m k) (\<lambda>n. fits_i64 (n + d) \<and> as_int cv v = Inr (n + d)))"
| "key_answer cv _ _ _ m v \<longleftrightarrow> True"

fun command_answer :: "conversions \<Rightarrow> string \<Rightarrow> string \<Rightarrow> arg list \<Rightarrow> db \<Rightarrow> reply_value \<Rightarrow> bool" where
  "command_answer cv name k [Number n] m v \<longleftrightarrow>
     (name = ''PEXPIRE'' \<longrightarrow> as_int cv v = Inr (of_bool (m k \<noteq> None))) \<and>
     (name = ''BLPOP'' \<longrightarrow> holds (list_at m k) (\<lambda>xs. as_opt_pair cv v = Inr (map_option (Pair k) (front xs))))"
| "command_answer cv name k [] m v \<longleftrightarrow>
     (name = ''PTTL'' \<longrightarrow> (\<exists>n. as_int cv v = Inr n \<and>
        (if m k = None then n = - 2 else if \<not> volatile m k then n = - 1 else 0 \<le> n)))"
| "command_answer cv name k [Text t, nx, px, ms] m v \<longleftrightarrow>
     (name = ''SET'' \<and> nx = Text ''NX'' \<longrightarrow> as_opt_string cv v = Inr (if m k = None then Some ''OK'' else None))"
| "command_answer cv _ _ _ m v \<longleftrightarrow> True"

fun db_answer :: "conversions \<Rightarrow> request \<Rightarrow> db \<Rightarrow> reply_value \<Rightarrow> bool" where
  "db_answer cv (Method name (Text k # args)) m v \<longleftrightarrow> key_answer cv name k args m v"
| "db_answer cv (Method name [Many keys]) m v \<longleftrightarrow>
     (name = ''get'' \<longrightarrow> (\<exists>given. as_opt_bytes_list cv v = Inr given \<and>
        many_answer (map (\<lambda>k. text_or_nil m (text_of k)) keys) given))"
| "db_answer cv (Command name (Text k # args)) m v \<longleftrightarrow> command_answer cv name k args m v"
| "db_answer cv (Invoke script [k] (t # args)) m v \<longleftrightarrow>
     holds (text_at m k) (\<lambda>found. v = IntValue (of_bool (found = Some t)))"
| "db_answer cv (Pipe atomic cmds) m v \<longleftrightarrow>
     (atomic \<longrightarrow> (\<exists>vs. as_values cv v = Inr vs \<and> cmds_answer cv cmds m vs))"
| "db_answer cv _ m v \<longleftrightarrow> True"

text \<open>A server with such a keyspace; every reply converts to \<open>()\<close>.\<close>

definition db_server :: "(db \<Rightarrow> db \<Rightarrow> bool) \<Rightarrow> ('w \<Rightarrow> db) \<Rightarrow> conversions \<Rightarrow> 'w runtime \<Rightarrow> bool" where
  "db_server D obs cv r \<longleftrightarrow> honest_runtime db_request D obs db_step (db_answer cv) r \<and> (\<forall>v. as_unit cv v = Inr ())"

lemma db_server_honest: "db_server D obs cv r \<Longrightarrow> honest_runtime db_request D obs db_step (db_answer cv) r"
  by (simp add: db_server_def)

lemma db_server_unit: "db_server D obs cv r \<Longrightarrow> as_unit cv v = Inr ()"
  by (simp add: db_server_def)

section \<open>Keys that nobody else writes\<close>

text \<open>All that else happens to the key is that it may expire.\<close>

definition fades :: "(db \<Rightarrow> db \<Rightarrow> bool) \<Rightarrow> string \<Rightarrow> bool" where
  "fades D k \<longleftrightarrow> (\<forall>a b. D a b \<longrightarrow> b k = a k \<or> volatile a k \<and> b k = None)"

lemma fadesD: "fades D k \<Longrightarrow> D a b \<Longrightarrow> b k = a k \<or> volatile a k \<and> b k = None"
  by (simp add: fades_def)

lemma fades_stays: "fades D k \<Longrightarrow> D a b \<Longrightarrow> a k = Some (x, False) \<Longrightarrow> b k = Some (x, False)"
  using fadesD [of D k a b] by (auto simp: volatile_def)

lemma fades_missing: "fades D k \<Longrightarrow> D a b \<Longrightarrow> a k = None \<Longrightarrow> b k = None"
  using fadesD [of D k a b] by (auto simp: volatile_def)

lemma fades_volatile: "fades D k \<Longrightarrow> D a b \<Longrightarrow> a k = Some (x, True) \<Longrightarrow> b k = Some (x, True) \<or> b k = None"
  using fadesD [of D k a b] by auto

lemma fades_same: "fades D k \<Longrightarrow> D a b \<Longrightarrow> \<not> volatile a k \<Longrightarrow> b k = a k"
  using fadesD [of D k a b] by auto

lemma fades_eq: "fades (=) k"
  by (simp add: fades_def)

section \<open>Collections\<close>

text \<open>What reading and writing a collection promise, whatever its type.\<close>

locale collection =
  fixes look :: "db \<Rightarrow> string \<Rightarrow> 't option" and put :: "string \<Rightarrow> 't \<Rightarrow> db \<Rightarrow> db"
  assumes look_put [simp]: "look (put k t m) k = Some t"
    and put_other: "k' \<noteq> k \<Longrightarrow> put k t m k' = m k'"
    and look_local: "m k = m' k \<Longrightarrow> look m k = look m' k"
    and put_volatile: "volatile (put k t m) k \<Longrightarrow> volatile m k"
begin

lemma look_put_other: "k' \<noteq> k \<Longrightarrow> look (put k t m) k' = look m k'"
  using put_other by (rule look_local)

lemma look_on: "look m k = Some t \<Longrightarrow> look (on look put k f m) k = Some (f t)"
  by (simp add: on_def)

lemma on_other: "k' \<noteq> k \<Longrightarrow> on look put k f m k' = m k'"
  by (simp add: on_def put_other split: option.split)

end

interpretation hashes: collection hash_at put_hash
  by unfold_locales (auto simp: hash_at_def put_hash_def volatile_def split: if_splits)
interpretation lists: collection list_at put_list
  by unfold_locales (auto simp: list_at_def put_list_def volatile_def split: if_splits)
interpretation sets: collection set_at put_set
  by unfold_locales (auto simp: set_at_def put_set_def volatile_def split: if_splits)
interpretation scores: collection scores_at put_scores
  by unfold_locales (auto simp: scores_at_def put_scores_def volatile_def split: if_splits)

text \<open>Reading one, and writing one: the result is computed from what was there.\<close>

type_synonym 'a db_op = "db \<Rightarrow> 'a res \<Rightarrow> db \<Rightarrow> bool"

definition read_op :: "(db \<Rightarrow> string \<Rightarrow> 't option) \<Rightarrow> string \<Rightarrow> ('t \<Rightarrow> 'a) \<Rightarrow> 'a db_op" where
  "read_op look k res m r m' \<longleftrightarrow> (\<exists>t. look m k = Some t \<and> r = Inr (res t)) \<and> m' = m"

definition write_op ::
    "(db \<Rightarrow> string \<Rightarrow> 't option) \<Rightarrow> (string \<Rightarrow> 't \<Rightarrow> db \<Rightarrow> db) \<Rightarrow> string \<Rightarrow> ('t \<Rightarrow> 'a) \<Rightarrow> ('t \<Rightarrow> 't) \<Rightarrow> 'a db_op" where
  "write_op look put k res f m r m' \<longleftrightarrow> (\<exists>t. look m k = Some t \<and> r = Inr (res t)) \<and> m' = on look put k f m"

context collection begin

lemma read_Inr: "read_op look k res m (Inr x) m' \<Longrightarrow> m' = m \<and> (\<exists>t. look m k = Some t \<and> x = res t)"
  by (auto simp: read_op_def)

lemma write_Inr:
  "write_op look put k res f m (Inr x) m' \<Longrightarrow> \<exists>t. look m k = Some t \<and> x = res t \<and> look m' k = Some (f t)"
  using look_on by (auto simp: write_op_def)

lemma on_volatile: "volatile (on look put k f m) k \<Longrightarrow> volatile m k"
  using put_volatile by (auto simp: on_def split: option.splits)

text \<open>On a key without time to live that nobody else writes.\<close>

lemma kept_read:
  assumes "implements D (read_op look k res) m (Inr y) m'" and "fades D k" and "\<not> volatile m k"
  shows "\<exists>t. look m k = Some t \<and> y = res t"
proof -
  from assms(1) obtain a t where a: "D m a" "look a k = Some t" "y = res t"
    by (auto simp: implements_Inr read_op_def)
  have "a k = m k" by (rule fades_same [OF assms(2) a(1) assms(3)])
  from look_local [of a k m, OF this] a(2) have "look m k = Some t" by simp
  with a(3) show ?thesis by blast
qed

lemma kept_write:
  assumes "implements D (write_op look put k res f) m (Inr x) m'" and "fades D k" and "\<not> volatile m k"
  shows "\<exists>t. look m k = Some t \<and> x = res t \<and> look m' k = Some (f t) \<and> \<not> volatile m' k"
proof -
  from assms(1) obtain a b t where ab: "D m a" "look a k = Some t" "x = res t" "b = on look put k f a" "D b m'"
    by (auto simp: implements_Inr write_op_def)
  have a: "a k = m k" by (rule fades_same [OF assms(2) ab(1) assms(3)])
  have "volatile a k = volatile m k" using a by (simp add: volatile_def)
  then have "\<not> volatile b k" using on_volatile [of k f a] ab(4) assms(3) by blast
  have "m' k = b k" by (rule fades_same [OF assms(2) ab(5)]) fact
  then have "look m' k = look b k" "volatile m' k = volatile b k" by (rule look_local, simp add: volatile_def)
  moreover have "look b k = Some (f t)" using look_on [OF ab(2)] ab(4) by simp
  moreover have "look m k = Some t" using look_local [of a k m, OF a] ab(2) by simp
  ultimately show ?thesis using ab(3) \<open>\<not> volatile b k\<close> by auto
qed

lemma kept_change:
  assumes "implements D (write_op look put k res f) m (Inr x) m1" and "implements D (read_op look k res') m1 (Inr y) m2"
    and "fades D k" and "\<not> volatile m k"
  shows "\<exists>t. look m k = Some t \<and> x = res t \<and> y = res' (f t)"
  using kept_write [OF assms(1,3,4)] kept_read [OF assms(2,3)] by auto

lemma write_unheard: "on look put k f m = m \<or> (\<exists>r. write_op look put k res f m r (on look put k f m))"
  by (cases "look m k") (auto simp: write_op_def on_def)

end

section \<open>A server to evaluate on\<close>

text \<open>The bare keyspace as the world; requests whose replies the sample conversions cannot read are refused.\<close>

definition text_reply :: "bytes option option \<Rightarrow> driver_error + reply_value" where
  "text_reply found =
     (case found of None \<Rightarrow> Inl bad_reply | Some None \<Rightarrow> Inr NilValue | Some (Some b) \<Rightarrow> Inr (BulkString b))"

definition count_reply :: "('t \<Rightarrow> int) \<Rightarrow> 't option \<Rightarrow> driver_error + reply_value" where
  "count_reply f t = (case t of None \<Rightarrow> Inl bad_reply | Some t \<Rightarrow> Inr (IntValue (f t)))"

fun key_reply :: "string \<Rightarrow> string \<Rightarrow> arg list \<Rightarrow> db \<Rightarrow> driver_error + reply_value" where
  "key_reply name k [] m =
     (if name = ''get'' then text_reply (text_at m k)
      else if name = ''del'' \<or> name = ''exists'' then Inr (IntValue (of_bool (m k \<noteq> None)))
      else if name = ''lpop'' then text_reply (map_option front (list_at m k))
      else Inl bad_reply)"
| "key_reply name k [Bytes x] m =
     (if name = ''set'' then Inr OkayValue
      else if name = ''lpush'' \<or> name = ''rpush'' then count_reply (\<lambda>xs. int (length xs) + 1) (list_at m k)
      else if name = ''sadd'' then count_reply (\<lambda>A. of_bool (x \<notin> A)) (set_at m k)
      else if name = ''srem'' \<or> name = ''sismember'' then count_reply (\<lambda>A. of_bool (x \<in> A)) (set_at m k)
      else Inl bad_reply)"
| "key_reply name k [Bytes x, Number n] m = Inr OkayValue"
| "key_reply name k [Number d] m =
     (case counter m k of Some n \<Rightarrow> if fits_i64 (n + d) then Inr (IntValue (n + d)) else Inl bad_reply | None \<Rightarrow> Inl bad_reply)"
| "key_reply name k [Text f] m = text_reply (map_option (\<lambda>h. h f) (hash_at m k))"
| "key_reply name k [Text f, Bytes x] m = count_reply (\<lambda>h. of_bool (h f = None)) (hash_at m k)"
| "key_reply _ _ _ m = Inl bad_reply"

fun command_reply :: "string \<Rightarrow> string \<Rightarrow> arg list \<Rightarrow> db \<Rightarrow> driver_error + reply_value" where
  "command_reply name k [Number n] m =
     (if name = ''PEXPIRE'' then Inr (IntValue (of_bool (m k \<noteq> None))) else Inl bad_reply)"
| "command_reply name k [] m = Inr (IntValue (if m k = None then - 2 else if volatile m k then 7 else - 1))"
| "command_reply name k [Text t, nx, px, ms] m = Inr (if m k = None then OkayValue else NilValue)"
| "command_reply _ _ _ m = Inl bad_reply"

fun db_reply :: "request \<Rightarrow> db \<Rightarrow> driver_error + reply_value" where
  "db_reply (Method name (Text k # args)) m = key_reply name k args m"
| "db_reply (Method name [Many items]) m = (if name = ''mset'' then Inr OkayValue else Inl bad_reply)"
| "db_reply (Command name (Text k # args)) m = command_reply name k args m"
| "db_reply (Invoke script [k] (t # args)) m =
     (case text_at m k of None \<Rightarrow> Inl bad_reply | Some found \<Rightarrow> Inr (IntValue (of_bool (found = Some t))))"
| "db_reply (Pipe atomic cmds) m = (if list_all (\<lambda>c. snd (snd c)) cmds then Inr OkayValue else Inl bad_reply)"
| "db_reply _ m = Inl bad_reply"

definition db_env :: "db env" where
  "db_env =
     \<lparr>rt = \<lparr>rt_now = (\<lambda>m. (0, m)), rt_sleep = (\<lambda>_ m. m), rt_acquire = (\<lambda>_ m. (Permit, m)), rt_release = (\<lambda>m. m),
        rt_manager = (\<lambda>_ req budget m. (Some (db_reply req m, budget), db_step req m)),
        rt_cluster = (\<lambda>_ req budget m. (Some (db_reply req m, budget), db_step req m))\<rparr>,
      others = (\<lambda>_ p. p)\<rparr>"

lemma sample_reads:
  "as_int sample_conversions (IntValue n) = Inr n" "as_values sample_conversions v = Inr []"
  "as_unit sample_conversions v = Inr ()"
  "as_opt_string sample_conversions NilValue = Inr None" "as_opt_string sample_conversions OkayValue = Inr (Some ''OK'')"
  by (simp_all add: sample_conversions_def)

lemma dropped_replies: "list_all (\<lambda>c. snd (snd c)) cmds \<Longrightarrow> cmds_answer cv cmds m []"
  by (induction cmds arbitrary: m) auto

lemma key_reply_answers_1:
  assumes "key_reply name k [] m = Inr v"
  shows "key_answer sample_conversions name k [] m v"
  using assms
  by (cases "text_at m k"; cases "list_at m k"; auto simp: text_reply_def sample_conversions_def split: if_splits option.splits)
lemma key_reply_answers_2:
  assumes "key_reply name k [Bytes x] m = Inr v"
  shows "key_answer sample_conversions name k [Bytes x] m v"
proof -
  consider "name = ''set''" | "name \<in> {''lpush'', ''rpush''}" | "name = ''sadd''" | "name = ''srem''" | "name = ''sismember''"
    using assms by (metis insertI1 insertI2 Inl_Inr_False key_reply.simps(2))
  then show ?thesis
    by cases (use assms in \<open>cases "list_at m k"; cases "set_at m k"; force simp: count_reply_def sample_conversions_def\<close>)+
qed
lemma key_reply_answers_4:
  assumes "key_reply name k [Number d] m = Inr v"
  shows "key_answer sample_conversions name k [Number d] m v"
  using assms
  by (cases "counter m k"; auto simp: sample_reads split: if_splits)
lemma key_reply_answers_5:
  assumes "key_reply name k [Text f] m = Inr v"
  shows "key_answer sample_conversions name k [Text f] m v"
  using assms
  by (cases "hash_at m k"; auto simp: text_reply_def sample_conversions_def split: option.splits)
lemma key_reply_answers_6:
  assumes "key_reply name k [Text f, Bytes x] m = Inr v"
  shows "key_answer sample_conversions name k [Text f, Bytes x] m v"
  using assms
  by (cases "hash_at m k"; auto simp: count_reply_def sample_conversions_def)

lemma key_reply_answers: "key_reply name k args m = Inr v \<Longrightarrow> key_answer sample_conversions name k args m v"
  by (cases "(name, k, args, m)" rule: key_reply.cases)
    (auto simp del: key_answer.simps(1,2,4,5,8) key_reply.simps(1,2,4,5,6)
      intro: key_reply_answers_1 key_reply_answers_2 key_reply_answers_4 key_reply_answers_5 key_reply_answers_6)

lemma command_reply_answers:
  "command_reply name k args m = Inr v \<Longrightarrow> command_answer sample_conversions name k args m v"
  by (cases "(name, k, args, m)" rule: command_reply.cases) (auto simp: sample_reads split: if_splits)

lemma db_reply_answers: "db_reply req m = Inr v \<Longrightarrow> db_answer sample_conversions req m v"
  by (cases "(req, m)" rule: db_reply.cases)
    (auto simp: key_reply_answers command_reply_answers sample_reads dropped_replies split: if_splits option.splits)

lemma db_env_server: "db_server (=) (\<lambda>m. m) sample_conversions (rt db_env)"
proof -
  have "honest db_request (=) (\<lambda>m. m) db_step (db_answer sample_conversions) (\<lambda>req budget m. (Some (db_reply req m, budget), db_step req m))"
    by (auto simp: honest_def db_reply_answers split: sum.splits)
  then show ?thesis
    by (simp add: db_server_def honest_runtime_def db_env_def inert_iff [unfolded inert_def] sample_reads)
qed

end
