(* ===== verification/Store.thy ===== *)
theory Store
  imports Database
begin

text \<open>
  What the key-value commands of a client mean: against a server that keeps a map from keys to values,
  every call of the client does what the operation of the same name does on that map, or fails and has
  done it or not. Holds through the pool, the deadlines and the retries, whatever else happens to the
  keys meanwhile.
\<close>

section \<open>The operations on the map\<close>

definition get_op :: "string \<Rightarrow> bytes option db_op" where
  "get_op k m r m' \<longleftrightarrow> m' = m \<and> (\<exists>found. text_at m k = Some found \<and> r = Inr found)"
definition set_op :: "string \<Rightarrow> bytes \<Rightarrow> unit db_op" where
  "set_op k v m r m' \<longleftrightarrow> r = Inr () \<and> m' = m(k \<mapsto> (Str v, False))"
definition set_ex_op :: "string \<Rightarrow> bytes \<Rightarrow> unit db_op" where
  "set_ex_op k v m r m' \<longleftrightarrow> r = Inr () \<and> m' = m(k \<mapsto> (Str v, True))"
definition del_op :: "string \<Rightarrow> bool db_op" where
  "del_op k m r m' \<longleftrightarrow> r = Inr (m k \<noteq> None) \<and> m' = m(k := None)"
definition exists_op :: "string \<Rightarrow> bool db_op" where
  "exists_op k m r m' \<longleftrightarrow> r = Inr (m k \<noteq> None) \<and> m' = m"
definition incr_op :: "string \<Rightarrow> int \<Rightarrow> int db_op" where
  "incr_op k d m r m' \<longleftrightarrow>
     (\<exists>n. counter m k = Some n \<and> fits_i64 (n + d) \<and> r = Inr (n + d) \<and> m' = m(k \<mapsto> (Str (show_int (n + d)), volatile m k)))"
definition expire_op :: "string \<Rightarrow> bool db_op" where
  "expire_op k m r m' \<longleftrightarrow> r = Inr (m k \<noteq> None) \<and> m' = touch k m"
definition ttl_op :: "string \<Rightarrow> duration option db_op" where
  "ttl_op k m r m' \<longleftrightarrow> m' = m \<and>
     (if m k = None then \<exists>x. r = Inl (Missing x) else \<exists>d. r = Inr d \<and> (d \<noteq> None \<longleftrightarrow> volatile m k))"
definition mget_op :: "string list \<Rightarrow> bytes option list db_op" where
  "mget_op ks m r m' \<longleftrightarrow> m' = m \<and> (\<exists>given. r = Inr given \<and> many_answer (map (text_or_nil m) ks) given)"
definition mset_op :: "(string \<times> bytes) list \<Rightarrow> unit db_op" where
  "mset_op items m r m' \<longleftrightarrow> r = Inr () \<and> m' = put_all items m"

lemmas op_defs = get_op_def set_op_def set_ex_op_def del_op_def exists_op_def incr_op_def expire_op_def
  ttl_op_def mget_op_def mset_op_def

section \<open>Every command\<close>

lemma mset_pairs: "map pair_of (map (\<lambda>(k, v). Many [Text k, Bytes v]) items) = items"
  by (induction items) auto

lemma add_to_cases:
  "add_to k d m = m \<or> (\<exists>n. counter m k = Some n \<and> fits_i64 (n + d) \<and>
     add_to k d m = m(k \<mapsto> (Str (show_int (n + d)), volatile m k)))"
  by (auto simp: add_to_def split: option.split)

lemma attempts_implement:
  assumes "db_server D obs cv (rt env)"
  shows "with_pool_conn env cl (kv_get cv key) s = (r1, s') \<Longrightarrow> implements D (get_op key) (obs (world s)) r1 (obs (world s'))"
    and "with_pool_conn env cl (kv_set cv key v) s = (r2, s') \<Longrightarrow> implements D (set_op key v) (obs (world s)) r2 (obs (world s'))"
    and "with_pool_conn env cl (kv_set_ex cv key v ttl) s = (r2, s') \<Longrightarrow> implements D (set_ex_op key v) (obs (world s)) r2 (obs (world s'))"
    and "with_pool_conn env cl (kv_del cv key) s = (r3, s') \<Longrightarrow> implements D (del_op key) (obs (world s)) r3 (obs (world s'))"
    and "with_pool_conn env cl (kv_exists cv key) s = (r3, s') \<Longrightarrow> implements D (exists_op key) (obs (world s)) r3 (obs (world s'))"
    and "with_pool_conn env cl (kv_incr cv key d) s = (r4, s') \<Longrightarrow> implements D (incr_op key d) (obs (world s)) r4 (obs (world s'))"
    and "with_pool_conn env cl (kv_expire cv key ttl) s = (r3, s') \<Longrightarrow> implements D (expire_op key) (obs (world s)) r3 (obs (world s'))"
    and "with_pool_conn env cl (kv_ttl cv key) s = (r5, s') \<Longrightarrow> implements D (ttl_op key) (obs (world s)) r5 (obs (world s'))"
    and "with_pool_conn env cl (mget_job cv keys) s = (r6, s') \<Longrightarrow> implements D (mget_op keys) (obs (world s)) r6 (obs (world s'))"
    and "with_pool_conn env cl (mset_job cv items) s = (r2, s') \<Longrightarrow> implements D (mset_op items) (obs (world s)) r2 (obs (world s'))"
proof -
  have h: "honest_runtime db_request D obs db_step (db_answer cv) (rt env)" and unit: "\<And>v. as_unit cv v = Inr ()"
    using assms by (simp_all add: db_server_def)
  note asked = ask_implements [OF h]
  show "with_pool_conn env cl (kv_get cv key) s = (r1, s') \<Longrightarrow> implements D (get_op key) (obs (world s)) r1 (obs (world s'))"
    unfolding kv_get_def by (erule asked) (auto simp: get_op_def elim: holdsE)
  show "with_pool_conn env cl (kv_set cv key v) s = (r2, s') \<Longrightarrow> implements D (set_op key v) (obs (world s)) r2 (obs (world s'))"
    unfolding kv_set_def by (erule asked) (simp_all add: set_op_def unit)
  show "with_pool_conn env cl (kv_set_ex cv key v ttl) s = (r2, s') \<Longrightarrow> implements D (set_ex_op key v) (obs (world s)) r2 (obs (world s'))"
    unfolding kv_set_ex_def
    by (cases "ttl_to_millis ttl") (auto simp: set_ex_op_def unit elim: done_implements [OF h] elim!: asked)
  show "with_pool_conn env cl (kv_del cv key) s = (r3, s') \<Longrightarrow> implements D (del_op key) (obs (world s)) r3 (obs (world s'))"
    unfolding kv_del_def by (erule asked) (simp_all add: del_op_def)
  show "with_pool_conn env cl (kv_exists cv key) s = (r3, s') \<Longrightarrow> implements D (exists_op key) (obs (world s)) r3 (obs (world s'))"
    unfolding kv_exists_def by (erule asked) (simp_all add: exists_op_def)
  show "with_pool_conn env cl (kv_incr cv key d) s = (r4, s') \<Longrightarrow> implements D (incr_op key d) (obs (world s)) r4 (obs (world s'))"
    unfolding kv_incr_def by (erule asked) (use add_to_cases in \<open>auto simp: incr_op_def add_to_def elim: holdsE\<close>)
  show "with_pool_conn env cl (kv_expire cv key ttl) s = (r3, s') \<Longrightarrow> implements D (expire_op key) (obs (world s)) r3 (obs (world s'))"
    unfolding kv_expire_def
    by (cases "and_then (ttl_to_millis ttl) (\<lambda>ms. ok_or (Config (Msg ''TTL too large'' [])) (try_i64 ms))")
      (auto simp: expire_op_def elim: done_implements [OF h] elim!: asked)
  show "with_pool_conn env cl (kv_ttl cv key) s = (r5, s') \<Longrightarrow> implements D (ttl_op key) (obs (world s)) r5 (obs (world s'))"
    unfolding kv_ttl_def by (erule asked) (auto simp: ttl_op_def read_pttl_def volatile_def split: if_splits)
  show "with_pool_conn env cl (mget_job cv keys) s = (r6, s') \<Longrightarrow> implements D (mget_op keys) (obs (world s)) r6 (obs (world s'))"
    unfolding mget_job_def by (erule asked) (auto simp: mget_op_def o_def)
  show "with_pool_conn env cl (mset_job cv items) s = (r2, s') \<Longrightarrow> implements D (mset_op items) (obs (world s)) r2 (obs (world s'))"
    unfolding mset_job_def by (erule asked) (simp_all add: mset_op_def unit mset_pairs del: map_map)
qed

lemma commands_implement:
  assumes "db_server D obs cv (rt env)"
  shows "client_get env cv cl key s = Some (r1, s') \<Longrightarrow> implements D (get_op key) (obs (world s)) r1 (obs (world s'))"
    and "client_exists env cv cl key s = Some (r3, s') \<Longrightarrow> implements D (exists_op key) (obs (world s)) r3 (obs (world s'))"
    and "client_ttl env cv cl key s = Some (r5, s') \<Longrightarrow> implements D (ttl_op key) (obs (world s)) r5 (obs (world s'))"
    and "client_mget env cv cl keys s = Some (r6, s') \<Longrightarrow> implements D (mget_op keys) (obs (world s)) r6 (obs (world s'))"
proof -
  note once = attempts_implement [OF assms] and routed = routed_implements [OF db_server_honest [OF assms]]
  show "client_get env cv cl key s = Some (r1, s') \<Longrightarrow> implements D (get_op key) (obs (world s)) r1 (obs (world s'))"
    unfolding client_get_def route_def get_once_def [abs_def]
    by (erule routed [rotated 2]) (use once(1) in \<open>simp_all add: get_op_def\<close>)
  show "client_exists env cv cl key s = Some (r3, s') \<Longrightarrow> implements D (exists_op key) (obs (world s)) r3 (obs (world s'))"
    unfolding client_exists_def route_def exists_once_def [abs_def]
    by (erule routed [rotated 2]) (use once(5) in \<open>simp_all add: exists_op_def\<close>)
  show "client_ttl env cv cl key s = Some (r5, s') \<Longrightarrow> implements D (ttl_op key) (obs (world s)) r5 (obs (world s'))"
    unfolding client_ttl_def route_def ttl_once_def [abs_def]
    by (erule routed [rotated 2]) (use once(8) in \<open>simp_all add: ttl_op_def\<close>)
  show "client_mget env cv cl keys s = Some (r6, s') \<Longrightarrow> implements D (mget_op keys) (obs (world s)) r6 (obs (world s'))"
  proof (cases "keys = []")
    case False
    assume run: "client_mget env cv cl keys s = Some (r6, s')"
    have "implements D (mget_op keys) (obs (world u)) r (obs (world u'))" if "mget_once env cv cl keys u = (r, u')" for u r u'
      using that False once(9) by (simp add: mget_once_def)
    from routed [OF _ this] run False show ?thesis by (simp add: client_mget_def route_def mget_op_def)
  next
    case True
    moreover assume "client_mget env cv cl keys s = Some (r6, s')"
    ultimately have "mget_op keys (obs (world s)) r6 (obs (world s'))"
      by (auto simp: client_mget_def mget_op_def many_answer_def)
    then show ?thesis by (rule implements_here [OF _ honest_drifts [OF db_server_honest [OF assms]]])
  qed
qed

lemmas written = client_set_def client_set_ex_def client_del_def client_incr_def client_expire_def client_mset_def
  set_once_def set_ex_once_def del_once_def incr_once_def expire_once_def mset_once_def route_def route_with_safety_def

lemma writes_implement:
  assumes "db_server D obs cv (rt env)"
  shows "client_set env cv cl key v s = Some (r2, s') \<Longrightarrow> implements D (set_op key v) (obs (world s)) r2 (obs (world s'))"
    and "client_set_ex env cv cl key v ttl s = Some (r2, s') \<Longrightarrow> implements D (set_ex_op key v) (obs (world s)) r2 (obs (world s'))"
    and "client_del env cv cl key s = Some (r3, s') \<Longrightarrow> implements D (del_op key) (obs (world s)) r3 (obs (world s'))"
    and "client_incr env cv cl key d s = Some (r4, s') \<Longrightarrow> implements D (incr_op key d) (obs (world s)) r4 (obs (world s'))"
    and "client_expire env cv cl key ttl s = Some (r3, s') \<Longrightarrow> implements D (expire_op key) (obs (world s)) r3 (obs (world s'))"
    and "client_mset env cv cl items s = Some (r2, s') \<Longrightarrow> implements D (mset_op items) (obs (world s)) r2 (obs (world s'))"
proof -
  note once = attempts_implement [OF assms]
  show "client_set env cv cl key v s = Some (r2, s') \<Longrightarrow> implements D (set_op key v) (obs (world s)) r2 (obs (world s'))"
    using once(2) by (simp add: written split: option.splits)
  show "client_set_ex env cv cl key v ttl s = Some (r2, s') \<Longrightarrow> implements D (set_ex_op key v) (obs (world s)) r2 (obs (world s'))"
    using once(3) by (simp add: written split: option.splits)
  show "client_del env cv cl key s = Some (r3, s') \<Longrightarrow> implements D (del_op key) (obs (world s)) r3 (obs (world s'))"
    using once(4) by (simp add: written split: option.splits)
  show "client_incr env cv cl key d s = Some (r4, s') \<Longrightarrow> implements D (incr_op key d) (obs (world s)) r4 (obs (world s'))"
    using once(6) by (simp add: written split: option.splits)
  show "client_expire env cv cl key ttl s = Some (r3, s') \<Longrightarrow> implements D (expire_op key) (obs (world s)) r3 (obs (world s'))"
    using once(7) by (simp add: written split: option.splits)
  show "client_mset env cv cl items s = Some (r2, s') \<Longrightarrow> implements D (mset_op items) (obs (world s)) r2 (obs (world s'))"
  proof (cases "items = []")
    case True
    moreover assume "client_mset env cv cl items s = Some (r2, s')"
    ultimately have "mset_op items (obs (world s)) r2 (obs (world s'))" by (auto simp: client_mset_def mset_op_def)
    then show ?thesis by (rule implements_here [OF _ honest_drifts [OF db_server_honest [OF assms]]])
  qed (use once(10) in \<open>simp add: written split: option.splits\<close>)
qed

lemma counter_written: "fits_i64 n \<Longrightarrow> counter (m(k \<mapsto> (Str (show_int n), e))) k = Some n"
  using parse_i64_show_int [of n] by (simp add: counter_def text_at_def fits_i64_def)

lemma put_all_other: "k \<notin> fst ` set items \<Longrightarrow> put_all items m k = m k"
  by (induction items m rule: put_all.induct) auto

lemma put_all_at: "distinct (map fst items) \<Longrightarrow> (k, v) \<in> set items \<Longrightarrow> put_all items m k = Some (Str v, False)"
proof (induction items m rule: put_all.induct)
  case (2 k' v' items m)
  show ?case
  proof (cases "(k, v) \<in> set items")
    case True
    with 2 show ?thesis by (simp del: fun_upd_apply)
  next
    case False
    with 2(3) have "k = k'" "v = v'" by auto
    with 2(2) show ?thesis by (simp add: put_all_other del: fun_upd_apply) simp
  qed
qed simp

section \<open>Counters that may expire\<close>

lemma counter_local: "a k = b k \<Longrightarrow> counter a k = counter b k"
  by (simp add: counter_def text_at_def)

lemma counter_missing: "a k = None \<Longrightarrow> counter a k = Some 0"
  by (simp add: counter_def text_at_def)

text \<open>An increment that follows an increment finds its sum, or an expired key.\<close>

lemma counter_faded:
  assumes "fades D k" and "D m a" and "D (a(k \<mapsto> (Str (show_int n), volatile a k))) a2" and "fits_i64 n" and "counter a2 k = Some c"
  shows "c = n \<or> volatile m k \<and> c = 0"
proof -
  let ?b = "a(k \<mapsto> (Str (show_int n), volatile a k))"
  from fadesD [OF assms(1,3)] show ?thesis
  proof (elim disjE conjE)
    assume at: "a2 k = ?b k"
    have "counter a2 k = Some n" using counter_local [of a2 k ?b, OF at] counter_written [OF assms(4)] by simp
    with assms(5) show ?thesis by simp
  next
    assume gone: "volatile ?b k" "a2 k = None"
    have "volatile a k" "c = 0" using assms(5) gone by (simp_all add: counter_missing volatile_def)
    moreover have "volatile m k" if "volatile a k"
      using fadesD [OF assms(1,2)] that by (auto simp: volatile_def split: option.splits)
    ultimately show ?thesis by simp
  qed
qed

section \<open>Properties\<close>

text \<open>
  C4. A client implements a map, atomically. Against a server that keeps its keyspace and executes a
  request once when it answers it, every key-value command of a client, with or without call deadline
  and retries, takes place at one moment of the call, with the result of its operation on the keyspace
  as it is then, or returns an error and the operation took place at one moment or not at all. This
  holds whatever else (\<open>D\<close>) happens to the keyspace meanwhile: other clients may write, keys expire.
\<close>

theorem client_implements_map:
  assumes "db_server D obs cv (rt env)"
  shows "(client_get env cv cl key s = Some (r1, s') \<longrightarrow> implements D (get_op key) (obs (world s)) r1 (obs (world s'))) \<and>
    (client_set env cv cl key v s = Some (r2, s') \<longrightarrow> implements D (set_op key v) (obs (world s)) r2 (obs (world s'))) \<and>
    (client_set_ex env cv cl key v ttl s = Some (r2, s') \<longrightarrow> implements D (set_ex_op key v) (obs (world s)) r2 (obs (world s'))) \<and>
    (client_del env cv cl key s = Some (r3, s') \<longrightarrow> implements D (del_op key) (obs (world s)) r3 (obs (world s'))) \<and>
    (client_exists env cv cl key s = Some (r3, s') \<longrightarrow> implements D (exists_op key) (obs (world s)) r3 (obs (world s'))) \<and>
    (client_incr env cv cl key d s = Some (r4, s') \<longrightarrow> implements D (incr_op key d) (obs (world s)) r4 (obs (world s'))) \<and>
    (client_expire env cv cl key ttl s = Some (r3, s') \<longrightarrow> implements D (expire_op key) (obs (world s)) r3 (obs (world s'))) \<and>
    (client_ttl env cv cl key s = Some (r5, s') \<longrightarrow> implements D (ttl_op key) (obs (world s)) r5 (obs (world s'))) \<and>
    (client_mget env cv cl keys s = Some (r6, s') \<longrightarrow> implements D (mget_op keys) (obs (world s)) r6 (obs (world s'))) \<and>
    (client_mset env cv cl items s = Some (r2, s') \<longrightarrow> implements D (mset_op items) (obs (world s)) r2 (obs (world s')))"
  by (intro conjI impI) (fact commands_implement [OF assms] writes_implement [OF assms])+

theorem client_implements_map_witness:
  "\<exists>r s'. client_incr db_env sample_conversions (client_with_retry default_retry from_pool) ''n'' 3
      \<lparr>world = [''n'' \<mapsto> (Str ''4'', False)], pool = sample_pool\<rparr> = Some (r, s') \<and>
    implements (=) (incr_op ''n'' 3) [''n'' \<mapsto> (Str ''4'', False)] r (world s')"
proof -
  let ?s = "\<lparr>world = [''n'' \<mapsto> (Str ''4'', False)], pool = sample_pool\<rparr>"
  let ?cl = "client_with_retry default_retry from_pool"
  obtain r s' where run: "client_incr db_env sample_conversions ?cl ''n'' 3 ?s = Some (r, s')"
    by (cases "with_pool_conn db_env ?cl (kv_incr sample_conversions ''n'' 3) ?s")
      (simp add: written client_with_retry_def)
  have "implements (=) (incr_op ''n'' 3) (world ?s) r (world s')"
    using client_implements_map [OF db_env_server, where cl = ?cl and key = "''n''" and d = 3 and s = ?s and ?r4.0 = r and s' = s']
      run by simp
  with run show ?thesis by simp
qed

text \<open>
  C19. Reads see writes. When a write of a client has succeeded and nobody else writes its key, the next
  call of any client on the key that succeeds sees it: the value that was set, or nothing if it was set
  with a time to live and has expired; nothing after a deletion; the sum after an increment, or a new
  count if the key could expire; and every one of several keys that were set together. What happens to
  other keys does not matter.
\<close>

theorem reads_see_writes:
  assumes "db_server D obs cv (rt env)" and "fades D key" and "\<forall>k \<in> fst ` set items. fades D k"
  shows "(client_set env cv cl key v s = Some (Inr (), s1) \<and> client_get env cv cl' key s1 = Some (Inr x, s2) \<longrightarrow>
      x = Some v) \<and>
    (client_set_ex env cv cl key v ttl s = Some (Inr (), s1) \<and> client_get env cv cl' key s1 = Some (Inr x, s2) \<longrightarrow>
      x = Some v \<or> x = None) \<and>
    (client_del env cv cl key s = Some (Inr was, s1) \<and> client_exists env cv cl' key s1 = Some (Inr now, s2) \<longrightarrow>
      \<not> now \<and> (was \<longrightarrow> obs (world s) key \<noteq> None)) \<and>
    (client_incr env cv cl key a s = Some (Inr n, s1) \<and> client_incr env cv cl' key b s1 = Some (Inr n', s2) \<longrightarrow>
      n' = n + b \<or> volatile (obs (world s)) key \<and> n' = b) \<and>
    (client_set_ex env cv cl key v ttl s = Some (Inr (), s1) \<and> client_ttl env cv cl' key s1 = Some (Inr left, s2) \<longrightarrow>
      left \<noteq> None) \<and>
    (client_mset env cv cl items s = Some (Inr (), s1) \<and> client_mget env cv cl' (map fst items) s1 = Some (Inr found, s2) \<and>
      distinct (map fst items) \<longrightarrow> found = map (Some \<circ> snd) items)"
proof (intro conjI impI; elim conjE)
  note writes = writes_implement [OF assms(1), THEN iffD1 [OF implements_Inr]]
  note reads = commands_implement [OF assms(1), THEN iffD1 [OF implements_Inr]]
  note stays = fades_stays [OF assms(2)] and missing = fades_missing [OF assms(2)] and may_go = fades_volatile [OF assms(2)]
  have trans: "D p r" if "D p q" "D q r" for p q r
    using drift_trans [OF honest_drifts [OF db_server_honest [OF assms(1)]]] that by blast
  { assume "client_set env cv cl key v s = Some (Inr (), s1)" "client_get env cv cl' key s1 = Some (Inr x, s2)"
    from writes(1) [OF this(1)] reads(1) [OF this(2)] obtain p q
      where "D (p(key \<mapsto> (Str v, False))) q" "text_at q key = Some x"
      by (auto simp: set_op_def get_op_def intro: trans)
    with stays show "x = Some v" by (fastforce simp: text_at_def) }
  { assume "client_set_ex env cv cl key v ttl s = Some (Inr (), s1)" "client_get env cv cl' key s1 = Some (Inr x, s2)"
    from writes(2) [OF this(1)] reads(1) [OF this(2)] obtain p q
      where "D (p(key \<mapsto> (Str v, True))) q" "text_at q key = Some x"
      by (auto simp: set_ex_op_def get_op_def intro: trans)
    with may_go show "x = Some v \<or> x = None" by (fastforce simp: text_at_def) }
  { assume "client_del env cv cl key s = Some (Inr was, s1)" "client_exists env cv cl' key s1 = Some (Inr now, s2)"
    from writes(3) [OF this(1)] reads(2) [OF this(2)] obtain p q
      where pq: "D (obs (world s)) p" "was = (p key \<noteq> None)" "D (p(key := None)) q" "now = (q key \<noteq> None)"
      by (auto simp: del_op_def exists_op_def intro: trans)
    show "\<not> now" using missing [OF pq(3)] pq(4) by simp
    show "obs (world s) key \<noteq> None" if was using missing [OF pq(1)] pq(2) that by blast }
  { assume "client_incr env cv cl key a s = Some (Inr n, s1)" "client_incr env cv cl' key b s1 = Some (Inr n', s2)"
    from writes(4) [OF this(1)] writes_implement(4) [OF assms(1) this(2)] obtain p q c
      where "D (obs (world s)) p" "D (p(key \<mapsto> (Str (show_int n), volatile p key))) q" "fits_i64 n"
        "counter q key = Some c" "n' = c + b"
      by (auto simp: incr_op_def implements_Inr intro: trans)
    with counter_faded [OF assms(2)] show "n' = n + b \<or> volatile (obs (world s)) key \<and> n' = b" by fastforce }
  { assume "client_set_ex env cv cl key v ttl s = Some (Inr (), s1)" "client_ttl env cv cl' key s1 = Some (Inr left, s2)"
    from writes(2) [OF this(1)] reads(3) [OF this(2)] obtain p q
      where "D (p(key \<mapsto> (Str v, True))) q" "q key \<noteq> None" "left \<noteq> None \<longleftrightarrow> volatile q key"
      by (auto simp: set_ex_op_def ttl_op_def intro: trans split: if_splits)
    with may_go show "left \<noteq> None" by (fastforce simp: volatile_def) }
  { assume "client_mset env cv cl items s = Some (Inr (), s1)" "client_mget env cv cl' (map fst items) s1 = Some (Inr found, s2)"
      and dist: "distinct (map fst items)"
    from writes(6) [OF this(1)] reads(4) [OF this(2)] obtain p q
      where pq: "D (put_all items p) q" "many_answer (map (text_or_nil q) (map fst items)) found"
      by (auto simp: mset_op_def mget_op_def simp del: map_map intro: trans)
    have "text_or_nil q k = Some x" if "(k, x) \<in> set items" for k x
    proof -
      have "fades D k" using assms(3) that by force
      from fades_stays [OF this pq(1) put_all_at [OF dist that]] show ?thesis by (simp add: text_or_nil_def text_at_def)
    qed
    then have "map (text_or_nil q) (map fst items) = map (Some \<circ> snd) items" by auto
    with pq(2) show "found = map (Some \<circ> snd) items" by (auto simp: many_answer_def) }
qed

theorem reads_see_writes_witness:
  "\<exists>s1 x s2. client_set db_env sample_conversions from_pool ''k'' ''v'' \<lparr>world = Map.empty, pool = sample_pool\<rparr> = Some (Inr (), s1) \<and>
     client_get db_env sample_conversions from_pool ''k'' s1 = Some (Inr x, s2) \<and> x = Some ''v''"
proof -
  let ?s = "\<lparr>world = Map.empty :: db, pool = sample_pool\<rparr>"
  note run_defs = with_pool_conn_def with_conn_def run_def on_lane_def acquire_def acquire_with_timeout_def from_pool_def
    db_env_def sample_pool_def pool_simps await_def read_clock_def execute_with_budget_def run_timed_def ask_def
    drop_permit_def release_def from_secs_def sample_conversions_def
  obtain s1 where set: "with_pool_conn db_env from_pool (kv_set sample_conversions ''k'' ''v'') ?s = (Inr (), s1)"
    by (simp add: run_defs kv_set_def)
  obtain x s2 where get: "with_pool_conn db_env from_pool (kv_get sample_conversions ''k'') s1 = (Inr x, s2)"
    using set by (auto simp: run_defs kv_set_def kv_get_def text_at_def text_reply_def)
  have "client_set db_env sample_conversions from_pool ''k'' ''v'' ?s = Some (Inr (), s1)"
    "client_get db_env sample_conversions from_pool ''k'' s1 = Some (Inr x, s2)"
    using set get by (simp_all add: written client_get_def get_once_def from_pool_def)
  moreover from this have "x = Some ''v''"
    using reads_see_writes [OF db_env_server fades_eq, where items = "[]" and cl = from_pool and cl' = from_pool
        and key = "''k''" and v = "''v''" and s = ?s and ?s1.0 = s1 and x = x and ?s2.0 = s2] by simp
  ultimately show ?thesis by blast
qed

end
