(* ===== verification/Data_Store.thy ===== *)
theory Data_Store
  imports Database Structures
begin

text \<open>
  What the commands on hashes, lists, sets and sorted sets mean: against a server with a keyspace each of
  them is the operation of the data type it is named after, on the collection of its key; a call that
  fails has done it or not, and on a key of another type no call succeeds.
\<close>

section \<open>The operations of the data types\<close>

definition hset_op :: "string \<Rightarrow> string \<Rightarrow> bytes \<Rightarrow> bool db_op" where
  "hset_op k f v = write_op hash_at put_hash k (\<lambda>h. h f = None) (\<lambda>h. h(f \<mapsto> v))"
definition hget_op :: "string \<Rightarrow> string \<Rightarrow> bytes option db_op" where
  "hget_op k f = read_op hash_at k (\<lambda>h. h f)"
definition hdel_op :: "string \<Rightarrow> string list \<Rightarrow> int db_op" where
  "hdel_op k fs m r m' \<longleftrightarrow>
     (if fs = [] then r = Inr 0 \<and> m' = m
      else write_op hash_at put_hash k (\<lambda>h. int (card (dom h \<inter> set fs))) (\<lambda>h. h |` (- set fs)) m r m')"
definition hgetall_op :: "string \<Rightarrow> (string \<times> bytes) list db_op" where
  "hgetall_op k m r m' \<longleftrightarrow> m' = m \<and>
     (\<exists>pairs. hash_at m k = Some (map_of pairs) \<and> distinct (map fst pairs) \<and> r = Inr pairs)"

definition lpush_op :: "string \<Rightarrow> bytes \<Rightarrow> int db_op" where
  "lpush_op k v = write_op list_at put_list k (\<lambda>xs. int (length xs) + 1) ((#) v)"
definition rpush_op :: "string \<Rightarrow> bytes \<Rightarrow> int db_op" where
  "rpush_op k v = write_op list_at put_list k (\<lambda>xs. int (length xs) + 1) (\<lambda>xs. xs @ [v])"
definition lpop_op :: "string \<Rightarrow> bytes option db_op" where
  "lpop_op k = write_op list_at put_list k front tl"
definition lrange_op :: "string \<Rightarrow> int \<Rightarrow> int \<Rightarrow> bytes list db_op" where
  "lrange_op k start stop = read_op list_at k (list_slice start stop)"
definition blpop_op :: "string \<Rightarrow> (string \<times> bytes) option db_op" where
  "blpop_op k = write_op list_at put_list k (\<lambda>xs. map_option (Pair k) (front xs)) tl"

definition sadd_op :: "string \<Rightarrow> bytes \<Rightarrow> int db_op" where
  "sadd_op k v = write_op set_at put_set k (\<lambda>A. of_bool (v \<notin> A)) (insert v)"
definition sismember_op :: "string \<Rightarrow> bytes \<Rightarrow> bool db_op" where
  "sismember_op k v = read_op set_at k (\<lambda>A. v \<in> A)"
definition srem_op :: "string \<Rightarrow> bytes \<Rightarrow> int db_op" where
  "srem_op k v = write_op set_at put_set k (\<lambda>A. of_bool (v \<in> A)) (\<lambda>A. A - {v})"

text \<open>The server refuses a score that is not a number.\<close>

definition zadd_op :: "string \<Rightarrow> bytes \<Rightarrow> f64 \<Rightarrow> int db_op" where
  "zadd_op k v x m r m' \<longleftrightarrow> x \<noteq> NaN \<and>
     write_op scores_at put_scores k (\<lambda>z. of_bool (z v = None)) (\<lambda>z. z(v \<mapsto> x)) m r m'"
definition zscore_op :: "string \<Rightarrow> bytes \<Rightarrow> f64 option db_op" where
  "zscore_op k v = read_op scores_at k (\<lambda>z. z v)"
definition zrem_op :: "string \<Rightarrow> bytes \<Rightarrow> int db_op" where
  "zrem_op k v = write_op scores_at put_scores k (\<lambda>z. of_bool (z v \<noteq> None)) (\<lambda>z. z(v := None))"

section \<open>Every command\<close>

lemma read_sound: "holds (look m k) (\<lambda>t. r = Inr (res t)) \<Longrightarrow> read_op look k res m r m"
  by (auto simp: read_op_def elim: holdsE)

lemma write_sound: "holds (look m k) (\<lambda>t. r = Inr (res t)) \<Longrightarrow> write_op look put k res f m r (on look put k f m)"
  by (auto simp: write_op_def elim: holdsE)

lemma holds_mono: "holds t P \<Longrightarrow> (\<And>x. P x \<Longrightarrow> Q x) \<Longrightarrow> holds t Q"
  by (auto simp: holds_def split: option.splits)

lemma hash_commands_implement:
  assumes "db_server D obs cv (rt env)"
  shows "hset env cv cl key f v s = (r1, s') \<Longrightarrow> implements D (hset_op key f v) (obs (world s)) r1 (obs (world s'))"
    and "hget env cv cl key f s = (r2, s') \<Longrightarrow> implements D (hget_op key f) (obs (world s)) r2 (obs (world s'))"
    and "hdel env cv cl key fs s = (r3, s') \<Longrightarrow> implements D (hdel_op key fs) (obs (world s)) r3 (obs (world s'))"
    and "hgetall env cv cl key s = (r4, s') \<Longrightarrow> implements D (hgetall_op key) (obs (world s)) r4 (obs (world s'))"
proof -
  note asked = ask_implements [OF db_server_honest [OF assms]]
  show "hset env cv cl key f v s = (r1, s') \<Longrightarrow> implements D (hset_op key f v) (obs (world s)) r1 (obs (world s'))"
    unfolding hset_def hset_job_def hset_op_def
    by (erule asked) (use hashes.write_unheard in \<open>auto intro!: write_sound elim!: holds_mono\<close>)
  show "hget env cv cl key f s = (r2, s') \<Longrightarrow> implements D (hget_op key f) (obs (world s)) r2 (obs (world s'))"
    unfolding hget_def hget_job_def hget_op_def
    by (erule asked) (auto intro!: read_sound elim!: holds_mono)
  show "hdel env cv cl key fs s = (r3, s') \<Longrightarrow> implements D (hdel_op key fs) (obs (world s)) r3 (obs (world s'))"
  proof (cases "fs = []")
    case False
    assume "hdel env cv cl key fs s = (r3, s')"
    then have "with_pool_conn env cl (hdel_job cv key fs) s = (r3, s')" using False by (simp add: hdel_def)
    then show ?thesis unfolding hdel_job_def
      by (rule asked) (use hashes.write_unheard False in \<open>auto simp: hdel_op_def o_def intro!: write_sound elim!: holds_mono\<close>)
  next
    case True
    moreover assume "hdel env cv cl key fs s = (r3, s')"
    ultimately have "hdel_op key fs (obs (world s)) r3 (obs (world s'))" by (simp add: hdel_def hdel_op_def)
    then show ?thesis by (rule implements_here [OF _ honest_drifts [OF db_server_honest [OF assms]]])
  qed
  show "hgetall env cv cl key s = (r4, s') \<Longrightarrow> implements D (hgetall_op key) (obs (world s)) r4 (obs (world s'))"
    unfolding hgetall_def hgetall_job_def
    by (erule asked) (auto simp: hgetall_op_def elim!: holdsE)
qed

lemma list_commands_implement:
  assumes "db_server D obs cv (rt env)"
  shows "lpush env cv cl key v s = (r1, s') \<Longrightarrow> implements D (lpush_op key v) (obs (world s)) r1 (obs (world s'))"
    and "rpush env cv cl key v s = (r1, s') \<Longrightarrow> implements D (rpush_op key v) (obs (world s)) r1 (obs (world s'))"
    and "lpop env cv cl key s = (r2, s') \<Longrightarrow> implements D (lpop_op key) (obs (world s)) r2 (obs (world s'))"
    and "lrange env cv cl key start stop s = (r3, s') \<Longrightarrow> implements D (lrange_op key start stop) (obs (world s)) r3 (obs (world s'))"
proof -
  note asked = ask_implements [OF db_server_honest [OF assms]]
  show "lpush env cv cl key v s = (r1, s') \<Longrightarrow> implements D (lpush_op key v) (obs (world s)) r1 (obs (world s'))"
    unfolding lpush_def lpush_job_def lpush_op_def
    by (erule asked) (use lists.write_unheard in \<open>auto intro!: write_sound elim!: holds_mono\<close>)
  show "rpush env cv cl key v s = (r1, s') \<Longrightarrow> implements D (rpush_op key v) (obs (world s)) r1 (obs (world s'))"
    unfolding rpush_def rpush_job_def rpush_op_def
    by (erule asked) (use lists.write_unheard in \<open>auto intro!: write_sound elim!: holds_mono\<close>)
  show "lpop env cv cl key s = (r2, s') \<Longrightarrow> implements D (lpop_op key) (obs (world s)) r2 (obs (world s'))"
    unfolding lpop_def lpop_job_def lpop_op_def
    by (erule asked) (use lists.write_unheard in \<open>auto intro!: write_sound elim!: holds_mono\<close>)
  show "lrange env cv cl key start stop s = (r3, s') \<Longrightarrow> implements D (lrange_op key start stop) (obs (world s)) r3 (obs (world s'))"
    unfolding lrange_def lrange_job_def lrange_op_def
    by (erule asked) (auto intro!: read_sound elim!: holds_mono)
qed

lemma set_commands_implement:
  assumes "db_server D obs cv (rt env)"
  shows "sadd env cv cl key v s = (r1, s') \<Longrightarrow> implements D (sadd_op key v) (obs (world s)) r1 (obs (world s'))"
    and "sismember env cv cl key v s = (r2, s') \<Longrightarrow> implements D (sismember_op key v) (obs (world s)) r2 (obs (world s'))"
    and "srem env cv cl key v s = (r1, s') \<Longrightarrow> implements D (srem_op key v) (obs (world s)) r1 (obs (world s'))"
    and "zadd env cv cl key v x s = (r1, s') \<Longrightarrow> implements D (zadd_op key v x) (obs (world s)) r1 (obs (world s'))"
    and "zscore env cv cl key v s = (r3, s') \<Longrightarrow> implements D (zscore_op key v) (obs (world s)) r3 (obs (world s'))"
    and "zrem env cv cl key v s = (r1, s') \<Longrightarrow> implements D (zrem_op key v) (obs (world s)) r1 (obs (world s'))"
proof -
  note asked = ask_implements [OF db_server_honest [OF assms]]
  show "sadd env cv cl key v s = (r1, s') \<Longrightarrow> implements D (sadd_op key v) (obs (world s)) r1 (obs (world s'))"
    unfolding sadd_def sadd_job_def sadd_op_def
    by (erule asked) (use sets.write_unheard in \<open>auto intro!: write_sound elim!: holds_mono simp del: of_bool_not_iff\<close>)
  show "sismember env cv cl key v s = (r2, s') \<Longrightarrow> implements D (sismember_op key v) (obs (world s)) r2 (obs (world s'))"
    unfolding sismember_def sismember_job_def sismember_op_def
    by (erule asked) (auto intro!: read_sound elim!: holds_mono)
  show "srem env cv cl key v s = (r1, s') \<Longrightarrow> implements D (srem_op key v) (obs (world s)) r1 (obs (world s'))"
    unfolding srem_def srem_job_def srem_op_def
    by (erule asked) (use sets.write_unheard in \<open>auto intro!: write_sound elim!: holds_mono\<close>)
  show "zadd env cv cl key v x s = (r1, s') \<Longrightarrow> implements D (zadd_op key v x) (obs (world s)) r1 (obs (world s'))"
    unfolding zadd_def zadd_job_def
    by (erule asked) (use scores.write_unheard in \<open>auto simp: zadd_op_def intro!: write_sound elim!: holds_mono\<close>)
  show "zscore env cv cl key v s = (r3, s') \<Longrightarrow> implements D (zscore_op key v) (obs (world s)) r3 (obs (world s'))"
    unfolding zscore_def zscore_job_def zscore_op_def
    by (erule asked) (auto intro!: read_sound elim!: holds_mono)
  show "zrem env cv cl key v s = (r1, s') \<Longrightarrow> implements D (zrem_op key v) (obs (world s)) r1 (obs (world s'))"
    unfolding zrem_def zrem_job_def zrem_op_def
    by (erule asked) (use scores.write_unheard in \<open>auto intro!: write_sound elim!: holds_mono\<close>)
qed

lemma blpop_implements:
  assumes "db_server D obs cv (rt env)" and "blpop env cv key timeout s = Some (r, s')"
  shows "implements D (blpop_op key) (obs (world s)) r (obs (world s'))"
proof -
  from assms(2) obtain b where "run env (Some b) (blpop_job cv key timeout) s = (r, s')"
    by (auto simp: blpop_def with_conn_budget_def)
  then have "ran_once D obs env (blpop_job cv key timeout) s r s'"
    by (rule run_ran [OF honest_drifts [OF db_server_honest [OF assms(1)]]])
  then show ?thesis
    unfolding blpop_job_def blpop_op_def
    by (rule ran_implements [OF db_server_honest [OF assms(1)]])
      (use lists.write_unheard in \<open>auto intro!: write_sound elim!: holds_mono\<close>)
qed

lemma zadd_writes: "zadd_op k v x m r m' \<Longrightarrow> write_op scores_at put_scores k (\<lambda>z. of_bool (z v = None)) (\<lambda>z. z(v \<mapsto> x)) m r m'"
  by (simp add: zadd_op_def)

lemma hdel_writes: "hdel_op k fs m r m' \<Longrightarrow> fs \<noteq> [] \<Longrightarrow>
    write_op hash_at put_hash k (\<lambda>h. int (card (dom h \<inter> set fs))) (\<lambda>h. h |` (- set fs)) m r m'"
  by (simp add: hdel_op_def)

section \<open>Queues\<close>

text \<open>One \<open>RPUSH\<close> after the other, and one \<open>LPOP\<close> after the other, as long as they succeed.\<close>

fun push_all :: "'w env \<Rightarrow> conversions \<Rightarrow> client \<Rightarrow> string \<Rightarrow> bytes list \<Rightarrow> 'w sys \<Rightarrow> 'w sys option" where
  "push_all env cv cl key [] s = Some s"
| "push_all env cv cl key (v # vs) s =
     (case rpush env cv cl key v s of (Inl _, _) \<Rightarrow> None | (Inr _, s) \<Rightarrow> push_all env cv cl key vs s)"

fun pop_times :: "'w env \<Rightarrow> conversions \<Rightarrow> client \<Rightarrow> string \<Rightarrow> nat \<Rightarrow> 'w sys \<Rightarrow> (bytes option list \<times> 'w sys) option" where
  "pop_times env cv cl key 0 s = Some ([], s)"
| "pop_times env cv cl key (Suc n) s =
     (case lpop env cv cl key s of
        (Inl _, _) \<Rightarrow> None
      | (Inr x, s) \<Rightarrow> map_option (\<lambda>(xs, s). (x # xs, s)) (pop_times env cv cl key n s))"

lemma push_all_list:
  assumes "db_server D obs cv (rt env)" and "fades D key"
  shows "push_all env cv cl key vs s = Some s' \<Longrightarrow> list_at (obs (world s)) key = Some xs \<Longrightarrow>
    \<not> volatile (obs (world s)) key \<Longrightarrow>
    list_at (obs (world s')) key = Some (xs @ vs) \<and> \<not> volatile (obs (world s')) key"
proof (induction vs arbitrary: s xs)
  case (Cons v vs)
  from Cons.prems(1) obtain n s1 where push: "rpush env cv cl key v s = (Inr n, s1)" "push_all env cv cl key vs s1 = Some s'"
    by (auto split: prod.splits sum.splits)
  from lists.kept_write [OF list_commands_implement(2) [OF assms(1) push(1), unfolded rpush_op_def] assms(2) Cons.prems(3)] Cons.prems(2)
  have "list_at (obs (world s1)) key = Some (xs @ [v])" "\<not> volatile (obs (world s1)) key" by auto
  from Cons.IH [OF push(2) this] show ?case by simp
qed simp

lemma pop_times_list:
  assumes "db_server D obs cv (rt env)" and "fades D key"
  shows "pop_times env cv cl key n s = Some (found, s') \<Longrightarrow> list_at (obs (world s)) key = Some xs \<Longrightarrow>
    \<not> volatile (obs (world s)) key \<Longrightarrow>
    found = map Some (take n xs) @ replicate (n - length xs) None \<and> list_at (obs (world s')) key = Some (drop n xs)"
proof (induction n arbitrary: s xs found)
  case (Suc n)
  from Suc.prems(1) obtain x rest s1 where pop: "lpop env cv cl key s = (Inr x, s1)"
      "pop_times env cv cl key n s1 = Some (rest, s')" "found = x # rest"
    by (auto split: prod.splits sum.splits)
  from lists.kept_write [OF list_commands_implement(3) [OF assms(1) pop(1), unfolded lpop_op_def] assms(2) Suc.prems(3)] Suc.prems(2)
  have "x = front xs" "list_at (obs (world s1)) key = Some (tl xs)" "\<not> volatile (obs (world s1)) key" by auto
  with Suc.IH [OF pop(2), of "tl xs"] pop(3) show ?case by (cases xs) (simp_all add: front_def)
qed simp

section \<open>Properties\<close>

text \<open>
  C5. The structures implement their data types. Against a server with a keyspace every command on a
  hash, list, set or sorted set has the result and the effect of its operation on the collection of
  its key, or returns an error and the operation took place or not; on a key of another type it
  returns an error. The blocking pop does so under its own budget.
\<close>

theorem structures_implement_data_types:
  assumes "db_server D obs cv (rt env)"
  shows "(hset env cv cl key f v s = (r1, s') \<longrightarrow> implements D (hset_op key f v) (obs (world s)) r1 (obs (world s'))) \<and>
    (hget env cv cl key f s = (r2, s') \<longrightarrow> implements D (hget_op key f) (obs (world s)) r2 (obs (world s'))) \<and>
    (hdel env cv cl key fs s = (r3, s') \<longrightarrow> implements D (hdel_op key fs) (obs (world s)) r3 (obs (world s'))) \<and>
    (hgetall env cv cl key s = (r4, s') \<longrightarrow> implements D (hgetall_op key) (obs (world s)) r4 (obs (world s'))) \<and>
    (lpush env cv cl key v s = (r3, s') \<longrightarrow> implements D (lpush_op key v) (obs (world s)) r3 (obs (world s'))) \<and>
    (rpush env cv cl key v s = (r3, s') \<longrightarrow> implements D (rpush_op key v) (obs (world s)) r3 (obs (world s'))) \<and>
    (lpop env cv cl key s = (r2, s') \<longrightarrow> implements D (lpop_op key) (obs (world s)) r2 (obs (world s'))) \<and>
    (lrange env cv cl key start stop s = (r5, s') \<longrightarrow> implements D (lrange_op key start stop) (obs (world s)) r5 (obs (world s'))) \<and>
    (blpop env cv key timeout s = Some (r6, s') \<longrightarrow> implements D (blpop_op key) (obs (world s)) r6 (obs (world s'))) \<and>
    (sadd env cv cl key v s = (r3, s') \<longrightarrow> implements D (sadd_op key v) (obs (world s)) r3 (obs (world s'))) \<and>
    (sismember env cv cl key v s = (r1, s') \<longrightarrow> implements D (sismember_op key v) (obs (world s)) r1 (obs (world s'))) \<and>
    (srem env cv cl key v s = (r3, s') \<longrightarrow> implements D (srem_op key v) (obs (world s)) r3 (obs (world s'))) \<and>
    (zadd env cv cl key v x s = (r3, s') \<longrightarrow> implements D (zadd_op key v x) (obs (world s)) r3 (obs (world s'))) \<and>
    (zscore env cv cl key v s = (r7, s') \<longrightarrow> implements D (zscore_op key v) (obs (world s)) r7 (obs (world s'))) \<and>
    (zrem env cv cl key v s = (r3, s') \<longrightarrow> implements D (zrem_op key v) (obs (world s)) r3 (obs (world s')))"
  by (intro conjI impI)
    (fact hash_commands_implement [OF assms] list_commands_implement [OF assms] set_commands_implement [OF assms]
      blpop_implements [OF assms])+

theorem structures_implement_data_types_witness:
  "\<exists>r s'. hset db_env sample_conversions from_pool ''h'' ''f'' ''v'' \<lparr>world = [''h'' \<mapsto> (Lst [''x''], False)], pool = sample_pool\<rparr>
       = (r, s') \<and> (\<exists>e. r = Inl e)"
proof -
  let ?s = "\<lparr>world = [''h'' \<mapsto> (Lst [''x''], False)] :: db, pool = sample_pool\<rparr>"
  obtain r s' where run: "hset db_env sample_conversions from_pool ''h'' ''f'' ''v'' ?s = (r, s')" by force
  with structures_implement_data_types [OF db_env_server, of from_pool "''h''" "''f''" "''v''" ?s r s']
  have "implements (=) (hset_op ''h'' ''f'' ''v'') [''h'' \<mapsto> (Lst [''x''], False)] r (world s')" by simp
  then have "\<exists>e. r = Inl e" by (auto simp: implements_def hset_op_def write_op_def hash_at_def)
  with run show ?thesis by blast
qed

text \<open>
  C20. A list is a queue. Let nobody else write the key, which has no time to live. When the pushes of some
  values at the right end have succeeded, the pops from the left end give what the list held before,
  then these values, in the order they were pushed, and nothing after the last; the range from 0 to -1
  is the whole list, and the last value pushed at the left end is the first to be popped.
\<close>

theorem list_is_a_queue:
  assumes "db_server D obs cv (rt env)" and "fades D key" and "\<not> volatile (obs (world s)) key"
    and "list_at (obs (world s)) key = Some xs" and "push_all env cv cl key vs s = Some s1"
  shows "(pop_times env cv cl' key n s1 = Some (found, s2) \<longrightarrow>
      found = map Some (take n (xs @ vs)) @ replicate (n - length (xs @ vs)) None \<and>
      list_at (obs (world s2)) key = Some (drop n (xs @ vs))) \<and>
    (lrange env cv cl' key 0 (- 1) s1 = (Inr ys, s3) \<longrightarrow> ys = xs @ vs) \<and>
    (lpush env cv cl' key v s1 = (Inr len, s4) \<and> lpop env cv cl' key s4 = (Inr x, s5) \<longrightarrow>
      len = int (length (xs @ vs)) + 1 \<and> x = Some v)"
proof (intro conjI [OF _ conjI] impI)
  note list = push_all_list [OF assms(1,2,5,4,3)]
  note ops = list_commands_implement [OF assms(1), of cl' key]
  show "found = map Some (take n (xs @ vs)) @ replicate (n - length (xs @ vs)) None \<and>
      list_at (obs (world s2)) key = Some (drop n (xs @ vs))" if "pop_times env cv cl' key n s1 = Some (found, s2)"
    by (rule pop_times_list [OF assms(1,2) that list [THEN conjunct1] list [THEN conjunct2]])
  show "ys = xs @ vs" if "lrange env cv cl' key 0 (- 1) s1 = (Inr ys, s3)"
    using lists.kept_read [OF ops(4) [OF that, unfolded lrange_op_def] assms(2)] list by (auto simp: list_slice_def)
  show "len = int (length (xs @ vs)) + 1 \<and> x = Some v"
    if "lpush env cv cl' key v s1 = (Inr len, s4) \<and> lpop env cv cl' key s4 = (Inr x, s5)"
  proof -
    from lists.kept_write [OF ops(1) [OF that [THEN conjunct1], unfolded lpush_op_def] assms(2)] list
    have "len = int (length (xs @ vs)) + 1" "list_at (obs (world s4)) key = Some (v # xs @ vs)"
      "\<not> volatile (obs (world s4)) key" by auto
    with lists.kept_write [OF ops(3) [OF that [THEN conjunct2], unfolded lpop_op_def] assms(2)]
    show ?thesis by (auto simp: front_def)
  qed
qed

theorem list_is_a_queue_witness:
  "\<exists>s1 found s2. push_all db_env sample_conversions from_pool ''q'' [''b''] \<lparr>world = [''q'' \<mapsto> (Lst [''a''], False)], pool = sample_pool\<rparr> = Some s1 \<and>
     pop_times db_env sample_conversions from_pool ''q'' 1 s1 = Some (found, s2) \<and> found = [Some ''a'']"
proof -
  let ?s = "\<lparr>world = [''q'' \<mapsto> (Lst [''a''], False)] :: db, pool = sample_pool\<rparr>"
  note run_defs = with_pool_conn_def with_conn_def run_def on_lane_def acquire_def acquire_with_timeout_def from_pool_def
    db_env_def sample_pool_def pool_simps await_def read_clock_def execute_with_budget_def run_timed_def ask_def
    drop_permit_def release_def from_secs_def sample_conversions_def
  have list: "list_at (world ?s) ''q'' = Some [''a'']" by (simp add: list_at_def)
  obtain n s1 where push: "rpush db_env sample_conversions from_pool ''q'' ''b'' ?s = (Inr n, s1)"
    by (simp add: rpush_def rpush_job_def run_defs count_reply_def list_at_def)
  then have all: "push_all db_env sample_conversions from_pool ''q'' [''b''] ?s = Some s1" by simp
  obtain x s2 where "lpop db_env sample_conversions from_pool ''q'' s1 = (Inr x, s2)"
    using push by (auto simp: rpush_def rpush_job_def lpop_def lpop_job_def run_defs count_reply_def text_reply_def
        list_at_def put_list_def on_def front_def)
  then have pop: "pop_times db_env sample_conversions from_pool ''q'' 1 s1 = Some ([x], s2)" by simp
  have "\<not> volatile (world ?s) ''q''" by (simp add: volatile_def)
  from list_is_a_queue [OF db_env_server fades_eq this list all, of from_pool 1 "[x]" s2] pop have "[x] = [Some ''a'']" by simp
  with all pop show ?thesis by blast
qed

text \<open>
  C21. Collections keep what is written. Let nobody else write the key, which has no time to live. When a write to a hash, a set or a sorted set has succeeded, the
  next successful read of any client sees the collection as it was before with just that change: the
  field that was set has the new value and every other field its old one, deleted fields are gone and
  were counted, a member is there exactly if it was added or there before, a score is the last one given.
\<close>

theorem collections_keep_what_is_written:
  assumes "db_server D obs cv (rt env)" and "fades D key" and "\<not> volatile (obs (world s)) key"
  shows "(hset env cv cl key f v s = (Inr fresh, s1) \<and> hget env cv cl' key g s1 = (Inr found, s2) \<longrightarrow>
      (\<exists>h. hash_at (obs (world s)) key = Some h \<and> fresh = (h f = None) \<and> found = (if g = f then Some v else h g))) \<and>
    (fs \<noteq> [] \<and> hdel env cv cl key fs s = (Inr n, s1) \<and> hgetall env cv cl' key s1 = (Inr pairs, s2) \<longrightarrow>
      (\<exists>h. hash_at (obs (world s)) key = Some h \<and> n = int (card (dom h \<inter> set fs)) \<and>
        map_of pairs = h |` (- set fs) \<and> distinct (map fst pairs))) \<and>
    (sadd env cv cl key v s = (Inr n, s1) \<and> sismember env cv cl' key w s1 = (Inr there, s2) \<longrightarrow>
      (\<exists>A. set_at (obs (world s)) key = Some A \<and> n = of_bool (v \<notin> A) \<and> there = (w = v \<or> w \<in> A))) \<and>
    (srem env cv cl key v s = (Inr n, s1) \<and> sismember env cv cl' key w s1 = (Inr there, s2) \<longrightarrow>
      (\<exists>A. set_at (obs (world s)) key = Some A \<and> n = of_bool (v \<in> A) \<and> there = (w \<in> A \<and> w \<noteq> v))) \<and>
    (zadd env cv cl key v x s = (Inr n, s1) \<and> zscore env cv cl' key w s1 = (Inr score, s2) \<longrightarrow>
      (\<exists>z. scores_at (obs (world s)) key = Some z \<and> n = of_bool (z v = None) \<and> score = (if w = v then Some x else z w))) \<and>
    (zrem env cv cl key v s = (Inr n, s1) \<and> zscore env cv cl' key w s1 = (Inr score, s2) \<longrightarrow>
      (\<exists>z. scores_at (obs (world s)) key = Some z \<and> n = of_bool (z v \<noteq> None) \<and> score = (if w = v then None else z w)))"
proof (intro conjI impI; elim conjE)
  note hash = hash_commands_implement [OF assms(1)] and members = set_commands_implement [OF assms(1)]
  note only = insert_iff Diff_iff singleton_iff empty_iff simp_thms fun_upd_apply
  { assume "hset env cv cl key f v s = (Inr fresh, s1)" "hget env cv cl' key g s1 = (Inr found, s2)"
    from hashes.kept_change [OF hash(1) [OF this(1), unfolded hset_op_def] hash(2) [OF this(2), unfolded hget_op_def] assms(2,3)]
    show "\<exists>h. hash_at (obs (world s)) key = Some h \<and> fresh = (h f = None) \<and> found = (if g = f then Some v else h g)"
      by auto }
  { assume "fs \<noteq> []" "hdel env cv cl key fs s = (Inr n, s1)" "hgetall env cv cl' key s1 = (Inr pairs, s2)"
    from hashes.kept_write [OF implements_mono [OF hash(3) [OF this(2)] hdel_writes] assms(2,3)] this(1)
    obtain h where h: "hash_at (obs (world s)) key = Some h" "n = int (card (dom h \<inter> set fs))"
        "hash_at (obs (world s1)) key = Some (h |` (- set fs))" "\<not> volatile (obs (world s1)) key"
      by blast
    from hash(4) [OF \<open>hgetall env cv cl' key s1 = _\<close>] obtain a where a: "D (obs (world s1)) a" "hash_at a key = Some (map_of pairs)" "distinct (map fst pairs)"
      by (auto simp: implements_Inr hgetall_op_def)
    have "hash_at a key = hash_at (obs (world s1)) key"
      by (rule hashes.look_local, rule fades_same [OF assms(2) a(1) h(4)])
    with h a show "\<exists>h. hash_at (obs (world s)) key = Some h \<and> n = int (card (dom h \<inter> set fs)) \<and>
        map_of pairs = h |` (- set fs) \<and> distinct (map fst pairs)" by simp }
  { assume "sadd env cv cl key v s = (Inr n, s1)" "sismember env cv cl' key w s1 = (Inr there, s2)"
    from sets.kept_change [OF members(1) [OF this(1), unfolded sadd_op_def] members(2) [OF this(2), unfolded sismember_op_def] assms(2,3)]
    show "\<exists>A. set_at (obs (world s)) key = Some A \<and> n = of_bool (v \<notin> A) \<and> there = (w = v \<or> w \<in> A)" by (simp only: only) }
  { assume "srem env cv cl key v s = (Inr n, s1)" "sismember env cv cl' key w s1 = (Inr there, s2)"
    from sets.kept_change [OF members(3) [OF this(1), unfolded srem_op_def] members(2) [OF this(2), unfolded sismember_op_def] assms(2,3)]
    show "\<exists>A. set_at (obs (world s)) key = Some A \<and> n = of_bool (v \<in> A) \<and> there = (w \<in> A \<and> w \<noteq> v)" by (simp only: only) }
  { assume "zadd env cv cl key v x s = (Inr n, s1)" "zscore env cv cl' key w s1 = (Inr score, s2)"
    from scores.kept_change [OF implements_mono [OF members(4) [OF this(1)] zadd_writes] members(5) [OF this(2), unfolded zscore_op_def] assms(2,3)]
    show "\<exists>z. scores_at (obs (world s)) key = Some z \<and> n = of_bool (z v = None) \<and> score = (if w = v then Some x else z w)" by (simp only: only) }
  { assume "zrem env cv cl key v s = (Inr n, s1)" "zscore env cv cl' key w s1 = (Inr score, s2)"
    from scores.kept_change [OF members(6) [OF this(1), unfolded zrem_op_def] members(5) [OF this(2), unfolded zscore_op_def] assms(2,3)]
    show "\<exists>z. scores_at (obs (world s)) key = Some z \<and> n = of_bool (z v \<noteq> None) \<and> score = (if w = v then None else z w)" by (simp only: only) }
qed

theorem collections_keep_what_is_written_witness:
  "\<exists>s1 found s2. hset db_env sample_conversions from_pool ''h'' ''f'' ''v'' \<lparr>world = Map.empty, pool = sample_pool\<rparr> = (Inr True, s1) \<and>
     hget db_env sample_conversions from_pool ''h'' ''f'' s1 = (Inr found, s2) \<and> found = Some ''v''"
proof -
  let ?s = "\<lparr>world = Map.empty :: db, pool = sample_pool\<rparr>"
  note run_defs = with_pool_conn_def with_conn_def run_def on_lane_def acquire_def acquire_with_timeout_def from_pool_def
    db_env_def sample_pool_def pool_simps await_def read_clock_def execute_with_budget_def run_timed_def ask_def
    drop_permit_def release_def from_secs_def sample_conversions_def
  obtain s1 where set: "hset db_env sample_conversions from_pool ''h'' ''f'' ''v'' ?s = (Inr True, s1)"
    by (simp add: hset_def hset_job_def run_defs count_reply_def hash_at_def)
  obtain found s2 where get: "hget db_env sample_conversions from_pool ''h'' ''f'' s1 = (Inr found, s2)"
    using set by (auto simp: hset_def hset_job_def hget_def hget_job_def run_defs count_reply_def text_reply_def
        hash_at_def put_hash_def on_def)
  have "\<not> volatile (world ?s) ''h''" by (simp add: volatile_def)
  from collections_keep_what_is_written [where obs = "\<lambda>m. m" and s = ?s, OF db_env_server fades_eq this, THEN conjunct1,
      rule_format, OF conjI [OF set get]]
  have "found = Some ''v''" by auto
  with set get show ?thesis by blast
qed

end
