(* ===== verification/Batch_Store.thy ===== *)
theory Batch_Store
  imports Database Transaction Ext
begin

text \<open>
  What batches mean: against a server with a keyspace a transaction, the batched \<open>SET\<close> on top of it and
  the pipelined \<open>SET\<close> take place as a whole or not at all, whatever becomes of the call.
\<close>

section \<open>Transactions on the keyspace\<close>

fun tx_step :: "tx_cmd \<Rightarrow> db \<Rightarrow> db" where
  "tx_step (TxSet key v) m = m(key \<mapsto> (Str v, False))"
| "tx_step (TxDel key) m = m(key := None)"
| "tx_step (TxIncr key) m = add_to key 1 m"

text \<open>What the reply to a command of a transaction says.\<close>

fun tx_says :: "conversions \<Rightarrow> tx_cmd \<Rightarrow> db \<Rightarrow> reply_value \<Rightarrow> bool" where
  "tx_says cv (TxSet key v) m x \<longleftrightarrow> True"
| "tx_says cv (TxDel key) m x \<longleftrightarrow> as_int cv x = Inr (of_bool (m key \<noteq> None))"
| "tx_says cv (TxIncr key) m x \<longleftrightarrow> (\<forall>n. counter m key = Some n \<and> fits_i64 (n + 1) \<longrightarrow> as_int cv x = Inr (n + 1))"

text \<open>One reply for each command, on what the commands before it left.\<close>

fun replies_say :: "conversions \<Rightarrow> tx_cmd list \<Rightarrow> db \<Rightarrow> reply_value list \<Rightarrow> bool" where
  "replies_say cv [] m xs \<longleftrightarrow> xs = []"
| "replies_say cv (c # cmds) m xs \<longleftrightarrow>
     (case xs of [] \<Rightarrow> False | x # rest \<Rightarrow> tx_says cv c m x \<and> replies_say cv cmds (tx_step c m) rest)"

text \<open>A transaction that took place; when its replies arrive they say what it did.\<close>

definition multi_op :: "conversions \<Rightarrow> tx_cmd list \<Rightarrow> reply_value list db_op" where
  "multi_op cv cmds m r m' \<longleftrightarrow> cmds \<noteq> [] \<and> m' = fold tx_step cmds m \<and> (\<forall>xs. r = Inr xs \<longrightarrow> replies_say cv cmds m xs)"

text \<open>Setting several keys, with a time to live or without.\<close>

fun put_many :: "bool \<Rightarrow> (string \<times> bytes) list \<Rightarrow> db \<Rightarrow> db" where
  "put_many e [] m = m"
| "put_many e ((k, v) # items) m = put_many e items (m(k \<mapsto> (Str v, e)))"

definition set_many_op :: "bool \<Rightarrow> (string \<times> bytes) list \<Rightarrow> unit db_op" where
  "set_many_op e items m r m' \<longleftrightarrow> r = Inr () \<and> m' = put_many e items m"

section \<open>Single batches\<close>

lemma tx_pipe_step: "cmd_step (tx_pipe_cmd c) = tx_step c"
  by (rule ext) (cases c; simp)

lemma fold_tx: "fold cmd_step (map tx_pipe_cmd cmds) m = fold tx_step cmds m"
  by (simp add: fold_map o_def tx_pipe_step)

lemma tx_answers: "cmds_answer cv (map tx_pipe_cmd cmds) m vs \<Longrightarrow> replies_say cv cmds m vs"
proof (induction cmds arbitrary: m vs)
  case (Cons c cmds)
  from Cons.prems obtain v rest where vs: "vs = v # rest" "cmd_answer cv (tx_pipe_cmd c) m v"
      "cmds_answer cv (map tx_pipe_cmd cmds) (tx_step c m) rest"
    by (cases c; cases vs) (auto simp: tx_pipe_step [symmetric])
  moreover have "tx_says cv c m v" using vs(2) by (cases c) auto
  ultimately show ?case using Cons.IH by simp
qed simp

lemma replies_say_length: "replies_say cv cmds m xs \<Longrightarrow> length xs = length cmds"
  by (induction cmds arbitrary: m xs) (auto split: list.splits)

lemma fold_sets: "fold tx_step (map (\<lambda>(key, v). TxSet key v) items) m = put_many False items m"
  by (induction items arbitrary: m) auto

lemma pipeline_step: "fold cmd_step (map (pipeline_cmd ttl) items) m = put_many (ttl \<noteq> None) items m"
  by (induction items arbitrary: m) (auto simp: pipeline_cmd_def split: option.split)

lemma batch_requests: "list_all cmd_request (map tx_pipe_cmd cmds)" "list_all cmd_request (map (pipeline_cmd ttl) items)"
proof -
  have "cmd_request (tx_pipe_cmd c)" for c by (cases c) simp_all
  then show "list_all cmd_request (map tx_pipe_cmd cmds)" by (simp add: list_all_iff)
  have "cmd_request (pipeline_cmd ttl item)" for item by (cases item) (simp add: pipeline_cmd_def split: option.split)
  then show "list_all cmd_request (map (pipeline_cmd ttl) items)" by (simp add: list_all_iff)
qed

lemma multi_exec_implements:
  assumes "db_server D obs cv (rt env)" and "multi_exec env cv cl cmds s = (r, s')"
  shows "implements D (multi_op cv cmds) (obs (world s)) r (obs (world s'))"
proof (cases "cmds = []")
  case True
  with assms(2) drift_refl [OF honest_drifts [OF db_server_honest [OF assms(1)]]] show ?thesis
    by (auto simp: multi_exec_def implements_def)
next
  case False
  with assms(2) have "with_pool_conn env cl (multi_job cv cmds) s = (r, s')" by (simp add: multi_exec_def)
  then show ?thesis unfolding multi_job_def
  proof (rule ask_implements [OF db_server_honest [OF assms(1)]])
    show "db_request (Pipe True (map tx_pipe_cmd cmds))" by (simp add: batch_requests)
  next
    fix m v assume "db_answer cv (Pipe True (map tx_pipe_cmd cmds)) m v"
    then show "multi_op cv cmds m (and_then (map_redis_result (as_values cv v)) Inr) (db_step (Pipe True (map tx_pipe_cmd cmds)) m)"
      using False by (auto simp: multi_op_def fold_tx dest: tx_answers)
  next
    fix m show "db_step (Pipe True (map tx_pipe_cmd cmds)) m = m \<or>
        (\<exists>r0. multi_op cv cmds m r0 (db_step (Pipe True (map tx_pipe_cmd cmds)) m))"
      using False by (auto simp: multi_op_def fold_tx)
  qed
qed

lemma multi_set_implements:
  assumes "db_server D obs cv (rt env)" and "multi_set env cv cl items s = (r, s')"
  shows "implements D (set_many_op False items) (obs (world s)) r (obs (world s'))"
proof (cases "items = []")
  case True
  with assms(2) have "set_many_op e items (obs (world s)) r (obs (world s'))" for e by (simp add: multi_set_def set_many_op_def)
  then show ?thesis by (rule implements_here [OF _ honest_drifts [OF db_server_honest [OF assms(1)]]])
next
  case False
  obtain r1 where m: "multi_exec env cv cl (map (\<lambda>(key, v). TxSet key v) items) s = (r1, s')" "r = map_ok (\<lambda>_. ()) r1"
    using assms(2) False by (auto simp: multi_set_def split: prod.splits)
  from multi_exec_implements [OF assms(1) m(1)] m(2) show ?thesis
    unfolding implements_def multi_op_def set_many_op_def fold_sets by (cases r1) auto
qed

lemma pipeline_set_implements:
  assumes "db_server D obs cv (rt env)" and "pipeline_set env cv cl items ttl s = (r, s')"
  shows "implements D (set_many_op (ttl \<noteq> None) items) (obs (world s)) r (obs (world s'))"
proof (cases "items = []")
  case True
  with assms(2) have "set_many_op e items (obs (world s)) r (obs (world s'))" for e by (simp add: pipeline_set_def set_many_op_def)
  then show ?thesis by (rule implements_here [OF _ honest_drifts [OF db_server_honest [OF assms(1)]]])
next
  case False
  consider e where "r = Inl e" "s' = s"
    | ttl_ms where "(ttl_ms \<noteq> None) = (ttl \<noteq> None)" "with_pool_conn env cl (pipeline_job cv ttl_ms items) s = (r, s')"
    using assms(2) False by (auto simp: pipeline_set_def map_ok_eq_Inr split: option.splits sum.splits)
  then show ?thesis
  proof cases
    case 1
    with drift_refl [OF honest_drifts [OF db_server_honest [OF assms(1)]]] show ?thesis by (simp add: implements_def)
  next
    case 2
    from 2(2) show ?thesis unfolding pipeline_job_def 
      by (rule ask_implements [OF db_server_honest [OF assms(1)]])
        (use 2(1) db_server_unit [OF assms(1)] in \<open>simp_all add: set_many_op_def pipeline_step batch_requests\<close>)
  qed
qed

lemma put_many_other: "k \<notin> fst ` set items \<Longrightarrow> put_many e items m k = m k"
  by (induction e items m rule: put_many.induct) auto

lemma put_many_last:
  "put_many e (before @ (k, v) # after) m k = Some (Str v, e)" if "k \<notin> fst ` set after"
  using that by (induction e before m rule: put_many.induct) (auto simp: put_many_other)

text \<open>A change \<open>f\<close> that has been made at one moment, or one that was made then or not at all.\<close>

definition took_place :: "('m \<Rightarrow> 'm \<Rightarrow> bool) \<Rightarrow> ('m \<Rightarrow> 'm) \<Rightarrow> 'm \<Rightarrow> 'm \<Rightarrow> bool" where
  "took_place D f m m' \<longleftrightarrow> (\<exists>a. D m a \<and> D (f a) m')"

definition whole_or_nothing :: "('m \<Rightarrow> 'm \<Rightarrow> bool) \<Rightarrow> ('m \<Rightarrow> 'm) \<Rightarrow> 'm \<Rightarrow> 'm \<Rightarrow> bool" where
  "whole_or_nothing D f m m' \<longleftrightarrow> D m m' \<or> took_place D f m m'"

lemma implemented_batch:
  assumes "implements D (set_many_op e items) m r m'"
  shows "whole_or_nothing D (put_many e items) m m' \<and> (is_ok r \<longrightarrow> took_place D (put_many e items) m m')"
  using assms by (cases r) (auto simp: implements_def set_many_op_def whole_or_nothing_def took_place_def)

section \<open>Properties\<close>

text \<open>
  C6. Batches take place as a whole or not at all. Whatever becomes of the call, and whatever else (\<open>D\<close>)
  happens to the data meanwhile, a transaction has either done nothing or executed all its commands in
  order at one moment; when it succeeds it has, and there is one reply for each command, saying what it
  did to what the commands before it left. The batched and the pipelined \<open>SET\<close> have set all keys at one
  moment or none, and all when they succeed: each key then holds the value given last for it, with a
  time to live exactly if one was given, and no other key is touched.
\<close>

theorem batches_are_atomic:
  assumes "db_server D obs cv (rt env)"
  shows "(multi_exec env cv cl cmds s = (r1, s') \<longrightarrow>
      whole_or_nothing D (fold tx_step cmds) (obs (world s)) (obs (world s')) \<and>
      (\<forall>xs. r1 = Inr xs \<longrightarrow> length xs = length cmds \<and>
         (\<exists>a. D (obs (world s)) a \<and> replies_say cv cmds a xs \<and> D (fold tx_step cmds a) (obs (world s'))))) \<and>
    (multi_set env cv cl items s = (r2, s') \<longrightarrow>
      whole_or_nothing D (put_many False items) (obs (world s)) (obs (world s')) \<and>
      (is_ok r2 \<longrightarrow> took_place D (put_many False items) (obs (world s)) (obs (world s')))) \<and>
    (pipeline_set env cv cl items ttl s = (r2, s') \<longrightarrow>
      whole_or_nothing D (put_many (ttl \<noteq> None) items) (obs (world s)) (obs (world s')) \<and>
      (is_ok r2 \<longrightarrow> took_place D (put_many (ttl \<noteq> None) items) (obs (world s)) (obs (world s')))) \<and>
    (k \<notin> fst ` set items \<longrightarrow> put_many e items m k = m k) \<and>
    (items = before @ (k, v) # after \<and> k \<notin> fst ` set after \<longrightarrow> put_many e items m k = Some (Str v, e))"
proof (intro conjI [OF _ conjI [OF _ conjI]] impI)
  assume "multi_exec env cv cl cmds s = (r1, s')"
  from multi_exec_implements [OF assms this]
  show "whole_or_nothing D (fold tx_step cmds) (obs (world s)) (obs (world s')) \<and>
      (\<forall>xs. r1 = Inr xs \<longrightarrow> length xs = length cmds \<and>
         (\<exists>a. D (obs (world s)) a \<and> replies_say cv cmds a xs \<and> D (fold tx_step cmds a) (obs (world s'))))"
    by (auto simp: implements_def multi_op_def whole_or_nothing_def took_place_def dest: replies_say_length)
qed (use implemented_batch [OF multi_set_implements [OF assms]] implemented_batch [OF pipeline_set_implements [OF assms]]
    put_many_other put_many_last in auto)

theorem batches_are_atomic_witness:
  "\<exists>r s'. pipeline_set db_env sample_conversions from_pool [(''a'', ''1''), (''b'', ''2'')] None \<lparr>world = Map.empty, pool = sample_pool\<rparr> = (r, s') \<and>
     (world s' = Map.empty \<or> world s' = [''a'' \<mapsto> (Str ''1'', False), ''b'' \<mapsto> (Str ''2'', False)])"
proof -
  let ?s = "\<lparr>world = Map.empty :: db, pool = sample_pool\<rparr>"
  let ?items = "[(''a'', ''1''), (''b'', ''2'')]"
  obtain r s' where run: "pipeline_set db_env sample_conversions from_pool ?items None ?s = (r, s')" by force
  from batches_are_atomic [OF db_env_server, of from_pool "[]" ?s undefined s' ?items r None, THEN conjunct2, THEN conjunct2, THEN conjunct1] run
  show ?thesis by (auto simp: whole_or_nothing_def took_place_def)
qed

end
