(* ===== verification/Lock_Store.thy ===== *)
theory Lock_Store
  imports Store
begin

text \<open>
  The lock on a server's keyspace, next to the other commands: its key is stored with a time to live, its
  fence counter is an ordinary counter, and the lock, other clients and expiry change the same keys.
\<close>

section \<open>The operations of the lock\<close>

definition claim_op :: "string \<Rightarrow> string \<Rightarrow> bool db_op" where
  "claim_op k t m r m' \<longleftrightarrow> r = Inr (m k = None) \<and> m' = (if m k = None then m(k \<mapsto> (Str t, True)) else m)"

definition script_op :: "string \<Rightarrow> string \<Rightarrow> string \<Rightarrow> bool db_op" where
  "script_op script k t m r m' \<longleftrightarrow>
     (\<exists>found. text_at m k = Some found \<and> r = Inr (found = Some t)) \<and> m' = script_step script k t m"

text \<open>Only the key that holds the token is deleted, or given a new time to live.\<close>

definition release_op :: "string \<Rightarrow> string \<Rightarrow> bool db_op" where
  "release_op k t m r m' \<longleftrightarrow>
     (\<exists>found. text_at m k = Some found \<and> r = Inr (found = Some t)) \<and>
     m' = (if text_at m k = Some (Some t) then m(k := None) else m)"

definition extend_op :: "string \<Rightarrow> string \<Rightarrow> bool db_op" where
  "extend_op k t m r m' \<longleftrightarrow>
     (\<exists>found. text_at m k = Some found \<and> r = Inr (found = Some t)) \<and>
     m' = (if text_at m k = Some (Some t) then m(k \<mapsto> (Str t, True)) else m)"

lemma scripts_differ: "EXTEND_LUA \<noteq> RELEASE_LUA"
  by (simp add: EXTEND_LUA_def RELEASE_LUA_def unlines_def)

lemma release_script: "script_op RELEASE_LUA = release_op"
  by (intro ext) (simp add: script_op_def release_op_def script_step_def)

lemma extend_script: "script_op EXTEND_LUA = extend_op"
proof (intro ext)
  fix k t m r m'
  have "touch k m = m(k \<mapsto> (Str t, True))" if "text_at m k = Some (Some t)"
    using that by (auto simp: touch_def text_at_def split: option.splits datum.splits)
  then show "script_op EXTEND_LUA k t m r m' = extend_op k t m r m'"
    by (simp add: script_op_def extend_op_def script_step_def scripts_differ)
qed

section \<open>Single requests\<close>

lemma claim_implements:
  assumes "db_server D obs cv (rt env)" and "with_pool_conn env cl (lock_set_job cv key t ms) s = (r, s')"
  shows "implements D (claim_op key t) (obs (world s)) r (obs (world s'))"
  using assms(2) unfolding lock_set_job_def
  by (rule ask_implements [OF db_server_honest [OF assms(1)]]) (auto simp: claim_op_def)

lemma number_implements:
  assumes "db_server D obs cv (rt env)" and "with_pool_conn env cl (fence_job cv key) s = (r, s')"
  shows "implements D (incr_op key 1) (obs (world s)) r (obs (world s'))"
  using assms(2) unfolding fence_job_def
  by (rule ask_implements [OF db_server_honest [OF assms(1)]])
    (use add_to_cases in \<open>auto simp: incr_op_def add_to_def elim: holdsE\<close>)

lemma script_implements:
  assumes "db_server D obs cv (rt env)" and "script \<in> {RELEASE_LUA, EXTEND_LUA}"
    and "positive_reply (eval_script env cl script [key] (t # args) s) = (r, s')"
  shows "implements D (script_op script key t) (obs (world s)) r (obs (world s'))"
proof -
  define op :: "reply_value db_op" where "op m v m' \<longleftrightarrow>
      (\<exists>found. text_at m key = Some found \<and> v = Inr (IntValue (of_bool (found = Some t)))) \<and> m' = script_step script key t m"
    for m v m'
  obtain v where v: "with_pool_conn env cl (script_job script [key] (t # args)) s = (v, s')"
      "r = and_then v (\<lambda>v. map_ok (\<lambda>n. 0 < n) (redis_value_as_i64 v))"
    using assms(2,3) script_not_blank by (cases "with_pool_conn env cl (script_job script [key] (t # args)) s")
      (auto simp: positive_reply_def eval_script_def)
  have "implements D op (obs (world s)) v (obs (world s'))"
    using v(1) unfolding script_job_def
  proof (rule ask_implements [OF db_server_honest [OF assms(1)]])
    show "db_request (Invoke script [key] (t # args))" using assms(2) by simp
  next
    fix m x assume "db_answer cv (Invoke script [key] (t # args)) m x"
    then show "op m (and_then (map_redis_result (as_value x)) Inr) (db_step (Invoke script [key] (t # args)) m)"
      by (cases "text_at m key") (simp_all add: op_def as_value_def)
  next
    fix m show "db_step (Invoke script [key] (t # args)) m = m \<or> (\<exists>r0. op m r0 (db_step (Invoke script [key] (t # args)) m))"
      by (cases "text_at m key") (simp_all add: op_def script_step_def)
  qed
  then show ?thesis
    by (cases v) (auto simp: v(2) implements_def op_def script_op_def)
qed

section \<open>Acquiring\<close>

definition fence_of :: "string \<Rightarrow> string" where
  "fence_of key = ''fence:'' @ key"

text \<open>
  The three moments of an acquisition that succeeds: the key was free and is stored, and its fence
  counter is advanced.
\<close>

definition acquired :: "(db \<Rightarrow> db \<Rightarrow> bool) \<Rightarrow> redis_lock \<Rightarrow> db \<Rightarrow> db \<Rightarrow> bool" where
  "acquired D lock m m' \<longleftrightarrow>
     (\<exists>a b n. D m a \<and> a (lk_key lock) = None \<and> D (a(lk_key lock \<mapsto> (Str (lk_token lock), True))) b \<and>
        incr_op (fence_of (lk_key lock)) 1 b (Inr (int (lk_fence lock))) n \<and> D n m')"

lemma acquire_answer:
  assumes "db_server D obs cv (rt env)" and "lock_acquire env cv cl nanos pid drawn key ttl s = (r, s')"
  shows "(\<exists>lock. r = Inr lock \<and> lk_key lock = key \<and> lk_token lock = fst (generate_lock_token nanos pid drawn) \<and>
      acquired D lock (obs (world s)) (obs (world s'))) \<or>
    (\<exists>e. r = Inl e) \<and> (D (obs (world s)) (obs (world s')) \<or> (\<exists>a. D (obs (world s)) a \<and> a key = None))"
proof -
  note drifts = honest_drifts [OF db_server_honest [OF assms(1)]]
  let ?tok = "fst (generate_lock_token nanos pid drawn)"
  from assms(2) show ?thesis
  proof (cases rule: acquire_guards)
    case early
    with drift_refl [OF drifts] show ?thesis by simp
  next
    case (called ms)
    obtain x s1 where x: "with_pool_conn env cl (lock_set_job cv key ?tok ms) s = (x, s1)" by force
    note claim = claim_implements [OF assms(1) x]
    show ?thesis
    proof (cases "x = Inr True")
      case False
      then have "\<exists>e. r = Inl e" "s' = s1"
        using assms(2) called x by (auto simp: lock_acquire_def Let_def split: sum.splits if_splits)
      moreover have "D (obs (world s)) (obs (world s1)) \<or> (\<exists>a. D (obs (world s)) a \<and> a key = None)"
      proof -
        from claim consider "D (obs (world s)) (obs (world s1))"
          | a b where "D (obs (world s)) a" "b = (if a key = None then a(key \<mapsto> (Str ?tok, True)) else a)" "D b (obs (world s1))"
          unfolding implements_def claim_op_def by blast
        then show ?thesis
        proof cases
          case (2 a b)
          then show ?thesis using drift_trans [OF drifts, OF 2(1)] by (cases "a key = None") auto
        qed simp
      qed
      ultimately show ?thesis by simp
    next
      case True
      with claim obtain a where a: "D (obs (world s)) a" "a key = None" "D (a(key \<mapsto> (Str ?tok, True))) (obs (world s1))"
        by (auto simp: implements_Inr claim_op_def)
      obtain f s2 where f: "with_pool_conn env cl (fence_job cv (fence_of key)) s1 = (f, s2)" by force
      show ?thesis
      proof (cases "\<exists>n. f = Inr n \<and> 0 \<le> n")
        case False
        then have "\<exists>e. r = Inl e"
          using assms(2) called x True f by (auto simp: lock_acquire_def Let_def fence_of_def split: sum.splits if_splits)
        with a show ?thesis by blast
      next
        case fence: True
        then obtain n where n: "f = Inr n" "0 \<le> n" by blast
        have r: "r = Inr \<lparr>lk_key = key, lk_token = ?tok, lk_fence = nat n\<rparr>" "s' = s2"
          using assms(2) called x True f n by (auto simp: lock_acquire_def Let_def fence_of_def)
        from number_implements [OF assms(1) f] n obtain b c where "D (obs (world s1)) b"
            "incr_op (fence_of key) 1 b (Inr n) c" "D c (obs (world s2))"
          by (auto simp: implements_Inr)
        with a n r drift_trans [OF drifts, OF a(3)] show ?thesis unfolding acquired_def by auto
      qed
    qed
  qed
qed

text \<open>Nobody deletes the key, and it does not expire.\<close>

definition stays :: "(db \<Rightarrow> db \<Rightarrow> bool) \<Rightarrow> string \<Rightarrow> bool" where
  "stays D k \<longleftrightarrow> (\<forall>a b. D a b \<longrightarrow> a k \<noteq> None \<longrightarrow> b k \<noteq> None)"

lemma staysD: "stays D k \<Longrightarrow> D a b \<Longrightarrow> a k \<noteq> None \<Longrightarrow> b k \<noteq> None"
  by (simp add: stays_def)

lemma acquiredE:
  assumes "acquired D lock m m'"
  obtains a b n where "D m a" "a (lk_key lock) = None" "D (a(lk_key lock \<mapsto> (Str (lk_token lock), True))) b"
    "n (fence_of (lk_key lock)) \<noteq> None" "b (lk_key lock) \<noteq> None \<Longrightarrow> n (lk_key lock) \<noteq> None" "D n m'"
proof -
  from assms obtain a b n where l: "D m a" "a (lk_key lock) = None" "D (a(lk_key lock \<mapsto> (Str (lk_token lock), True))) b"
      "incr_op (fence_of (lk_key lock)) 1 b (Inr (int (lk_fence lock))) n" "D n m'"
    unfolding acquired_def by blast
  from l(4) obtain v where n: "n = b(fence_of (lk_key lock) \<mapsto> v)" unfolding incr_op_def by blast
  show thesis by (rule that [OF l(1-3) _ _ l(5)]) (simp_all add: n)
qed

lemma acquired_stands:
  assumes "acquired D lock m m'" and "stays D (lk_key lock)"
  shows "m' (lk_key lock) \<noteq> None"
  using assms(1)
proof (rule acquiredE)
  fix a b n assume l: "D (a(lk_key lock \<mapsto> (Str (lk_token lock), True))) b" "b (lk_key lock) \<noteq> None \<Longrightarrow> n (lk_key lock) \<noteq> None"
    "D n m'"
  have "b (lk_key lock) \<noteq> None" by (rule staysD [OF assms(2) l(1)]) simp
  from staysD [OF assms(2) l(3) l(2) [OF this]] show ?thesis .
qed

lemma acquired_numbered:
  assumes "acquired D lock m m'" and "stays D (fence_of (lk_key lock))"
  shows "m' (fence_of (lk_key lock)) \<noteq> None"
  using assms(1) by (rule acquiredE) (rule staysD [OF assms(2)])

lemma held_refuses:
  assumes "db_server D obs cv (rt env)" and "lock_acquire env cv cl nanos pid drawn key ttl s = (r, s')"
    and "\<forall>a. D (obs (world s)) a \<longrightarrow> a key \<noteq> None"
  shows "(\<exists>e. r = Inl e) \<and> D (obs (world s)) (obs (world s'))"
  using acquire_answer [OF assms(1,2)]
proof (elim disjE exE conjE)
  fix lock assume "acquired D lock (obs (world s)) (obs (world s'))" "lk_key lock = key"
  from this(1) obtain a where "D (obs (world s)) a" "a (lk_key lock) = None" by (rule acquiredE)
  with assms(3) \<open>lk_key lock = key\<close> show ?thesis by blast
qed (use assms(3) in auto)

lemma standing_refuses:
  assumes "db_server D obs cv (rt env)" and "lock_acquire env cv cl nanos pid drawn key ttl s = (r, s')" and "stays D key"
  shows "obs (world s) key \<noteq> None \<Longrightarrow> \<exists>e. r = Inl e"
  using held_refuses [OF assms(1,2)] staysD [OF assms(3)] by blast

lemma release_implements:
  assumes "db_server D obs cv (rt env)" and "lock_release env cl lock s = (b, s')"
  shows "implements D (release_op (lk_key lock) (lk_token lock)) (obs (world s)) b (obs (world s'))"
  using script_implements [OF assms(1), of RELEASE_LUA] assms(2) by (simp add: lock_release_def release_script)

section \<open>Properties\<close>



text \<open>
  C25. Fence counters are in the way of locks. The counter of a lock is kept under the name \<open>fence:\<close>\<open>key\<close> and
  has no time to live: once a lock has been acquired the lock of that name can not be, not even after
  the first was released, for as long as nobody deletes the counter.
\<close>

theorem fence_counters_block_locks:
  assumes "db_server D obs cv (rt env)" and "stays D (''fence:'' @ key)"
    and "lock_acquire env cv cl nanos pid drawn key ttl s = (Inr lock, s1)"
  shows "(lock_acquire env cv cl' nanos' pid' drawn' (''fence:'' @ key) ttl' s1 = (r, s2) \<longrightarrow> (\<exists>e. r = Inl e)) \<and>
    (lock_release env cl lock s1 = (b, s2) \<and> lock_acquire env cv cl' nanos' pid' drawn' (''fence:'' @ key) ttl' s2 = (r, s3) \<longrightarrow>
      (\<exists>e. r = Inl e))"
proof (intro conjI impI; (elim conjE)?)
  have stays: "stays D (fence_of key)" using assms(2) by (simp add: fence_of_def)
  from acquire_answer [OF assms(1,3)] have lock: "acquired D lock (obs (world s)) (obs (world s1))" "lk_key lock = key" by auto
  with acquired_numbered stays have there: "obs (world s1) (fence_of key) \<noteq> None" by blast
  { assume "lock_acquire env cv cl' nanos' pid' drawn' (''fence:'' @ key) ttl' s1 = (r, s2)"
    note second = this [folded fence_of_def]
    from standing_refuses [OF assms(1) second stays] there show "\<exists>e. r = Inl e" by blast }
  { assume release: "lock_release env cl lock s1 = (b, s2)"
      and second: "lock_acquire env cv cl' nanos' pid' drawn' (''fence:'' @ key) ttl' s2 = (r, s3)"
    have kept: "c (fence_of key) \<noteq> None" if "release_op (lk_key lock) t a x c" "a (fence_of key) \<noteq> None" for t a x c
      using that lock(2) by (auto simp: release_op_def fence_of_def)
    from release_implements [OF assms(1) release] there have "obs (world s2) (fence_of key) \<noteq> None"
      unfolding implements_def by (metis kept staysD [OF stays])
    with standing_refuses [OF assms(1) second [folded fence_of_def] stays] show "\<exists>e. r = Inl e" by blast }
qed

theorem fence_counters_block_locks_witness:
  "\<exists>lock s1 e s2. lock_acquire db_env sample_conversions from_pool (Some 9) 1 0 ''job'' (from_secs 5)
      \<lparr>world = Map.empty, pool = sample_pool\<rparr> = (Inr lock, s1) \<and>
    lock_acquire db_env sample_conversions from_pool (Some 10) 1 1 ''fence:job'' (from_secs 5) s1 = (Inl e, s2)"
proof -
  let ?s = "\<lparr>world = Map.empty :: db, pool = sample_pool\<rparr>"
  note run_defs = with_pool_conn_def with_conn_def run_def on_lane_def acquire_def acquire_with_timeout_def from_pool_def
    db_env_def sample_pool_def pool_simps await_def read_clock_def execute_with_budget_def run_timed_def ask_def
    drop_permit_def release_def from_secs_def sample_conversions_def
  let ?tok = "fst (generate_lock_token (Some 9) 1 0)"
  have ttl: "ttl_millis_or ''lock TTL 0 or below 1ms'' ''lock TTL too large'' (from_secs 5) = Inr 5000"
    by (simp add: ttl_millis_or_def from_secs_def as_millis_def try_u64_def)
  obtain s0 where claim: "with_pool_conn db_env from_pool (lock_set_job sample_conversions ''job'' ?tok 5000) ?s = (Inr True, s0)"
    by (simp add: lock_set_job_def run_defs)
  obtain n s1 where fence: "with_pool_conn db_env from_pool (fence_job sample_conversions (''fence:'' @ ''job'')) s0 = (Inr n, s1)" "0 \<le> n"
    using claim by (auto simp: lock_set_job_def fence_job_def run_defs counter_def text_at_def fits_i64_def)
  obtain lock where first: "lock_acquire db_env sample_conversions from_pool (Some 9) 1 0 ''job'' (from_secs 5) ?s = (Inr lock, s1)"
    using claim fence ttl by (simp add: lock_acquire_def)
  obtain r s2 where second: "lock_acquire db_env sample_conversions from_pool (Some 10) 1 1 (''fence:'' @ ''job'') (from_secs 5) s1 = (r, s2)"
    by force
  have "stays (=) (''fence:'' @ ''job'')" by (simp add: stays_def)
  from fence_counters_block_locks [OF db_env_server this first, THEN conjunct1, rule_format, OF second]
  obtain e where "r = Inl e" by blast
  with first second show ?thesis by simp
qed

end
