(* ===== verification/Client_Runs.thy ===== *)
theory Client_Runs
  imports Client Pool_Refine
begin

text \<open>
  The calls of a client, retried or not, in the interleaved model of the pool: the task that makes the
  call goes through the pool once for every attempt and rests in between, while another task may close
  the pool at any await, the sleeps between the attempts included.
\<close>

section \<open>Between two calls\<close>

text \<open>The task rests; after a success its last way through the pool went over a lane.\<close>

definition rests :: "conc \<Rightarrow> shared \<Rightarrow> bool \<Rightarrow> pool_inner \<Rightarrow> bool" where
  "rests st sh ok p \<longleftrightarrow> \<not> ok \<and> simulates st sh Idle 0 p \<or> (\<exists>m. simulates st sh (Finished m) 0 p \<and> (ok \<longrightarrow> m = None))"

lemma rests_idle:
  assumes "rests st sh ok p"
  obtains sh' x where "step\<^sup>*\<^sup>* st (duo sh' Idle x)" and "closer sh' x" and "sh_pool sh' = p"
    and "sh_permits sh' = sh_permits sh" and "sh_cancelled sh' = sh_cancelled sh"
proof -
  from assms obtain sh' x pc where l: "step\<^sup>*\<^sup>* st (duo sh' pc x)" "pc = Idle \<or> (\<exists>m. pc = Finished m)" "closer sh' x"
      "sh_pool sh' = p" "sh_permits sh' = sh_permits sh" "sh_cancelled sh' = sh_cancelled sh"
    unfolding rests_def simulates_def by auto
  from l(2) have "step\<^sup>*\<^sup>* st (duo sh' Idle x)" using l(1) duo_then [OF _ tstep.again] by blast
  from that [OF this l(3-)] show thesis .
qed

lemma rests_from:
  assumes "sh_permits sh' = sh_permits sh" and "sh_cancelled sh' = sh_cancelled sh" and "rests st sh' ok p"
  shows "rests st sh ok p"
  using assms unfolding rests_def simulates_def by simp

text \<open>While the task sleeps others may close the pool.\<close>

lemma rests_later:
  assumes "rests st sh ok p" and "later p q"
  shows "rests st sh False q"
proof -
  obtain sh1 x where idle: "step\<^sup>*\<^sup>* st (duo sh1 Idle x)" "closer sh1 x" "sh_pool sh1 = p"
    "sh_permits sh1 = sh_permits sh" "sh_cancelled sh1 = sh_cancelled sh"
    using assms(1) by (rule rests_idle)
  obtain y where "step\<^sup>*\<^sup>* st (duo (on_pool (\<lambda>_. q) sh1) Idle y)" "closer (on_pool (\<lambda>_. q) sh1) y"
    using meddle [OF idle(1,2), of q] assms(2) idle(3) by blast
  from simulatesI [OF this(1) refl this(2), of q 0 sh] idle(4,5) show ?thesis by (simp add: rests_def)
qed

lemma rests_call:
  assumes "others_ok env" and "fair_semaphore env sh" and "rests st sh ok (pool s)"
    and "with_pool_conn env cl job s = (r, s')"
  shows "rests st sh (is_ok r) (pool s')"
proof -
  obtain sh1 x where idle: "step\<^sup>*\<^sup>* st (duo sh1 Idle x)" "closer sh1 x" "sh_pool sh1 = pool s"
    "sh_permits sh1 = sh_permits sh" "sh_cancelled sh1 = sh_cancelled sh"
    using assms(3) by (rule rests_idle)
  have fair: "fair_semaphore env sh1" using assms(2) idle(4) by (simp add: fair_semaphore_def)
  have through: "rests st sh (is_ok r) (pool s')"
    if "\<exists>m. simulates st sh1 (Finished m) 0 (pool s') \<and> turned_away r m"
  proof -
    from that have "rests st sh1 (is_ok r) (pool s')" by (cases r) (auto simp: rests_def turned_away_def)
    then show ?thesis by (rule rests_from [OF idle(4,5)])
  qed
  consider (refused) e where "s' = s" "r = Inl e" | (once) "with_conn env job s = (r, s')"
    | (limited) limit where "run_total env (Some limit) job s = (r, s')"
    using assms(4) by (auto simp: with_pool_conn_def with_conn_total_deadline_def split: option.splits if_splits)
  then show ?thesis
  proof cases
    case refused
    with rests_later [OF assms(3)] show ?thesis by (simp add: later_def)
  next
    case once
    from run_run [OF assms(1) fair idle(3,1,2), of None] once show ?thesis by (intro through) (simp add: with_conn_def)
  next
    case limited
    from run_total_run [OF assms(1) fair idle(3,1,2) this] show ?thesis by (rule through)
  qed
qed

lemma rests_retry:
  assumes others: "others_ok env" and fair: "fair_semaphore env sh"
  shows "retry_loop (read_clock env) (sleep_await env) c name (with_pool_conn env cl job) start attempt s = Some (r, s') \<Longrightarrow>
    rests st sh False (pool s) \<Longrightarrow> rests st sh (is_ok r) (pool s')"
proof (induction attempt s rule: retry_induct [of c])
  case (Round attempt s)
  note call = rests_call [OF others fair Round.prems(2)]
  have sleep: "rests st sh False p" if "rests st sh ok p" for ok p
    using that by (rule rests_later) (simp add: later_def)
  from Round.prems(1) show ?case
  proof (cases rule: retry_loop_cases)
    case Done
    then show ?thesis using call by blast
  next
    case (Exhausted s1 t)
    with call [OF Exhausted(1)] pool_read_clock [OF Exhausted(3)] show ?thesis by simp
  next
    case (Expired r1 s1 t s2 t2 deadline)
    with sleep [OF call [OF Expired(1)]] pool_read_clock [OF Expired(3)] pool_read_clock [OF Expired(6)] show ?thesis by simp
  next
    case (Again r1 s1 t s2 s3 d)
    have "pool s3 = pool s1"
      using Again(6) pool_read_clock [OF Again(3)] pool_read_clock [of env s2] by (auto split: option.splits)
    moreover have "later (pool s3) (pool (sleep_await env d s3))"
      unfolding sleep_await_def by (rule pool_await [OF others surjective_pairing])
    ultimately have "rests st sh False (pool (pause (sleep_await env) d s3))"
      using rests_later [OF call [OF Again(1)]] sleep [OF call [OF Again(1)]] by (simp add: pause_def)
    from Round.IH [OF Again(5) should_continue_less [OF Again(4)] Again(7) this] show ?thesis .
  qed
qed

section \<open>Properties\<close>

text \<open>
  C15. Retried calls are runs. Whatever retry policy and deadline a client has, a routed command, with all
  its attempts and the sleeps between them, is a run of the interleaved system in which one task goes
  through the pool attempt by attempt and another may close it at any time; the run ends with the
  shared record the call leaves, every semaphore permit back and the task at rest, over a lane if the
  call succeeded.
\<close>

theorem retried_calls_are_runs:
  assumes "others_ok env" and "fair_semaphore env sh" and "sh_pool sh = pool s"
    and "route_with_safety env cl safety name (with_pool_conn env cl job) s = Some (r, s')"
  shows "\<exists>sh' pc x. step\<^sup>*\<^sup>* \<lparr>cs_shared = sh, cs_tasks = [Idle, Idle]\<rparr> \<lparr>cs_shared = sh', cs_tasks = [pc, x]\<rparr> \<and>
    sh_pool sh' = pool s' \<and> sh_permits sh' = sh_permits sh \<and>
    resting pc \<and> (is_ok r \<longrightarrow> pc = Finished None)"
proof -
  have first: "rests (duo sh Idle Idle) sh False (pool s)"
    using assms(3) simulatesI [OF rtranclp.rtrancl_refl, of Idle Idle sh Idle] by (simp add: rests_def closer_def)
  have "rests (duo sh Idle Idle) sh (is_ok r) (pool s')"
  proof (cases "with_pool_conn env cl job s = (r, s')")
    case True
    with rests_call [OF assms(1,2) first] show ?thesis by blast
  next
    case False
    then obtain c where "with_retry (read_clock env) (sleep_await env) c name (with_pool_conn env cl job) s = Some (r, s')"
      using assms(4) by (auto simp: route_with_safety_def split: option.splits if_splits)
    then obtain t u where c: "read_clock env s = (t, u)"
        "retry_loop (read_clock env) (sleep_await env) c name (with_pool_conn env cl job) t 0 u = Some (r, s')"
      by (auto simp: with_retry_def split: prod.splits)
    from rests_retry [OF assms(1,2) c(2)] first pool_read_clock [OF c(1)] show ?thesis by simp
  qed
  then obtain sh' pc x where "step\<^sup>*\<^sup>* (duo sh Idle Idle) (duo sh' pc x)" "sh_pool sh' = pool s'" "sh_permits sh' = sh_permits sh"
      "resting pc" "is_ok r \<longrightarrow> pc = Finished None"
    unfolding rests_def simulates_def by fastforce
  then show ?thesis unfolding duo_def by blast
qed

theorem retried_calls_are_runs_witness:
  "\<exists>sh' pc x. step\<^sup>*\<^sup>* \<lparr>cs_shared = \<lparr>sh_pool = sample_pool, sh_permits = 256, sh_cancelled = 0\<rparr>, cs_tasks = [Idle, Idle]\<rparr>
      \<lparr>cs_shared = sh', cs_tasks = [pc, x]\<rparr> \<and> resting pc \<and> sh_permits sh' = 256"
proof -
  let ?sh = "\<lparr>sh_pool = sample_pool, sh_permits = 256, sh_cancelled = 0\<rparr>"
  let ?cl = "client_with_retry default_retry from_pool"
  have fair: "fair_semaphore sample_env ?sh"
    by (simp add: fair_semaphore_def sample_env_def sample_runtime_def)
  have cap: "rc_max_backoff default_retry \<le> 2 ^ 48" "0 < rc_max_attempts default_retry"
    by (simp_all add: default_retry_def exponential_def from_secs_def)
  let ?f = "with_pool_conn sample_env ?cl (kv_get sample_conversions ''k'')"
  have "route_with_safety sample_env ?cl ReadOnly ''redis.get'' ?f \<lparr>world = 0, pool = sample_pool\<rparr> \<noteq> None"
    using retry_loop_returns [OF cap, of "read_clock sample_env" "sleep_await sample_env" "''redis.get''" ?f]
    by (simp add: route_with_safety_def client_with_retry_def with_retry_def split: prod.split)
  then obtain r s' where "route_with_safety sample_env ?cl ReadOnly ''redis.get'' ?f
      \<lparr>world = 0, pool = sample_pool\<rparr> = Some (r, s')" by fast
  from retried_calls_are_runs [OF sample_env_ok(1) fair _ this] show ?thesis by fastforce
qed

end
