(* ===== verification/Spec2Isabelle.thy ===== *)
theory Spec2Isabelle
  imports Structures Streams Transaction Pubsub Pool_Refine Pool_Live Lock_Conc Blocking Requests Store Data_Store
    Batch_Store Lock_Store Client_Runs
begin

text \<open>
  Verification of \<open>redisx\<close>, a Redis client library in Rust.

  The program. A process describes its server in a configuration, obtained from a builder, a URL, a
  TOML or serde text or the environment, and validated. A pool connects it (Standalone, Cluster or
  Sentinel) and lends command lanes, at most \<open>max_in_flight\<close> at a time, under an acquire time-out; a
  command runs on a lane under a command time-out or under a deadline for the whole call, and its
  outcome moves one of five counters. A client puts a retry policy on top, which only commands
  classified as safe to repeat go through. Structures, streams, transactions, scripts, the lock and
  Pub/Sub are further commands on the client and the pool.

  Theories, bottom up, with the files of \<open>src/src\<close> they model:

    \<^item> \<open>Prelude\<close>: the result type with Rust's combinators, rule collections, generic lemmas.
    \<^item> \<open>Rust_Std\<close>: the standard library the code uses: white space and \<open>trim\<close> on UTF-8 bytes, searching
      and splitting, ASCII case, parsing and printing of integers, \<open>Duration\<close> in nanoseconds.
    \<^item> \<open>F64\<close>: IEEE double arithmetic on rationals with one rounding per operation, and the two \<open>Duration\<close>
      conversions that use it.
    \<^item> \<open>Errors\<close> (\<open>error.rs\<close>, \<open>error_map.rs\<close>): the error type and the mapping of driver errors.
    \<^item> \<open>Config_Parse\<close> (\<open>config/parse.rs\<close>), \<open>Redis_Config\<close> (\<open>config.rs\<close>, \<open>config/accessors.rs\<close>),
      \<open>Config_Sources\<close> (\<open>config/builder.rs\<close>, \<open>config/wire.rs\<close>): the configuration.
    \<^item> \<open>Retry\<close> (\<open>resilience.rs\<close>): classes of commands, policy, backoff, jitter and the retry loop.
    \<^item> \<open>Runtime\<close> (\<open>pool/backend.rs\<close> and the interfaces of the redis driver and tokio): requests, replies,
      command bodies as data, and the outside world as a record of functions.
    \<^item> \<open>Kv\<close> (\<open>pool/kv.rs\<close>): the bodies of the key-value commands.
    \<^item> \<open>Pool\<close> (\<open>pool.rs\<close>, \<open>pool/lifecycle.rs\<close>, \<open>pool/permit.rs\<close>): the pool, one call at a time.
    \<^item> \<open>Pool_Conc\<close> (the same files): the pool under any number of interleaved tasks; \<open>Pool_Refine\<close>: a
      call of \<open>Pool\<close> is a run of it, and what can always still happen.
    \<^item> \<open>Connect\<close> (\<open>pool/connect.rs\<close>, \<open>pool/lifecycle.rs\<close>), \<open>Client\<close> (\<open>client.rs\<close>), \<open>Structures\<close>
      (\<open>structures.rs\<close>), \<open>Streams\<close> (\<open>streams.rs\<close>), \<open>Transaction\<close> (\<open>transaction.rs\<close>), \<open>Ext\<close> (\<open>ext.rs\<close>),
      \<open>Pubsub\<close> (\<open>pubsub.rs\<close>).
    \<^item> \<open>Requests\<close>: the requests each operation hands to the server, and how often.
    \<^item> \<open>Server\<close>: a call against a server that executes its requests; \<open>Database\<close>: a server with a keyspace of
      texts, hashes, lists, sets and sorted sets; \<open>Store\<close>, \<open>Data_Store\<close>, \<open>Batch_Store\<close>, \<open>Lock_Store\<close>: the
      key-value commands of a client, the structures, the transactions and batches, and the lock as
      operations on that keyspace.
    \<^item> \<open>Lock_Conc\<close> (\<open>ext.rs\<close>): the lock under any number of interleaved clients; \<open>Pool_Live\<close>: infinite fair runs
      of \<open>Pool_Conc\<close>; \<open>Client_Runs\<close>: the retried calls of a client as runs of it; \<open>Blocking\<close> (\<open>structures.rs\<close>, \<open>streams.rs\<close>, \<open>pool/backend.rs\<close>): blocking commands on the
      connections the pool sets up.

  State and effects. The shared record \<open>PoolInner\<close> is \<open>pool_inner\<close>, its atomic counters words of their
  width; \<open>'w sys\<close> puts it beside an arbitrary outside world. The driver, tokio's timer and semaphore,
  the clock and the other tasks are the fields of the records \<open>runtime\<close>, \<open>env\<close>, \<open>driver\<close>,
  \<open>pubsub_driver\<close>, \<open>conversions\<close> and \<open>url_env\<close>: what a theorem needs of them is a named hypothesis
  (\<open>runtime_ok\<close>: a clock that never runs back and is late by at most \<open>late\<close>; \<open>others_ok\<close>: other tasks
  only close the pool; \<open>inert\<close>, \<open>drifts\<close>, \<open>honest_runtime\<close>, \<open>fenced_server\<close>, \<open>db_server\<close>, \<open>recorder\<close>: what a server
  does with its requests). A command body is a \<open>job\<close>: the requests it sends and what becomes of each
  reply. Errors are \<open>redis_error\<close> on the left of a sum; \<open>None\<close> is a panic or a loop that does not end.

  What the lemmas show. \<open>Errors\<close>: which driver errors may be retried. The configuration: validation
  accepts exactly the documented configurations, every source ends in it, what comes out connects
  and fits the machine types, passwords are refused in texts and not displayed. \<open>Retry\<close>: the backoff in
  floating point is the exact schedule, the loop ends, how many attempts it makes and when. The pool:
  a call gives back what it took and moves one counter, deadlines bound it, \<open>close\<close> ends; under
  interleaving no more than \<open>max_in_flight\<close> lanes are lent and none is lost, and a closed pool drains in
  every fair run. The client: writes are sent once, reads repeat one request and are bounded in number
  and time, the commands of the client and the structures are operations on the server's keyspace, and
  batches take place as a whole or not at all.
  The lock: it excludes, its tokens and fences are unique, and fences order the owners as long as no
  lock lapses.

  Bounds. The floating-point theorems hold for caps up to 2 to the 48 nanoseconds (about three days),
  where a \<open>Duration\<close> and its \<open>f64\<close> agree to the nanosecond. \<open>Semaphore::new\<close> panics above 2 to the 61
  minus 1 permits; the constructors are \<open>None\<close> there. No function runs on fuel: the retry loop ends by
  its attempts, \<open>close_loop\<close> is a partial function whose end is proved, splitting and parsing recurse
  on the text. Counters wrap at 2 to the 64; tokens are unique before their counter has gone around.

  The theorems on a server's keyspace take an exchange with the driver as one step that the server executes
  at one moment, or perhaps not at all when no reply arrives; what a cluster driver does with a request
  on its own (redirects, the retries it is given as \<open>max_cluster_redirects\<close>, splitting a command whose keys
  lie in several slots) is part of the driver. Between those moments anything a relation \<open>D\<close> allows may happen
  to the keyspace: the theorems that say what a command does hold for every \<open>D\<close>, those on a write followed
  by a read for a \<open>D\<close> that leaves the key to its callers except that it may expire (\<open>fades\<close>, \<open>stays\<close>).
  Nothing is supposed of requests other than those of the commands in question (\<open>db_request\<close>). In
  \<open>Lock_Conc\<close>, where the interleaving of the clients is the model itself, a single call meets an undisturbed
  server (\<open>D\<close> is equality) of lock keys and fence counters with different names.

  Not modelled: the text an error or a \<open>Debug\<close> field is rendered to (a message is the tag of its fixed
  text with the values put into it); tracing output; the time a token comparison takes; the
  re-exports of \<open>lib.rs\<close>; the test-only \<open>Probe\<close> backend; the insides of the redis driver, tokio, serde, toml and url; tests and benchmarks. A panic
  inside a caller's password provider is not followed.
\<close>

section \<open>What is logged\<close>



end
